(* ===== verification/Meteor_Prelude.thy ===== *)
theory Meteor_Prelude
  imports Main "HOL-Library.Word" "HOL-Library.List_Lexorder" "HOL-Library.Sublist"
begin

text \<open>
  What every component of the model shares: the machine integers of the Rust source, its
  error type, the \<open>?\<close> operator on \<open>Result\<close>, checked and saturating arithmetic,
  little- and big-endian integer encodings, decimal file names, and the sorted association
  lists that stand for \<open>BTreeMap\<close>.  Byte strings are lists of 8-bit words compared
  lexicographically, which is the order of Rust's \<open>[u8]\<close>.
\<close>

unbundle bit_operations_syntax

named_theorems codec \<open>round-trip equations of encoders and decoders\<close>
named_theorems arith_defs \<open>definitions of checked and saturating arithmetic\<close>

section \<open>Machine integers\<close>

type_synonym u8 = "8 word"
type_synonym u16 = "16 word"
type_synonym u32 = "32 word"
type_synonym u64 = "64 word"
type_synonym i64 = "64 word"
type_synonym bytes = "u8 list"

text \<open>
  \<open>usize\<close> is a natural number; the target is a 64-bit platform, and the places where the
  source checks for overflow compare with \<open>usize_max\<close>.  A path is the list of its
  components.
\<close>

type_synonym usize = nat
type_synonym path = "string list"

definition usize_max :: nat where
  "usize_max = 2 ^ 64 - 1"

definition u64_max :: u64 where
  "u64_max = - 1"

definition checked_add_usize :: "usize \<Rightarrow> usize \<Rightarrow> usize option" where
  [arith_defs]: "checked_add_usize a b = (if a + b \<le> usize_max then Some (a + b) else None)"

definition checked_mul_usize :: "usize \<Rightarrow> usize \<Rightarrow> usize option" where
  [arith_defs]: "checked_mul_usize a b = (if a * b \<le> usize_max then Some (a * b) else None)"

definition checked_sub_usize :: "usize \<Rightarrow> usize \<Rightarrow> usize option" where
  [arith_defs]: "checked_sub_usize a b = (if b \<le> a then Some (a - b) else None)"

definition saturating_add_usize :: "usize \<Rightarrow> usize \<Rightarrow> usize" where
  [arith_defs]: "saturating_add_usize a b = min (a + b) usize_max"

definition saturating_mul_usize :: "usize \<Rightarrow> usize \<Rightarrow> usize" where
  [arith_defs]: "saturating_mul_usize a b = min (a * b) usize_max"

definition checked_add_u64 :: "u64 \<Rightarrow> u64 \<Rightarrow> u64 option" where
  [arith_defs]: "checked_add_u64 a b = (if unat a + unat b < 2 ^ 64 then Some (a + b) else None)"

definition saturating_add_u64 :: "u64 \<Rightarrow> u64 \<Rightarrow> u64" where
  [arith_defs]: "saturating_add_u64 a b = (if unat a + unat b < 2 ^ 64 then a + b else u64_max)"

definition saturating_sub_u64 :: "u64 \<Rightarrow> u64 \<Rightarrow> u64" where
  [arith_defs]: "saturating_sub_u64 a b = (if b \<le> a then a - b else 0)"

text \<open>\<open>u32::try_from\<close> and \<open>u64::try_from\<close> on a \<open>usize\<close>.\<close>

definition u32_try_from :: "usize \<Rightarrow> u32 option" where
  [arith_defs]: "u32_try_from n = (if n < 2 ^ 32 then Some (word_of_nat n) else None)"

definition u64_try_from :: "usize \<Rightarrow> u64 option" where
  [arith_defs]: "u64_try_from n = (if n < 2 ^ 64 then Some (word_of_nat n) else None)"

lemma unat_lt2p: "unat (w :: 'a :: len word) < 2 ^ LENGTH('a)"
  by (rule unsigned_less)

lemma unat_of_nat_eq: "n < 2 ^ LENGTH('a) \<Longrightarrow> unat (word_of_nat n :: 'a :: len word) = n"
  by (simp add: unat_of_nat take_bit_nat_eq_self_iff)

lemma checked_add_u64_Some:
  "checked_add_u64 a b = Some c \<Longrightarrow> unat c = unat a + unat b"
  by (auto simp: checked_add_u64_def unat_word_ariths split: if_splits)

lemma unat_u64_max [simp]: "unat u64_max = 2 ^ 64 - 1"
  by (simp add: u64_max_def unsigned_minus_1_eq_mask mask_eq_exp_minus_1)

lemma unat_u64_not: "unat (NOT w) = 2 ^ 64 - 1 - unat (w :: u64)"
proof -
  have "NOT w = u64_max - w" by (simp add: u64_max_def not_eq_complement)
  moreover have "w \<le> u64_max" by (simp add: u64_max_def)
  ultimately show ?thesis by (simp add: unat_sub)
qed

lemma u64_not_less_iff: "NOT x < NOT y \<longleftrightarrow> y < (x :: u64)"
  using unat_lt2p [of x] unat_lt2p [of y]
  by (auto simp: word_less_nat_alt unat_u64_not)

lemma checked_add_u64_1:
  "checked_add_u64 a 1 = (if a = u64_max then None else Some (a + 1))"
proof -
  have "unat a + 1 < 2 ^ 64 \<longleftrightarrow> a \<noteq> u64_max"
    using unat_lt2p [of a] by (auto simp: word_unat_eq_iff)
  then show ?thesis by (simp add: checked_add_u64_def)
qed

section \<open>Errors and results\<close>

text \<open>
  The constructors of \<open>Error\<close> in \<open>error.rs\<close> with their structured fields.  The
  message strings of the source are text for people (\<open>Display text ... may evolve\<close>) and
  carry no behaviour, so a variant whose only field is a message has no argument here, and the
  fixed context string of a corruption is one constant of \<open>corruption_context\<close>.
  \<open>Panic\<close> is not a value of the Rust type: it is the branch where the source panics
  (\<open>expect\<close>, an index out of range).
\<close>

datatype corruption_context =
    InternalKeyCtx | WalBatchCtx | WalCtx | WalRecoveryCtx | EngineValueCtx | BloomCtx
  | DataBlockCtx | BlockHandleCtx | StoredBlockCtx | SstableCtx | FooterCtx | IndexCtx
  | PropertiesCtx | ManifestCtx | FeatureKeyCtx | FeatureRecordCtx | EmbeddingValueCtx
  | InferenceEntryCtx

datatype format_kind =
    WalBatchFormat | SstableFormat | ManifestFormat | FeatureRecordFormat
  | EmbeddingValueFormat | InferenceEntryFormat

datatype io_kind = NotFound | AlreadyExists | InvalidInput | WouldBlock | UnexpectedEof | OtherIo

datatype error =
    InvalidArgument
  | Io string path io_kind
  | Corruption corruption_context
  | UnsupportedFormat format_kind u32
  | Reentrant string
  | Locked path
  | Closed
  | Background
  | WriteStall nat
  | Panic

type_synonym 'a result = "error + 'a"

abbreviation Ok :: "'a \<Rightarrow> 'a result" where
  "Ok \<equiv> Inr"

abbreviation Err :: "error \<Rightarrow> 'a result" where
  "Err \<equiv> Inl"

text \<open>The \<open>?\<close> operator, and \<open>ok_or\<close> and \<open>map_err\<close>.\<close>

fun rbind :: "'a result \<Rightarrow> ('a \<Rightarrow> 'b result) \<Rightarrow> 'b result" where
  "rbind (Inl e) f = Inl e"
| "rbind (Inr x) f = f x"

fun ok_or :: "'a option \<Rightarrow> error \<Rightarrow> 'a result" where
  "ok_or None e = Err e"
| "ok_or (Some x) e = Ok x"

fun map_err :: "(error \<Rightarrow> error) \<Rightarrow> 'a result \<Rightarrow> 'a result" where
  "map_err f (Inl e) = Inl (f e)"
| "map_err f (Inr x) = Inr x"

text \<open>\<open>expect\<close> on a result whose error branch the source rules out by construction.\<close>

fun expect :: "'a result \<Rightarrow> 'a" where
  "expect (Inr x) = x"

fun is_ok :: "'a result \<Rightarrow> bool" where
  "is_ok (Inl e) = False"
| "is_ok (Inr x) = True"

lemma rbind_Ok_iff: "rbind m f = Inr y \<longleftrightarrow> (\<exists>x. m = Inr x \<and> f x = Inr y)"
  by (cases m) auto

lemma rbind_Err_iff: "rbind m f = Inl e \<longleftrightarrow> m = Inl e \<or> (\<exists>x. m = Inr x \<and> f x = Inl e)"
  by (cases m) auto

lemma ok_or_Ok_iff: "ok_or m e = Inr y \<longleftrightarrow> m = Some y"
  by (cases m) auto

lemma ok_or_Err_iff: "ok_or m e = Inl e' \<longleftrightarrow> m = None \<and> e' = e"
  by (cases m) auto

lemma map_err_Ok_iff: "map_err f m = Inr y \<longleftrightarrow> m = Inr y"
  by (cases m) auto

lemma map_err_Err_iff: "map_err f m = Inl e \<longleftrightarrow> (\<exists>e'. m = Inl e' \<and> e = f e')"
  by (cases m) auto

lemma is_ok_iff: "is_ok m \<longleftrightarrow> (\<exists>x. m = Inr x)"
  by (cases m) auto

lemma rbind_cong [fundef_cong]:
  "m = m' \<Longrightarrow> (\<And>x. m' = Inr x \<Longrightarrow> f x = f' x) \<Longrightarrow> rbind m f = rbind m' f'"
  by (cases m') auto

lemmas result_iffs = rbind_Ok_iff rbind_Err_iff ok_or_Ok_iff ok_or_Err_iff
  map_err_Ok_iff map_err_Err_iff

section \<open>Byte-wise integer encodings\<close>

text \<open>
  \<open>to_le_bytes\<close> of an integer below \<open>256 ^ n\<close> and its inverse; the big-endian
  forms are the reversals.
\<close>

fun nat_to_le :: "nat \<Rightarrow> nat \<Rightarrow> bytes" where
  "nat_to_le 0 x = []"
| "nat_to_le (Suc n) x = word_of_nat (x mod 256) # nat_to_le n (x div 256)"

fun nat_of_le :: "bytes \<Rightarrow> nat" where
  "nat_of_le [] = 0"
| "nat_of_le (b # bs) = unat b + 256 * nat_of_le bs"

definition u16_to_le :: "u16 \<Rightarrow> bytes" where "u16_to_le w = nat_to_le 2 (unat w)"
definition u32_to_le :: "u32 \<Rightarrow> bytes" where "u32_to_le w = nat_to_le 4 (unat w)"
definition u64_to_le :: "u64 \<Rightarrow> bytes" where "u64_to_le w = nat_to_le 8 (unat w)"
definition u32_to_be :: "u32 \<Rightarrow> bytes" where "u32_to_be w = rev (u32_to_le w)"
definition u64_to_be :: "u64 \<Rightarrow> bytes" where "u64_to_be w = rev (u64_to_le w)"

definition u16_from_le :: "bytes \<Rightarrow> u16" where "u16_from_le bs = word_of_nat (nat_of_le bs)"
definition u32_from_le :: "bytes \<Rightarrow> u32" where "u32_from_le bs = word_of_nat (nat_of_le bs)"
definition u64_from_le :: "bytes \<Rightarrow> u64" where "u64_from_le bs = word_of_nat (nat_of_le bs)"
definition u64_from_be :: "bytes \<Rightarrow> u64" where "u64_from_be bs = u64_from_le (rev bs)"

lemma nat_to_le_numeral:
  "nat_to_le (numeral k) x = word_of_nat (x mod 256) # nat_to_le (pred_numeral k) (x div 256)"
  unfolding numeral_eq_Suc [of k] by (rule nat_to_le.simps(2))

lemma length_nat_to_le [simp]: "length (nat_to_le n x) = n"
  by (induction n arbitrary: x) auto

lemma nat_of_le_to_le [codec]: "nat_of_le (nat_to_le n x) = x mod 256 ^ n"
proof (induction n arbitrary: x)
  case 0
  then show ?case by simp
next
  case (Suc n)
  have "x mod 256 ^ Suc n = x mod 256 + 256 * (x div 256 mod 256 ^ n)"
    by (simp add: mod_mult2_eq)
  with Suc show ?case
    by (simp add: unat_of_nat)
qed

lemma nat_of_le_bound: "nat_of_le bs < 256 ^ length bs"
proof (induction bs)
  case Nil
  then show ?case by simp
next
  case (Cons b bs)
  have "unat b < 256" using unat_lt2p [of b] by simp
  with Cons show ?case by simp
qed

lemma nat_to_le_of_le [codec]: "nat_to_le (length bs) (nat_of_le bs) = bs"
proof (induction bs)
  case Nil
  then show ?case by simp
next
  case (Cons b bs)
  have b: "unat b < 256" using unat_lt2p [of b] by simp
  then have "(unat b + 256 * nat_of_le bs) div 256 = nat_of_le bs" by simp
  with b Cons show ?case by simp
qed

lemma length_int_encodings [simp]:
  "length (u16_to_le w2) = 2" "length (u32_to_le w4) = 4" "length (u64_to_le w8) = 8"
  "length (u32_to_be w4) = 4" "length (u64_to_be w8) = 8"
  by (simp_all add: u16_to_le_def u32_to_le_def u64_to_le_def u32_to_be_def u64_to_be_def)

lemma u16_le_roundtrip [codec, simp]: "u16_from_le (u16_to_le w) = w"
  using unat_lt2p [of w] by (simp add: u16_from_le_def u16_to_le_def nat_of_le_to_le)

lemma u32_le_roundtrip [codec, simp]: "u32_from_le (u32_to_le w) = w"
  using unat_lt2p [of w] by (simp add: u32_from_le_def u32_to_le_def nat_of_le_to_le)

lemma u64_le_roundtrip [codec, simp]: "u64_from_le (u64_to_le w) = w"
  using unat_lt2p [of w] by (simp add: u64_from_le_def u64_to_le_def nat_of_le_to_le)

lemma u64_be_roundtrip [codec, simp]: "u64_from_be (u64_to_be w) = w"
  by (simp add: u64_from_be_def u64_to_be_def)

lemma u16_le_canonical [codec]: "length bs = 2 \<Longrightarrow> u16_to_le (u16_from_le bs) = bs"
  using nat_of_le_bound [of bs] nat_to_le_of_le [of bs]
  by (simp add: u16_to_le_def u16_from_le_def unat_of_nat_eq)

lemma u32_le_canonical [codec]: "length bs = 4 \<Longrightarrow> u32_to_le (u32_from_le bs) = bs"
  using nat_of_le_bound [of bs] nat_to_le_of_le [of bs]
  by (simp add: u32_to_le_def u32_from_le_def unat_of_nat_eq)

lemma u64_le_canonical [codec]: "length bs = 8 \<Longrightarrow> u64_to_le (u64_from_le bs) = bs"
  using nat_of_le_bound [of bs] nat_to_le_of_le [of bs]
  by (simp add: u64_to_le_def u64_from_le_def unat_of_nat_eq)

lemma u64_be_canonical [codec]: "length bs = 8 \<Longrightarrow> u64_to_be (u64_from_be bs) = bs"
  by (simp add: u64_to_be_def u64_from_be_def u64_le_canonical)

text \<open>Big-endian encodings of the same width compare like the numbers they encode.\<close>

lemma nat_of_le_append: "nat_of_le (xs @ ys) = nat_of_le xs + 256 ^ length xs * nat_of_le ys"
  by (induction xs) (auto simp: algebra_simps)

lemma rev_le_less:
  "length xs = length ys \<Longrightarrow> nat_of_le (rev xs) < nat_of_le (rev ys) \<longleftrightarrow> xs < (ys :: bytes)"
proof (induction xs ys rule: list_induct2)
  case Nil
  then show ?case by simp
next
  case (Cons x xs y ys)
  let ?B = "256 ^ length ys :: nat"
  have b: "nat_of_le (rev xs) < ?B" "nat_of_le (rev ys) < ?B"
    using nat_of_le_bound [of "rev xs"] nat_of_le_bound [of "rev ys"] Cons.hyps by simp_all
  have digit: "p + ?B * a < q + ?B * c \<longleftrightarrow> a < c \<or> a = c \<and> p < q"
    if "p < ?B" "q < ?B" for p q a c :: nat
  proof (cases a c rule: linorder_cases)
    case less
    then have "?B * a + ?B \<le> ?B * c"
      by (metis Suc_leI add.commute mult_Suc_right mult_le_mono2)
    with less that show ?thesis by linarith
  next
    case equal
    then show ?thesis by simp
  next
    case greater
    then have "?B * c + ?B \<le> ?B * a"
      by (metis Suc_leI add.commute mult_Suc_right mult_le_mono2)
    with greater that show ?thesis by linarith
  qed
  show ?case
    using digit [OF b, of "unat x" "unat y"] Cons
    by (auto simp: nat_of_le_append word_less_nat_alt word_unat_eq_iff)
qed

lemma u64_be_less_iff: "u64_to_be a < u64_to_be b \<longleftrightarrow> a < b"
proof -
  have "u64_to_be a < u64_to_be b \<longleftrightarrow> nat_of_le (u64_to_le a) < nat_of_le (u64_to_le b)"
    using rev_le_less [of "u64_to_be a" "u64_to_be b"] by (simp add: u64_to_be_def)
  also have "\<dots> \<longleftrightarrow> a < b"
    using unat_lt2p [of a] unat_lt2p [of b]
    by (simp add: u64_to_le_def nat_of_le_to_le word_less_nat_alt)
  finally show ?thesis .
qed

lemma u64_be_eq_iff [simp]: "u64_to_be a = u64_to_be b \<longleftrightarrow> a = b"
  by (metis u64_be_roundtrip)

text \<open>Lexicographic comparison of concatenations.\<close>

lemma less_append_same_length:
  "length xs = length ys \<Longrightarrow>
    xs @ us < ys @ (vs :: bytes) \<longleftrightarrow> xs < ys \<or> xs = ys \<and> us < vs"
  by (induction xs ys rule: list_induct2) auto

lemma less_append_left: "xs @ us < xs @ vs \<longleftrightarrow> us < (vs :: bytes)"
  by (induction xs) auto

section \<open>Sorted association lists (\<open>BTreeMap\<close>)\<close>

text \<open>
  A \<open>BTreeMap\<close> is the list of its entries in key order.  Keys are compared through a
  projection \<open>f\<close>, because \<open>InternalKey\<close> compares by its encoded bytes only.  As in
  Rust, inserting an existing key keeps the stored key and replaces the value.
\<close>

definition bt_sorted :: "('k \<Rightarrow> 'o :: linorder) \<Rightarrow> ('k \<times> 'v) list \<Rightarrow> bool" where
  "bt_sorted f m = sorted_wrt (<) (map (f \<circ> fst) m)"

fun bt_insert :: "('k \<Rightarrow> 'o :: linorder) \<Rightarrow> 'k \<Rightarrow> 'v \<Rightarrow> ('k \<times> 'v) list \<Rightarrow> ('k \<times> 'v) list" where
  "bt_insert f k v [] = [(k, v)]"
| "bt_insert f k v (e # m) =
    (if f k < f (fst e) then (k, v) # e # m
     else if f k = f (fst e) then (fst e, v) # m
     else e # bt_insert f k v m)"

fun bt_get :: "('k \<Rightarrow> 'o :: linorder) \<Rightarrow> 'o \<Rightarrow> ('k \<times> 'v) list \<Rightarrow> 'v option" where
  "bt_get f k [] = None"
| "bt_get f k (e # m) = (if f (fst e) = k then Some (snd e) else bt_get f k m)"

fun bt_remove :: "('k \<Rightarrow> 'o :: linorder) \<Rightarrow> 'o \<Rightarrow> ('k \<times> 'v) list \<Rightarrow> ('k \<times> 'v) list" where
  "bt_remove f k [] = []"
| "bt_remove f k (e # m) = (if f (fst e) = k then m else e # bt_remove f k m)"

text \<open>\<open>range(lo..)\<close>: the entries from the first key that is at least \<open>lo\<close>.\<close>

definition bt_from :: "('k \<Rightarrow> 'o :: linorder) \<Rightarrow> 'o \<Rightarrow> ('k \<times> 'v) list \<Rightarrow> ('k \<times> 'v) list" where
  "bt_from f lo m = dropWhile (\<lambda>e. f (fst e) < lo) m"

lemma bt_sorted_Nil [simp]: "bt_sorted f []"
  by (simp add: bt_sorted_def)

lemma bt_sorted_Cons [simp]:
  "bt_sorted f (e # m) \<longleftrightarrow> (\<forall>x \<in> set m. f (fst e) < f (fst x)) \<and> bt_sorted f m"
  by (auto simp: bt_sorted_def)

lemma bt_insert_keys:
  "(\<lambda>e. f (fst e)) ` set (bt_insert f k v m) = insert (f k) ((\<lambda>e. f (fst e)) ` set m)"
  by (induction m) auto

lemma bt_insert_sorted [simp]: "bt_sorted f m \<Longrightarrow> bt_sorted f (bt_insert f k v m)"
proof (induction m)
  case Nil
  then show ?case by simp
next
  case (Cons e m)
  have "f (fst e) < f (fst x)" if "x \<in> set (bt_insert f k v m)" "f (fst e) < f k" for x
  proof -
    have "f (fst x) \<in> insert (f k) ((\<lambda>e. f (fst e)) ` set m)"
      using that bt_insert_keys [of f k v m] by (metis imageI)
    with that Cons.prems show ?thesis by auto
  qed
  with Cons show ?case by (auto dest: less_trans)
qed

lemma bt_get_none_iff: "bt_get f k m = None \<longleftrightarrow> (\<forall>e \<in> set m. f (fst e) \<noteq> k)"
  by (induction m) auto

lemma bt_get_bt_insert:
  "bt_sorted f m \<Longrightarrow> bt_get f j (bt_insert f k v m) = (if j = f k then Some v else bt_get f j m)"
  by (induction m) (auto simp: bt_get_none_iff)

lemma bt_get_bt_remove:
  "bt_sorted f m \<Longrightarrow> bt_get f j (bt_remove f k m) = (if j = k then None else bt_get f j m)"
  by (induction m) (force simp: bt_get_none_iff)+

lemma bt_remove_subset: "set (bt_remove f k m) \<subseteq> set m"
  by (induction m) auto

lemma bt_remove_sorted [simp]: "bt_sorted f m \<Longrightarrow> bt_sorted f (bt_remove f k m)"
  using bt_remove_subset by (induction m) fastforce+

lemma bt_get_mem: "bt_get f k m = Some v \<Longrightarrow> \<exists>e \<in> set m. f (fst e) = k \<and> snd e = v"
  by (induction m) (auto split: if_splits)

lemma bt_get_Some_iff:
  "bt_sorted f m \<Longrightarrow> bt_get f k m = Some v \<longleftrightarrow> (\<exists>e \<in> set m. f (fst e) = k \<and> snd e = v)"
  by (induction m) (auto dest: bt_get_mem)

lemma bt_from_filter: "bt_sorted f m \<Longrightarrow> bt_from f lo m = filter (\<lambda>e. lo \<le> f (fst e)) m"
  by (induction m) (auto simp: bt_from_def not_less intro!: filter_True [symmetric] dest: less_imp_le le_less_trans)

end
