(* ===== verification/Configuration.thy ===== *)
theory Configuration
  imports Meteor_Prelude
begin

text \<open>
  Database options and their validation (\<open>options.rs\<close>) and the wall clocks that decide
  expiration (\<open>clock.rs\<close>).  Both clocks meet one contract: successive readings never decrease.
\<close>

section \<open>Options\<close>

datatype durability = Sync | Buffered

datatype compression = NoCompression | Snappy

record options =
  opt_path :: path
  opt_durability :: durability
  opt_memtable_bytes :: usize
  opt_target_sstable_bytes :: usize
  opt_block_bytes :: usize
  opt_restart_interval :: usize
  opt_bloom_bits_per_key :: u8
  opt_block_cache_bytes :: usize
  opt_max_immutable_memtables :: usize
  opt_max_key_bytes :: usize
  opt_max_value_bytes :: usize
  opt_max_batch_bytes :: usize

definition options_new :: "path \<Rightarrow> options" where
  "options_new path = \<lparr>
    opt_path = path,
    opt_durability = Sync,
    opt_memtable_bytes = 64 * 1024 * 1024,
    opt_target_sstable_bytes = 64 * 1024 * 1024,
    opt_block_bytes = 4 * 1024,
    opt_restart_interval = 16,
    opt_bloom_bits_per_key = 10,
    opt_block_cache_bytes = 64 * 1024 * 1024,
    opt_max_immutable_memtables = 4,
    opt_max_key_bytes = 1024 * 1024,
    opt_max_value_bytes = 64 * 1024 * 1024,
    opt_max_batch_bytes = 64 * 1024 * 1024\<rparr>"

definition validate_nonzero :: "usize \<Rightarrow> unit result" where
  "validate_nonzero n = (if n = 0 then Err InvalidArgument else Ok ())"

definition options_validate :: "options \<Rightarrow> unit result" where
  "options_validate opts =
    rbind (validate_nonzero (opt_memtable_bytes opts)) (\<lambda>_.
    rbind (validate_nonzero (opt_target_sstable_bytes opts)) (\<lambda>_.
    rbind (validate_nonzero (opt_block_bytes opts)) (\<lambda>_.
    rbind (validate_nonzero (opt_restart_interval opts)) (\<lambda>_.
    rbind (validate_nonzero (unat (opt_bloom_bits_per_key opts))) (\<lambda>_.
    rbind (validate_nonzero (opt_block_cache_bytes opts)) (\<lambda>_.
    rbind (validate_nonzero (opt_max_immutable_memtables opts)) (\<lambda>_.
    rbind (validate_nonzero (opt_max_key_bytes opts)) (\<lambda>_.
    rbind (validate_nonzero (opt_max_value_bytes opts)) (\<lambda>_.
    validate_nonzero (opt_max_batch_bytes opts))))))))))"

lemma options_validate_iff:
  "options_validate opts = Ok () \<longleftrightarrow>
    0 \<notin> {opt_memtable_bytes opts, opt_target_sstable_bytes opts, opt_block_bytes opts,
      opt_restart_interval opts, unat (opt_bloom_bits_per_key opts), opt_block_cache_bytes opts,
      opt_max_immutable_memtables opts, opt_max_key_bytes opts, opt_max_value_bytes opts,
      opt_max_batch_bytes opts}"
  by (auto simp: options_validate_def validate_nonzero_def)

lemma options_new_valid: "options_validate (options_new path) = Ok ()"
  by (simp add: options_validate_def validate_nonzero_def options_new_def)

section \<open>Clocks\<close>

text \<open>
  The system clock: the state is the process-wide high-water mark, the input is the number of
  milliseconds since the epoch the operating system reports, \<open>None\<close> before the epoch.
\<close>

definition clamp_observed :: "u64 \<Rightarrow> u64 \<Rightarrow> u64 \<times> u64" where
  "clamp_observed high_water observed =
    (let previous = high_water; high_water = max high_water observed in (max previous observed, high_water))"

definition system_now_unix_ms :: "u64 \<Rightarrow> nat option \<Rightarrow> u64 \<times> u64" where
  "system_now_unix_ms high_water now =
    (let milliseconds = (case now of None \<Rightarrow> 0 | Some n \<Rightarrow> n);
         observed = (case u64_try_from milliseconds of Some w \<Rightarrow> w | None \<Rightarrow> u64_max)
     in clamp_observed high_water observed)"

definition manual_set :: "u64 \<Rightarrow> u64 \<Rightarrow> unit result \<times> u64" where
  "manual_set current now_unix_ms =
    (if now_unix_ms \<ge> current then (Ok (), now_unix_ms) else (Err InvalidArgument, current))"

text \<open>One use of the manual clock: a test moves it, the engine reads it.\<close>

definition manual_set_and_read :: "u64 \<Rightarrow> u64 \<Rightarrow> u64 \<times> u64" where
  "manual_set_and_read current now_unix_ms =
    (let current = snd (manual_set current now_unix_ms) in (current, current))"

fun clock_readings :: "('s \<Rightarrow> 'i \<Rightarrow> u64 \<times> 's) \<Rightarrow> 's \<Rightarrow> 'i list \<Rightarrow> u64 list" where
  "clock_readings tick s [] = []"
| "clock_readings tick s (i # is) = (let (t, s') = tick s i in t # clock_readings tick s' is)"

locale monotone_clock =
  fixes tick :: "'s \<Rightarrow> 'i \<Rightarrow> u64 \<times> 's" and high :: "'s \<Rightarrow> u64"
  assumes tick_ge: "tick s i = (t, s') \<Longrightarrow> high s \<le> t"
    and tick_high: "tick s i = (t, s') \<Longrightarrow> high s' = t"
begin

lemma readings_ge: "t \<in> set (clock_readings tick s is) \<Longrightarrow> high s \<le> t"
proof (induction "is" arbitrary: s)
  case (Cons i "is")
  obtain t' s' where "tick s i = (t', s')" by force
  with Cons tick_ge [of s i t' s'] tick_high [of s i t' s'] show ?case
    by (auto intro: order_trans)
qed simp

lemma readings_sorted: "sorted (clock_readings tick s is)"
proof (induction "is" arbitrary: s)
  case (Cons i "is")
  obtain t' s' where "tick s i = (t', s')" by force
  with Cons readings_ge [of _ s' "is"] tick_high [of s i t' s'] show ?case by auto
qed simp

end

interpretation system_clock: monotone_clock system_now_unix_ms "\<lambda>high_water. high_water"
  by unfold_locales (auto simp: system_now_unix_ms_def clamp_observed_def Let_def)

interpretation manual_clock: monotone_clock manual_set_and_read "\<lambda>current. current"
  by unfold_locales (auto simp: manual_set_and_read_def manual_set_def Let_def split: if_splits)

section \<open>Properties\<close>

text \<open>
  C36. Wall-clock readings never decrease, whatever the operating system reports and whatever
  values are set: every sequence of readings of the system clock and of the manual clock is sorted.
\<close>

theorem clocks_monotone:
  "sorted (clock_readings system_now_unix_ms high_water reported) \<and>
   sorted (clock_readings manual_set_and_read current values)"
  using system_clock.readings_sorted manual_clock.readings_sorted by blast

end
