(* ===== verification/Internal_Key.thy ===== *)
theory Internal_Key
  imports Meteor_Prelude
begin

text \<open>
  Internal keys (\<open>internal_key.rs\<close>): a user key, escaped and terminated, followed by the
  complemented big-endian sequence number and the kind byte.  The lemmas show that encoding and
  decoding are inverse to each other and that plain byte order on encodings is the order of
  \<open>InternalKey\<close>: user keys ascending, sequence numbers descending, kinds ascending.
\<close>

section \<open>Definitions\<close>

type_synonym sequence_number = u64

datatype value_kind = Deletion | Value

record internal_key =
  ik_encoded :: bytes
  ik_user_key :: bytes

definition INTERNAL_KEY_TRAILER_BYTES :: usize where "INTERNAL_KEY_TRAILER_BYTES = 9"
definition USER_KEY_TERMINATOR_BYTES :: usize where "USER_KEY_TERMINATOR_BYTES = 2"
definition MAX_SEQUENCE_NUMBER :: sequence_number where "MAX_SEQUENCE_NUMBER = u64_max - 1"

fun kind_byte :: "value_kind \<Rightarrow> u8" where
  "kind_byte Deletion = 0"
| "kind_byte Value = 1"

definition kind_from_byte :: "u8 \<Rightarrow> value_kind result" where
  "kind_from_byte b =
    (if b = 0 then Ok Deletion
     else if b = 1 then Ok Value
     else Err (Corruption InternalKeyCtx))"

fun encode_user_key :: "bytes \<Rightarrow> bytes" where
  "encode_user_key [] = [0x00, 0x00]"
| "encode_user_key (b # bs) = (if b = 0 then [0x00, 0xff] else [b]) @ encode_user_key bs"

text \<open>
  The \<open>while\<close> loop of \<open>decode_user_key\<close>: the remaining input, the index of its first
  byte and the user key collected so far.
\<close>

fun decode_user_key_loop :: "bytes \<Rightarrow> usize \<Rightarrow> bytes \<Rightarrow> (bytes \<times> usize) result" where
  "decode_user_key_loop [] index user_key = Err (Corruption InternalKeyCtx)"
| "decode_user_key_loop (b # rest) index user_key =
    (if b \<noteq> 0 then decode_user_key_loop rest (index + 1) (user_key @ [b])
     else case rest of
       [] \<Rightarrow> Err (Corruption InternalKeyCtx)
     | follower # rest' \<Rightarrow>
         if follower = 0x00 then Ok (user_key, index + USER_KEY_TERMINATOR_BYTES)
         else if follower = 0xff then decode_user_key_loop rest' (index + 2) (user_key @ [0])
         else Err (Corruption InternalKeyCtx))"

definition decode_user_key :: "bytes \<Rightarrow> (bytes \<times> usize) result" where
  "decode_user_key bs = decode_user_key_loop bs 0 []"

definition decode_sequence :: "bytes \<Rightarrow> sequence_number" where
  "decode_sequence bs = NOT (u64_from_be bs)"

definition ik_try_new :: "bytes \<Rightarrow> sequence_number \<Rightarrow> value_kind \<Rightarrow> internal_key result" where
  "ik_try_new user_key sequence kind =
    (if sequence > MAX_SEQUENCE_NUMBER then Err InvalidArgument
     else Ok \<lparr>ik_encoded = encode_user_key user_key @ u64_to_be (NOT sequence) @ [kind_byte kind],
              ik_user_key = user_key\<rparr>)"

definition ik_value :: "bytes \<Rightarrow> sequence_number \<Rightarrow> internal_key result" where
  "ik_value user_key sequence = map_err (\<lambda>_. Panic) (ik_try_new user_key sequence Value)"

definition ik_deletion :: "bytes \<Rightarrow> sequence_number \<Rightarrow> internal_key result" where
  "ik_deletion user_key sequence = map_err (\<lambda>_. Panic) (ik_try_new user_key sequence Deletion)"

definition ik_decode :: "bytes \<Rightarrow> internal_key result" where
  "ik_decode bs = rbind (decode_user_key bs) (\<lambda>(user_key, trailer_start).
    let trailer_len = length bs - trailer_start in
    if trailer_len < INTERNAL_KEY_TRAILER_BYTES then Err (Corruption InternalKeyCtx)
    else if trailer_len > INTERNAL_KEY_TRAILER_BYTES then Err (Corruption InternalKeyCtx)
    else rbind (kind_from_byte (bs ! (length bs - 1))) (\<lambda>_.
      let sequence = decode_sequence (take 8 (drop trailer_start bs)) in
      if sequence > MAX_SEQUENCE_NUMBER then Err (Corruption InternalKeyCtx)
      else Ok \<lparr>ik_encoded = bs, ik_user_key = user_key\<rparr>))"

definition ik_sequence :: "internal_key \<Rightarrow> sequence_number" where
  "ik_sequence k =
    (let sequence_start = length (ik_encoded k) - INTERNAL_KEY_TRAILER_BYTES
     in decode_sequence (take 8 (drop sequence_start (ik_encoded k))))"

definition ik_kind :: "internal_key \<Rightarrow> value_kind" where
  "ik_kind k = expect (kind_from_byte (ik_encoded k ! (length (ik_encoded k) - 1)))"

definition ik_less :: "internal_key \<Rightarrow> internal_key \<Rightarrow> bool" where
  "ik_less a b = (ik_encoded a < ik_encoded b)"

text \<open>A key as the module's constructors build it: its bytes decode to itself.\<close>

definition wf_key :: "internal_key \<Rightarrow> bool" where
  "wf_key k = (ik_decode (ik_encoded k) = Ok k)"

instantiation value_kind :: linorder
begin

definition less_eq_value_kind :: "value_kind \<Rightarrow> value_kind \<Rightarrow> bool" where
  "less_eq_value_kind a b = (kind_byte a \<le> kind_byte b)"

definition less_value_kind :: "value_kind \<Rightarrow> value_kind \<Rightarrow> bool" where
  "less_value_kind a b = (kind_byte a < kind_byte b)"

instance
proof
  fix a b :: value_kind
  show "a \<le> b \<Longrightarrow> b \<le> a \<Longrightarrow> a = b"
    by (cases a; cases b) (auto simp: less_eq_value_kind_def)
qed (auto simp: less_eq_value_kind_def less_value_kind_def)

end

section \<open>Encoding and decoding\<close>

lemma kind_from_byte_byte [codec, simp]: "kind_from_byte (kind_byte k) = Ok k"
  by (cases k) (auto simp: kind_from_byte_def)

lemma kind_from_byte_Ok: "kind_from_byte b = Inr k \<longleftrightarrow> b = kind_byte k"
  by (cases k) (auto simp: kind_from_byte_def)

lemma kind_byte_inj [simp]: "kind_byte a = kind_byte b \<longleftrightarrow> a = b"
  by (cases a; cases b) auto

lemma decode_encode_user_key_loop:
  "decode_user_key_loop (encode_user_key u @ rest) i acc = Ok (acc @ u, i + length (encode_user_key u))"
  by (induction u arbitrary: i acc) (auto simp: USER_KEY_TERMINATOR_BYTES_def)

lemma decode_encode_user_key [codec]:
  "decode_user_key (encode_user_key u @ rest) = Ok (u, length (encode_user_key u))"
  by (simp add: decode_user_key_def decode_encode_user_key_loop)

lemma decode_user_key_loop_Ok:
  "decode_user_key_loop bs i acc = Inr (u, j) \<Longrightarrow>
    \<exists>v rest. u = acc @ v \<and> bs = encode_user_key v @ rest \<and> j = i + length (encode_user_key v)"
proof (induction bs i acc rule: decode_user_key_loop.induct)
  case (1 i acc)
  then show ?case by simp
next
  case (2 b rest i acc)
  show ?case
  proof (cases "b = 0")
    case False
    with 2 obtain v r where "u = acc @ b # v" "rest = encode_user_key v @ r"
      "j = i + 1 + length (encode_user_key v)" by auto
    with False show ?thesis by (intro exI [of _ "b # v"] exI [of _ r]) auto
  next
    case True
    with 2(3) obtain f r' where rest: "rest = f # r'" by (auto split: list.splits)
    show ?thesis
    proof (cases "f = 0")
      case True
      with \<open>b = 0\<close> rest 2(3) show ?thesis
        by (intro exI [of _ "[]"] exI [of _ r']) (auto simp: USER_KEY_TERMINATOR_BYTES_def)
    next
      case False
      with \<open>b = 0\<close> rest 2(3) have f: "f = 0xff" by (auto split: if_splits)
      with \<open>b = 0\<close> rest 2 obtain v r where "u = acc @ 0 # v" "r' = encode_user_key v @ r"
        "j = i + 2 + length (encode_user_key v)" by auto
      with \<open>b = 0\<close> f rest show ?thesis by (intro exI [of _ "0 # v"] exI [of _ r]) auto
    qed
  qed
qed

lemma decode_user_key_Ok:
  "decode_user_key bs = Inr (u, j) \<Longrightarrow>
    \<exists>rest. bs = encode_user_key u @ rest \<and> j = length (encode_user_key u)"
  using decode_user_key_loop_Ok [of bs 0 "[]" u j] by (auto simp: decode_user_key_def)

text \<open>The shape of a trailer: eight sequence bytes and the kind.\<close>

lemma ik_encoded_fields:
  assumes "ik_encoded k = encode_user_key u @ u64_to_be (NOT s) @ [kind_byte kd]"
  shows "ik_sequence k = s" and "ik_kind k = kd"
  using assms
  by (simp_all add: ik_sequence_def ik_kind_def INTERNAL_KEY_TRAILER_BYTES_def
      decode_sequence_def nth_append)

lemma ik_decode_encode:
  assumes "s \<le> MAX_SEQUENCE_NUMBER"
  shows "ik_decode (encode_user_key u @ u64_to_be (NOT s) @ [kind_byte kd]) =
    Ok \<lparr>ik_encoded = encode_user_key u @ u64_to_be (NOT s) @ [kind_byte kd], ik_user_key = u\<rparr>"
  using assms
  by (simp add: ik_decode_def decode_encode_user_key INTERNAL_KEY_TRAILER_BYTES_def
      decode_sequence_def nth_append)

lemma ik_decode_Ok:
  assumes "ik_decode bs = Inr k"
  obtains s kd where "s \<le> MAX_SEQUENCE_NUMBER"
    and "bs = encode_user_key (ik_user_key k) @ u64_to_be (NOT s) @ [kind_byte kd]"
    and "ik_encoded k = bs"
proof -
  from assms obtain u j kd where u: "decode_user_key bs = Inr (u, j)"
    and len: "length bs - j = 9" and kd: "kind_from_byte (bs ! (length bs - 1)) = Inr kd"
    and seq: "decode_sequence (take 8 (drop j bs)) \<le> MAX_SEQUENCE_NUMBER"
    and k: "k = \<lparr>ik_encoded = bs, ik_user_key = u\<rparr>"
    by (auto simp: ik_decode_def result_iffs Let_def INTERNAL_KEY_TRAILER_BYTES_def
        split: if_splits)
  from decode_user_key_Ok [OF u] obtain t where t: "bs = encode_user_key u @ t"
    and j: "j = length (encode_user_key u)" by blast
  with len have "length t = 9" by simp
  then have split: "t = take 8 t @ [t ! 8]"
    by (metis append_take_drop_id Cons_nth_drop_Suc drop_all eval_nat_numeral(3) le_refl
        lessI numeral_eq_Suc pred_numeral_simps(3))
  have last: "t ! 8 = kind_byte kd"
    using kd t \<open>length t = 9\<close> by (simp add: kind_from_byte_Ok nth_append)
  let ?s = "decode_sequence (take 8 t)"
  have "u64_to_be (NOT ?s) = take 8 t"
    using \<open>length t = 9\<close> by (simp add: decode_sequence_def u64_be_canonical)
  with split last t k have "bs = encode_user_key (ik_user_key k) @ u64_to_be (NOT ?s) @ [kind_byte kd]"
    by simp
  moreover have "?s \<le> MAX_SEQUENCE_NUMBER" using seq t j by simp
  ultimately show ?thesis using that k by simp
qed

lemma wf_key_iff:
  "wf_key k \<longleftrightarrow> (\<exists>s kd. s \<le> MAX_SEQUENCE_NUMBER \<and>
    ik_encoded k = encode_user_key (ik_user_key k) @ u64_to_be (NOT s) @ [kind_byte kd])"
proof
  assume "wf_key k"
  then show "\<exists>s kd. s \<le> MAX_SEQUENCE_NUMBER \<and>
    ik_encoded k = encode_user_key (ik_user_key k) @ u64_to_be (NOT s) @ [kind_byte kd]"
    unfolding wf_key_def by (elim ik_decode_Ok) blast
qed (auto simp: wf_key_def ik_decode_encode)

lemma wf_key_encoded:
  assumes "wf_key k"
  shows "ik_encoded k =
      encode_user_key (ik_user_key k) @ u64_to_be (NOT (ik_sequence k)) @ [kind_byte (ik_kind k)]"
    and "ik_sequence k \<le> MAX_SEQUENCE_NUMBER"
  using assms ik_encoded_fields unfolding wf_key_iff by metis+

lemma ik_try_new_Ok:
  "ik_try_new u s kd = Inr k \<Longrightarrow>
    wf_key k \<and> ik_user_key k = u \<and> ik_sequence k = s \<and> ik_kind k = kd \<and> s \<le> MAX_SEQUENCE_NUMBER"
  by (auto simp: ik_try_new_def wf_key_def ik_decode_encode ik_encoded_fields split: if_splits)

lemma ik_try_new_total: "s \<le> MAX_SEQUENCE_NUMBER \<Longrightarrow> \<exists>k. ik_try_new u s kd = Inr k"
  by (simp add: ik_try_new_def)

lemma wf_key_try_new:
  "wf_key k \<Longrightarrow> ik_try_new (ik_user_key k) (ik_sequence k) (ik_kind k) = Ok k"
  using wf_key_encoded [of k] by (simp add: ik_try_new_def)

lemma ik_decode_wf: "ik_decode bs = Inr k \<Longrightarrow> wf_key k \<and> ik_encoded k = bs"
  by (elim ik_decode_Ok) (auto simp: wf_key_iff)

section \<open>Order\<close>

lemma encode_user_key_less:
  "encode_user_key xs @ us < encode_user_key ys @ vs \<longleftrightarrow> xs < ys \<or> xs = ys \<and> us < vs"
proof (induction xs arbitrary: ys)
  case Nil
  then show ?case by (cases ys) (auto simp: word_gt_0)
next
  case (Cons x xs)
  show ?case
    by (cases ys) (auto simp: Cons.IH word_gt_0)
qed

lemma encode_user_key_eq:
  "encode_user_key xs @ us = encode_user_key ys @ vs \<longleftrightarrow> xs = ys \<and> us = vs"
  by (metis append_same_eq decode_encode_user_key old.sum.inject(2) prod.inject append_eq_append_conv)

lemma wf_key_less_iff:
  assumes "wf_key a" "wf_key b"
  shows "ik_encoded a < ik_encoded b \<longleftrightarrow>
    ik_user_key a < ik_user_key b \<or> ik_user_key a = ik_user_key b \<and>
      (ik_sequence b < ik_sequence a \<or> ik_sequence a = ik_sequence b \<and> ik_kind a < ik_kind b)"
  by (auto simp: wf_key_encoded [OF assms(1)] wf_key_encoded [OF assms(2)]
        encode_user_key_less less_append_same_length u64_be_less_iff u64_not_less_iff
        less_value_kind_def)

lemma wf_key_inject: "wf_key a \<Longrightarrow> wf_key b \<Longrightarrow> ik_encoded a = ik_encoded b \<longleftrightarrow> a = b"
  unfolding wf_key_def by (metis sum.inject(2))

lemma wf_key_eqI:
  "wf_key a \<Longrightarrow> wf_key b \<Longrightarrow> ik_user_key a = ik_user_key b \<Longrightarrow> ik_sequence a = ik_sequence b \<Longrightarrow>
    ik_kind a = ik_kind b \<Longrightarrow> a = b"
  by (metis wf_key_try_new sum.inject(2))

section \<open>Properties\<close>

text \<open>
  C24. Decoding and encoding are inverse: \<open>InternalKey::decode\<close> accepts a byte string
  exactly when it is the encoding \<open>try_new\<close> gives to the decoded user key, sequence number
  and kind, and then returns that very key.
\<close>

theorem ik_decode_iff:
  "ik_decode bs = Ok k \<longleftrightarrow>
    ik_encoded k = bs \<and> ik_try_new (ik_user_key k) (ik_sequence k) (ik_kind k) = Ok k"
  by (metis ik_decode_wf ik_try_new_Ok wf_key_def wf_key_try_new)

text \<open>
  C23. Plain byte comparison of encodings is the order of internal keys: user keys ascend
  (prefixes first, zero bytes included), sequence numbers of one user key descend, and the kind
  breaks the remaining ties.
\<close>

theorem ik_order:
  assumes "ik_try_new u s kd = Ok a" "ik_try_new u' s' kd' = Ok b"
  shows "ik_less a b \<longleftrightarrow> u < u' \<or> u = u' \<and> (s' < s \<or> s = s' \<and> kd < kd')"
  using ik_try_new_Ok [OF assms(1)] ik_try_new_Ok [OF assms(2)] wf_key_less_iff [of a b]
  by (auto simp: ik_less_def)

theorem ik_order_witness:
  "ik_less (expect (ik_try_new [97] 7 Value)) (expect (ik_try_new [97, 0] 9 Deletion)) \<longleftrightarrow>
    [97] < [97 :: u8, 0] \<or> [97] = [97 :: u8, 0] \<and> ((9 :: u64) < 7 \<or> (7 :: u64) = 9 \<and> Value < Deletion)"
proof -
  have "ik_try_new [97] 7 Value = Ok (expect (ik_try_new [97] 7 Value))"
    and "ik_try_new [97, 0] 9 Deletion = Ok (expect (ik_try_new [97, 0] 9 Deletion))"
    by (simp_all add: ik_try_new_def MAX_SEQUENCE_NUMBER_def u64_max_def)
  then show ?thesis by (rule ik_order)
qed

end
