(* ===== verification/Snapshot_Registry.thy ===== *)
theory Snapshot_Registry
  imports Internal_Key "HOL-Library.Multiset"
begin

text \<open>
  The registry of sequence numbers that open snapshots protect (\<open>snapshot.rs\<close>): a sorted map
  from sequence numbers to guard counts.  It refines a multiset of guards, and
  \<open>oldest_active\<close> is the minimum of that multiset.
\<close>

section \<open>Definitions\<close>

type_synonym snapshot_counts = "(sequence_number \<times> usize) list"

definition sr_acquire :: "snapshot_counts \<Rightarrow> sequence_number \<Rightarrow> snapshot_counts result" where
  "sr_acquire active sequence =
    (let count = (case bt_get (\<lambda>s. s) sequence active of None \<Rightarrow> 0 | Some n \<Rightarrow> n) in
     rbind (ok_or (checked_add_usize count 1) Panic) (\<lambda>count. Ok (bt_insert (\<lambda>s. s) sequence count active)))"

definition sr_oldest_active :: "snapshot_counts \<Rightarrow> sequence_number option" where
  "sr_oldest_active active = (case active of [] \<Rightarrow> None | (key, _) # _ \<Rightarrow> Some key)"

text \<open>Dropping a guard; the vacant branch holds a debug assertion and changes nothing.\<close>

definition sr_drop :: "snapshot_counts \<Rightarrow> sequence_number \<Rightarrow> snapshot_counts" where
  "sr_drop active sequence =
    (case bt_get (\<lambda>s. s) sequence active of
       Some n \<Rightarrow> if n > 1 then bt_insert (\<lambda>s. s) sequence (n - 1) active else bt_remove (\<lambda>s. s) sequence active
     | None \<Rightarrow> active)"

section \<open>The multiset of guards\<close>

definition sr_inv :: "snapshot_counts \<Rightarrow> bool" where
  "sr_inv active \<longleftrightarrow> bt_sorted (\<lambda>s. s) active \<and> (\<forall>e \<in> set active. 0 < snd e)"

definition sr_guards :: "snapshot_counts \<Rightarrow> sequence_number multiset" where
  "sr_guards active = sum_list (map (\<lambda>(s, n). replicate_mset n s) active)"

lemma sr_guards_simps [simp]:
  "sr_guards [] = {#}" "sr_guards ((s, n) # m) = replicate_mset n s + sr_guards m"
  by (simp_all add: sr_guards_def)

lemma sr_guards_count:
  "bt_sorted (\<lambda>s. s) m \<Longrightarrow> count (sr_guards m) s = (case bt_get (\<lambda>s. s) s m of None \<Rightarrow> 0 | Some n \<Rightarrow> n)"
proof (induction m)
  case (Cons e m)
  obtain t n where e: "e = (t, n)" by force
  have "bt_get (\<lambda>s. s) t m = None" using Cons.prems e by (auto simp: bt_get_none_iff)
  with Cons e show ?case by (cases "s = t") simp_all
qed simp

lemma sr_guards_set: "(\<forall>e \<in> set m. 0 < snd e) \<Longrightarrow> set_mset (sr_guards m) = fst ` set m"
  by (induction m) (force split: if_splits)+

lemma sr_inv_insert: "sr_inv m \<Longrightarrow> 0 < n \<Longrightarrow> sr_inv (bt_insert (\<lambda>s. s) s n m)"
proof -
  assume m: "sr_inv m" and n: "0 < n"
  have "\<forall>e \<in> set (bt_insert (\<lambda>s. s) s n m). 0 < snd e"
    using m n by (induction m) (auto simp: sr_inv_def)
  with m show ?thesis by (simp add: sr_inv_def)
qed

lemma sr_guards_eqI:
  assumes "bt_sorted (\<lambda>s. s) m" "\<And>s. (case bt_get (\<lambda>s. s) s m of None \<Rightarrow> 0 | Some n \<Rightarrow> n) = count M s"
  shows "sr_guards m = M"
  using assms by (auto intro!: multiset_eqI simp: sr_guards_count)

lemma sr_acquire_Ok:
  assumes "sr_inv m" "sr_acquire m s = Inr m'"
  shows "sr_inv m' \<and> sr_guards m' = add_mset s (sr_guards m)"
proof -
  let ?n = "case bt_get (\<lambda>s. s) s m of None \<Rightarrow> 0 | Some n \<Rightarrow> n"
  from assms(2) have m': "m' = bt_insert (\<lambda>s. s) s (?n + 1) m"
    by (auto simp: sr_acquire_def Let_def result_iffs checked_add_usize_def split: if_splits)
  have "sr_guards m' = add_mset s (sr_guards m)"
    using assms(1) by (intro sr_guards_eqI) (auto simp: m' sr_inv_def bt_get_bt_insert sr_guards_count)
  with m' assms(1) show ?thesis by (simp add: sr_inv_insert)
qed

lemma sr_drop_guard:
  assumes "sr_inv m" "s \<in># sr_guards m"
  shows "sr_inv (sr_drop m s) \<and> sr_guards (sr_drop m s) = sr_guards m - {#s#}"
proof -
  from assms have "0 < count (sr_guards m) s" by simp
  with assms(1) obtain n where n: "bt_get (\<lambda>s. s) s m = Some n" "0 < n"
    by (auto simp: sr_inv_def sr_guards_count split: option.splits)
  have "sr_guards (sr_drop m s) = sr_guards m - {#s#}"
    using assms(1) n
    by (intro sr_guards_eqI)
      (auto simp: sr_drop_def sr_inv_def bt_get_bt_insert bt_get_bt_remove sr_guards_count split: option.splits)
  moreover have "sr_inv (bt_remove (\<lambda>s. s) s m)"
    using assms(1) bt_remove_subset [of "\<lambda>s. s" s m] by (auto simp: sr_inv_def)
  ultimately show ?thesis using assms(1) n by (auto simp: sr_drop_def intro: sr_inv_insert)
qed

lemma sr_oldest_Min:
  assumes "sr_inv m"
  shows "sr_oldest_active m = (if sr_guards m = {#} then None else Some (Min (set_mset (sr_guards m))))"
proof (cases m)
  case Nil
  then show ?thesis by (simp add: sr_oldest_active_def)
next
  case (Cons e m')
  obtain s n where e: "e = (s, n)" by force
  have set: "set_mset (sr_guards m) = fst ` set m" using assms by (intro sr_guards_set) (simp add: sr_inv_def)
  have "Min (fst ` set m) = s"
    using assms Cons e by (intro Min_eqI) (auto simp: sr_inv_def dest: less_imp_le)
  moreover have "sr_guards m \<noteq> {#}" using set Cons by auto
  ultimately show ?thesis using Cons e set by (simp add: sr_oldest_active_def)
qed

text \<open>Registries as the engine makes them: guards are acquired and held guards are dropped.\<close>

inductive sr_reachable :: "snapshot_counts \<Rightarrow> sequence_number multiset \<Rightarrow> bool" where
  sr_default: "sr_reachable [] {#}"
| sr_step_acquire: "sr_reachable m M \<Longrightarrow> sr_acquire m s = Inr m' \<Longrightarrow> sr_reachable m' (add_mset s M)"
| sr_step_drop: "sr_reachable m M \<Longrightarrow> s \<in># M \<Longrightarrow> sr_reachable (sr_drop m s) (M - {#s#})"

lemma sr_reachable_inv: "sr_reachable m M \<Longrightarrow> sr_inv m \<and> sr_guards m = M"
proof (induction rule: sr_reachable.induct)
  case sr_default
  then show ?case by (simp add: sr_inv_def)
next
  case (sr_step_acquire m M s m')
  then show ?case using sr_acquire_Ok by blast
next
  case (sr_step_drop m M s)
  then show ?case using sr_drop_guard by blast
qed

section \<open>Properties\<close>

text \<open>
  C30. The registry reports the oldest protected sequence: after any interleaving of acquired and
  dropped guards, \<open>oldest_active\<close> is the least sequence number for which a guard is still
  held, and \<open>None\<close> exactly when none is.
\<close>

theorem oldest_active_is_least_guard:
  assumes "sr_reachable registry guards"
  shows "sr_oldest_active registry = (if guards = {#} then None else Some (Min (set_mset guards)))"
  using sr_reachable_inv [OF assms] sr_oldest_Min by blast

theorem oldest_active_is_least_guard_witness:
  "sr_oldest_active (sr_drop (expect (sr_acquire (expect (sr_acquire [] 9)) 4)) 9) =
    (if {#4 :: sequence_number#} = {#} then None else Some (Min (set_mset {#4 :: sequence_number#})))"
proof (rule oldest_active_is_least_guard)
  have "sr_reachable [(9, 1)] {#9#}"
    by (rule sr_step_acquire [OF sr_default, of 9, simplified])
      (simp add: sr_acquire_def checked_add_usize_def usize_max_def)
  then have "sr_reachable [(4, 1), (9, 1)] {#4, 9#}"
    by (rule sr_step_acquire) (simp add: sr_acquire_def checked_add_usize_def usize_max_def)
  then have "sr_reachable (sr_drop [(4, 1), (9, 1)] 9) ({#4, 9#} - {#9#})"
    by (rule sr_step_drop) simp
  then show "sr_reachable (sr_drop (expect (sr_acquire (expect (sr_acquire [] 9)) 4)) 9) {#4#}"
    by (simp add: sr_acquire_def checked_add_usize_def usize_max_def)
qed

end
