(* ===== verification/Durable_Fs.thy ===== *)
theory Durable_Fs
  imports Meteor_Prelude
begin

text \<open>
  The durable-filesystem layer (\<open>fs.rs\<close>): the operations of the trait \<open>DurableFs\<close> on
  the files the operating system shows, and the crash image that \<open>FaultyFs\<close> keeps beside
  them.  The image separates what a process sees (\<open>volatile\<close>), what a file synchronization
  has made stable (\<open>synced\<close>) and what survives a crash because its directory entry is stable
  too (\<open>durable\<close>).  Every mutating operation is numbered; the one whose number is
  \<open>fail_at\<close> does not happen, and the durable image replaces the files.

  The files of the operating system are a map from paths to contents.  The standard-library calls
  behave as documented: exclusive creation fails on an existing name, opening, renaming, removing
  and truncating fail on a missing one.  Directories and symbolic links have no counterpart.
\<close>

section \<open>State\<close>

datatype fault_operation =
    WriteOp | FileSync | SyncFile | AtomicReplace | AtomicInstall | DirectorySync | Truncate | Remove

record fault_event =
  fe_index :: nat
  fe_operation :: fault_operation
  fe_path :: path

record crash_image =
  ci_volatile :: "path \<rightharpoonup> bytes"
  ci_synced :: "path \<rightharpoonup> bytes"
  ci_durable :: "path \<rightharpoonup> bytes"
  ci_tracked :: "path set"

record fs =
  os_files :: "path \<rightharpoonup> bytes"
  fs_next_index :: nat
  fs_events :: "fault_event list"
  fs_fail_at :: "nat option"
  fs_image :: crash_image

type_synonym 'a fs_op = "fs \<Rightarrow> (io_kind + 'a) \<times> fs"

definition path_parent :: "path \<Rightarrow> path option" where
  "path_parent p = (if p = [] then None else Some (butlast p))"

definition fs_recording :: "(path \<rightharpoonup> bytes) \<Rightarrow> fs" where
  "fs_recording files = \<lparr>os_files = files, fs_next_index = 0, fs_events = [], fs_fail_at = None,
    fs_image = \<lparr>ci_volatile = Map.empty, ci_synced = Map.empty, ci_durable = Map.empty, ci_tracked = {}\<rparr>\<rparr>"

definition fs_failing_at :: "(path \<rightharpoonup> bytes) \<Rightarrow> nat \<Rightarrow> fs" where
  "fs_failing_at files n = (fs_recording files)\<lparr>fs_fail_at := Some n\<rparr>"

section \<open>The crash image\<close>

definition restore_durable_state :: "fs \<Rightarrow> fs" where
  "restore_durable_state s =
    (let i = fs_image s in
     s\<lparr>os_files := (\<lambda>p. if p \<in> ci_tracked i \<or> ci_durable i p \<noteq> None then ci_durable i p else os_files s p),
       fs_image := i\<lparr>ci_volatile := ci_durable i, ci_synced := ci_durable i\<rparr>\<rparr>)"

definition observe :: "fault_operation \<Rightarrow> path \<Rightarrow> unit fs_op" where
  "observe operation path s =
    (let index = fs_next_index s + 1;
         s = s\<lparr>fs_next_index := index,
               fs_events := fs_events s @ [\<lparr>fe_index = index, fe_operation = operation, fe_path = path\<rparr>]\<rparr>
     in if fs_fail_at s = Some index then (Inl OtherIo, restore_durable_state s) else (Inr (), s))"

definition is_tracked :: "fs \<Rightarrow> path \<Rightarrow> bool" where
  "is_tracked s path \<longleftrightarrow> path \<in> ci_tracked (fs_image s)"

definition seed_durable_file :: "path \<Rightarrow> bytes \<Rightarrow> fs \<Rightarrow> fs" where
  "seed_durable_file path bs s =
    (let i = fs_image s in
     if path \<in> ci_tracked i then s
     else s\<lparr>fs_image := \<lparr>ci_volatile = (ci_volatile i)(path \<mapsto> bs), ci_synced = (ci_synced i)(path \<mapsto> bs),
       ci_durable = (ci_durable i)(path \<mapsto> bs), ci_tracked = insert path (ci_tracked i)\<rparr>\<rparr>)"

definition track_new_file :: "path \<Rightarrow> fs \<Rightarrow> fs" where
  "track_new_file path s =
    (let i = fs_image s in
     s\<lparr>fs_image := i\<lparr>ci_tracked := insert path (ci_tracked i),
       ci_volatile := (ci_volatile i)(path \<mapsto> []), ci_synced := (ci_synced i)(path := None)\<rparr>\<rparr>)"

definition record_write :: "path \<Rightarrow> bytes \<Rightarrow> fs \<Rightarrow> fs" where
  "record_write path bs s =
    (let i = fs_image s; old = (case ci_volatile i path of None \<Rightarrow> [] | Some c \<Rightarrow> c) in
     s\<lparr>fs_image := i\<lparr>ci_tracked := insert path (ci_tracked i),
       ci_volatile := (ci_volatile i)(path \<mapsto> old @ bs)\<rparr>\<rparr>)"

definition record_file_sync :: "path \<Rightarrow> fs \<Rightarrow> fs" where
  "record_file_sync path s =
    (let i = fs_image s in
     case ci_volatile i path of
       None \<Rightarrow> s
     | Some bs \<Rightarrow>
         s\<lparr>fs_image := i\<lparr>ci_synced := (ci_synced i)(path \<mapsto> bs),
           ci_durable := (if ci_durable i path \<noteq> None then (ci_durable i)(path \<mapsto> bs) else ci_durable i)\<rparr>\<rparr>)"

definition move_entry :: "path \<Rightarrow> path \<Rightarrow> (path \<rightharpoonup> bytes) \<Rightarrow> (path \<rightharpoonup> bytes)" where
  "move_entry source destination files =
    (case files source of
       None \<Rightarrow> files
     | Some bs \<Rightarrow> (files(source := None))(destination \<mapsto> bs))"

definition record_rename :: "path \<Rightarrow> path \<Rightarrow> fs \<Rightarrow> fs" where
  "record_rename source destination s =
    (let i = fs_image s in
     s\<lparr>fs_image := i\<lparr>ci_tracked := insert destination (insert source (ci_tracked i)),
       ci_volatile := move_entry source destination (ci_volatile i),
       ci_synced := move_entry source destination (ci_synced i)\<rparr>\<rparr>)"

definition record_directory_sync :: "path \<Rightarrow> fs \<Rightarrow> fs" where
  "record_directory_sync directory s =
    (let i = fs_image s in
     s\<lparr>fs_image := i\<lparr>ci_durable := (\<lambda>p.
       if p \<in> ci_tracked i \<and> path_parent p = Some directory then
         (if ci_volatile i p \<noteq> None
          then Some (case ci_synced i p of Some bs \<Rightarrow> bs
                     | None \<Rightarrow> (case ci_durable i p of Some bs \<Rightarrow> bs | None \<Rightarrow> []))
          else None)
       else ci_durable i p)\<rparr>\<rparr>)"

definition record_truncate :: "path \<Rightarrow> unit fs_op" where
  "record_truncate path s =
    (case os_files s path of
       None \<Rightarrow> (Inl NotFound, s)
     | Some bs \<Rightarrow>
         (Inr (), let i = fs_image s in
           s\<lparr>fs_image := i\<lparr>ci_tracked := insert path (ci_tracked i),
             ci_volatile := (ci_volatile i)(path \<mapsto> bs)\<rparr>\<rparr>))"

definition record_remove :: "path \<Rightarrow> fs \<Rightarrow> fs" where
  "record_remove path s =
    (let i = fs_image s in
     s\<lparr>fs_image := i\<lparr>ci_tracked := insert path (ci_tracked i),
       ci_volatile := (ci_volatile i)(path := None), ci_synced := (ci_synced i)(path := None)\<rparr>\<rparr>)"

definition seed_existing_file :: "path \<Rightarrow> fs \<Rightarrow> bool \<times> fs" where
  "seed_existing_file path s =
    (case os_files s path of
       None \<Rightarrow> (False, s)
     | Some bs \<Rightarrow> (True, if \<not> is_tracked s path then seed_durable_file path bs s else s))"

section \<open>Operations\<close>

text \<open>A handle of an open file is its path.\<close>

definition fs_crash :: "fs \<Rightarrow> fs" where
  "fs_crash s = restore_durable_state s"

definition fs_entry_exists :: "path \<Rightarrow> fs \<Rightarrow> bool" where
  "fs_entry_exists path s \<longleftrightarrow> os_files s path \<noteq> None"

definition fs_create :: "path \<Rightarrow> path fs_op" where
  "fs_create path s =
    (if os_files s path \<noteq> None then (Inl AlreadyExists, s)
     else (Inr path, track_new_file path (s\<lparr>os_files := (os_files s)(path \<mapsto> [])\<rparr>)))"

definition fs_append :: "path \<Rightarrow> path fs_op" where
  "fs_append path s =
    (let (existed, s) = seed_existing_file path s in
     if existed then (Inr path, s)
     else (Inr path, track_new_file path (s\<lparr>os_files := (os_files s)(path \<mapsto> [])\<rparr>)))"

definition fs_append_existing :: "path \<Rightarrow> path fs_op" where
  "fs_append_existing path s =
    (let (existed, s) = seed_existing_file path s in
     if existed then (Inr path, s) else (Inl NotFound, s))"

definition fs_write_all :: "path \<Rightarrow> bytes \<Rightarrow> unit fs_op" where
  "fs_write_all path bs s =
    (case observe WriteOp path s of
       (Inl e, s) \<Rightarrow> (Inl e, s)
     | (Inr _, s) \<Rightarrow>
         (Inr (), record_write path bs
           (case os_files s path of
              None \<Rightarrow> s
            | Some c \<Rightarrow> s\<lparr>os_files := (os_files s)(path \<mapsto> c @ bs)\<rparr>)))"

definition fs_sync_all :: "path \<Rightarrow> unit fs_op" where
  "fs_sync_all path s =
    (case observe FileSync path s of
       (Inl e, s) \<Rightarrow> (Inl e, s)
     | (Inr _, s) \<Rightarrow> (Inr (), record_file_sync path s))"

text \<open>Opening for reading gives the contents; the reader sees the file as of the open.\<close>

definition fs_open_read :: "path \<Rightarrow> bytes fs_op" where
  "fs_open_read path s =
    (let (existed, s) = seed_existing_file path s in
     case os_files s path of None \<Rightarrow> (Inl NotFound, s) | Some bs \<Rightarrow> (Inr bs, s))"

definition fs_read_file :: "path \<Rightarrow> bytes fs_op" where
  "fs_read_file path s =
    (case os_files s path of
       None \<Rightarrow> (Inl NotFound, s)
     | Some bs \<Rightarrow> (Inr bs, seed_durable_file path bs s))"

definition fs_sync_file :: "path \<Rightarrow> unit fs_op" where
  "fs_sync_file path s =
    (let (existed, s) = seed_existing_file path s in
     case observe SyncFile path s of
       (Inl e, s) \<Rightarrow> (Inl e, s)
     | (Inr _, s) \<Rightarrow>
         (if os_files s path = None then (Inl NotFound, s)
          else case record_truncate path s of
                 (Inl e, s) \<Rightarrow> (Inl e, s)
               | (Inr _, s) \<Rightarrow> (Inr (), record_file_sync path s)))"

text \<open>\<open>set_len\<close> extends a shorter file with zero bytes.\<close>

definition fs_truncate_file :: "path \<Rightarrow> nat \<Rightarrow> unit fs_op" where
  "fs_truncate_file path n s =
    (let (existed, s) = seed_existing_file path s in
     case observe Truncate path s of
       (Inl e, s) \<Rightarrow> (Inl e, s)
     | (Inr _, s) \<Rightarrow>
         (case os_files s path of
            None \<Rightarrow> (Inl NotFound, s)
          | Some c \<Rightarrow>
              record_truncate path
                (s\<lparr>os_files := (os_files s)(path \<mapsto> take n c @ replicate (n - length c) 0)\<rparr>)))"

definition fs_sync_directory :: "path \<Rightarrow> unit fs_op" where
  "fs_sync_directory path s =
    (case observe DirectorySync path s of
       (Inl e, s) \<Rightarrow> (Inl e, s)
     | (Inr _, s) \<Rightarrow> (Inr (), record_directory_sync path s))"

definition fs_atomic_replace :: "path \<Rightarrow> path \<Rightarrow> unit fs_op" where
  "fs_atomic_replace source destination s =
    (let (_, s) = seed_existing_file source s; (_, s) = seed_existing_file destination s in
     case observe AtomicReplace destination s of
       (Inl e, s) \<Rightarrow> (Inl e, s)
     | (Inr _, s) \<Rightarrow>
         (if os_files s source = None then (Inl NotFound, s)
          else (Inr (), record_rename source destination
                  (s\<lparr>os_files := move_entry source destination (os_files s)\<rparr>))))"

definition fs_atomic_install :: "path \<Rightarrow> path \<Rightarrow> unit fs_op" where
  "fs_atomic_install source destination s =
    (let (_, s) = seed_existing_file source s; (_, s) = seed_existing_file destination s in
     case observe AtomicInstall destination s of
       (Inl e, s) \<Rightarrow> (Inl e, s)
     | (Inr _, s) \<Rightarrow>
         (if os_files s source = None then (Inl NotFound, s)
          else if os_files s destination \<noteq> None then (Inl AlreadyExists, s)
          else (Inr (), record_rename source destination
                  (s\<lparr>os_files := move_entry source destination (os_files s)\<rparr>))))"

definition fs_remove_file :: "path \<Rightarrow> unit fs_op" where
  "fs_remove_file path s =
    (let (_, s) = seed_existing_file path s in
     case observe Remove path s of
       (Inl e, s) \<Rightarrow> (Inl e, s)
     | (Inr _, s) \<Rightarrow>
         (if os_files s path = None then (Inl NotFound, s)
          else (Inr (), record_remove path (s\<lparr>os_files := (os_files s)(path := None)\<rparr>))))"

lemmas fs_image_defs = seed_durable_file_def track_new_file_def record_write_def
  record_file_sync_def record_rename_def record_directory_sync_def record_truncate_def
  record_remove_def restore_durable_state_def seed_existing_file_def is_tracked_def

lemmas fs_op_defs = fs_crash_def fs_create_def fs_append_def fs_append_existing_def fs_write_all_def
  fs_sync_all_def fs_open_read_def fs_read_file_def fs_sync_file_def fs_truncate_file_def
  fs_sync_directory_def fs_atomic_replace_def fs_atomic_install_def fs_remove_file_def

section \<open>The image mirrors the files\<close>

text \<open>
  The invariant of \<open>FaultyFs\<close>: for tracked paths the volatile image is what the operating
  system shows, and nothing is recorded about other paths.
\<close>

definition fs_mirror :: "fs \<Rightarrow> bool" where
  "fs_mirror s \<longleftrightarrow>
    (\<forall>p. (p \<in> ci_tracked (fs_image s) \<longrightarrow> os_files s p = ci_volatile (fs_image s) p) \<and>
         (p \<notin> ci_tracked (fs_image s) \<longrightarrow> ci_volatile (fs_image s) p = None \<and>
           ci_synced (fs_image s) p = None \<and> ci_durable (fs_image s) p = None))"

lemma fs_mirror_restore [intro]: "fs_mirror s \<Longrightarrow> fs_mirror (restore_durable_state s)"
  by (auto simp: fs_mirror_def restore_durable_state_def Let_def)

lemma fs_mirror_observe: "fs_mirror s \<Longrightarrow> observe op p s = (r, s') \<Longrightarrow> fs_mirror s'"
proof -
  assume m: "fs_mirror s" and o: "observe op p s = (r, s')"
  have "fs_mirror (s\<lparr>fs_next_index := n, fs_events := ev\<rparr>)" for n ev
    using m by (simp add: fs_mirror_def)
  with o show "fs_mirror s'" by (auto simp: observe_def Let_def split: if_splits)
qed

lemma observe_Inr:
  "observe op p s = (Inr u, s') \<Longrightarrow> os_files s' = os_files s \<and> fs_image s' = fs_image s"
  by (auto simp: observe_def Let_def split: if_splits)

lemma observe_Inl: "observe op p s = (Inl e, s') \<Longrightarrow>
    os_files s' = os_files (restore_durable_state s) \<and> fs_image s' = fs_image (restore_durable_state s)"
  by (auto simp: observe_def restore_durable_state_def Let_def split: if_splits)

lemma fs_mirror_seed: "fs_mirror s \<Longrightarrow> fs_mirror (snd (seed_existing_file p s))"
  by (auto simp: fs_mirror_def fs_image_defs Let_def split: option.splits)

lemma seed_existing_os [simp]: "os_files (snd (seed_existing_file p s)) = os_files s"
  by (auto simp: fs_image_defs Let_def split: option.splits)

lemma seed_existing_tracked:
  "p \<in> ci_tracked (fs_image (snd (seed_existing_file p s))) \<or> os_files s p = None"
  by (auto simp: fs_image_defs Let_def split: option.splits)

lemma seed_existing_tracked_mono:
  "q \<in> ci_tracked (fs_image s) \<Longrightarrow> q \<in> ci_tracked (fs_image (snd (seed_existing_file p s)))"
  by (auto simp: fs_image_defs Let_def split: option.splits)

lemma fs_mirror_eq:
  "fs_mirror s \<Longrightarrow> p \<in> ci_tracked (fs_image s) \<or> os_files s p = None \<Longrightarrow>
    os_files s p = ci_volatile (fs_image s) p"
  by (metis fs_mirror_def)

text \<open>
  Every operation a database can perform through \<open>FaultyFs\<close>.  Handles come from the opening
  operations, so their paths are tracked, and a handle is written to only while its name exists.
\<close>

inductive fs_step :: "fs \<Rightarrow> fs \<Rightarrow> bool" where
  step_create: "fs_create p s = (r, s') \<Longrightarrow> fs_step s s'"
| step_append: "fs_append p s = (r, s') \<Longrightarrow> fs_step s s'"
| step_append_existing: "fs_append_existing p s = (r, s') \<Longrightarrow> fs_step s s'"
| step_write: "is_tracked s p \<Longrightarrow> fs_entry_exists p s \<Longrightarrow> fs_write_all p bs s = (r, s') \<Longrightarrow> fs_step s s'"
| step_sync: "is_tracked s p \<Longrightarrow> fs_sync_all p s = (r, s') \<Longrightarrow> fs_step s s'"
| step_open: "fs_open_read p s = (r, s') \<Longrightarrow> fs_step s s'"
| step_read: "fs_read_file p s = (r, s') \<Longrightarrow> fs_step s s'"
| step_sync_file: "fs_sync_file p s = (r, s') \<Longrightarrow> fs_step s s'"
| step_truncate: "fs_truncate_file p n s = (r, s') \<Longrightarrow> fs_step s s'"
| step_sync_directory: "fs_sync_directory d s = (r, s') \<Longrightarrow> fs_step s s'"
| step_replace: "fs_atomic_replace a b s = (r, s') \<Longrightarrow> fs_step s s'"
| step_install: "fs_atomic_install a b s = (r, s') \<Longrightarrow> fs_step s s'"
| step_remove: "fs_remove_file p s = (r, s') \<Longrightarrow> fs_step s s'"
| step_crash: "fs_step s (fs_crash s)"

lemma fs_mirror_os_image:
  "os_files s' = os_files s \<Longrightarrow> fs_image s' = fs_image s \<Longrightarrow> fs_mirror s' = fs_mirror s"
  by (simp add: fs_mirror_def)

lemma fs_mirror_create: "fs_mirror s \<Longrightarrow> fs_create p s = (r, s') \<Longrightarrow> fs_mirror s'"
  by (auto simp: fs_mirror_def fs_create_def fs_image_defs Let_def split: if_splits)

lemma fs_mirror_append: "fs_mirror s \<Longrightarrow> fs_append p s = (r, s') \<Longrightarrow> fs_mirror s'"
  by (auto simp: fs_mirror_def fs_append_def fs_image_defs Let_def split: if_splits option.splits)

lemma fs_mirror_append_existing: "fs_mirror s \<Longrightarrow> fs_append_existing p s = (r, s') \<Longrightarrow> fs_mirror s'"
  by (auto simp: fs_mirror_def fs_append_existing_def fs_image_defs Let_def split: if_splits option.splits)

lemma fs_mirror_write:
  assumes "fs_mirror s" "is_tracked s p" "fs_entry_exists p s" "fs_write_all p bs s = (r, s')"
  shows "fs_mirror s'"
proof (cases "observe WriteOp p s")
  case (Pair r1 s1)
  with assms(1) have s1: "fs_mirror s1" by (rule fs_mirror_observe)
  show ?thesis
  proof (cases r1)
    case (Inl e)
    with Pair s1 assms(4) show ?thesis by (simp add: fs_write_all_def)
  next
    case (Inr u)
    then have "p \<in> ci_tracked (fs_image s1)" "os_files s1 p \<noteq> None"
      using Pair assms(2,3) observe_Inr by (fastforce simp: is_tracked_def fs_entry_exists_def)+
    with Pair Inr s1 assms(4) show ?thesis
      by (auto simp: fs_write_all_def fs_mirror_def record_write_def Let_def split: option.splits)
  qed
qed

lemma fs_mirror_record:
  "fs_mirror s \<Longrightarrow> fs_mirror (record_file_sync p s)"
  "fs_mirror s \<Longrightarrow> fs_mirror (record_directory_sync d s)"
  "fs_mirror s \<Longrightarrow> record_truncate p s = (r, s') \<Longrightarrow> fs_mirror s'"
  by (auto simp: fs_mirror_def fs_image_defs Let_def split: option.splits) (metis option.distinct(1))+

lemma fs_mirror_sync: "fs_mirror s \<Longrightarrow> fs_sync_all p s = (r, s') \<Longrightarrow> fs_mirror s'"
  by (auto simp: fs_sync_all_def split: prod.splits sum.splits dest: fs_mirror_observe intro: fs_mirror_record)

lemma fs_mirror_sync_directory: "fs_mirror s \<Longrightarrow> fs_sync_directory p s = (r, s') \<Longrightarrow> fs_mirror s'"
  by (auto simp: fs_sync_directory_def split: prod.splits sum.splits
      dest: fs_mirror_observe intro: fs_mirror_record)

lemma fs_mirror_sync_file: "fs_mirror s \<Longrightarrow> fs_sync_file p s = (r, s') \<Longrightarrow> fs_mirror s'"
  using fs_mirror_seed [of s p]
  by (auto simp: fs_sync_file_def split: prod.splits sum.splits if_splits
      dest: fs_mirror_observe intro: fs_mirror_record)

lemma fs_mirror_open_read: "fs_mirror s \<Longrightarrow> fs_open_read p s = (r, s') \<Longrightarrow> fs_mirror s'"
  using fs_mirror_seed [of s p] by (auto simp: fs_open_read_def split: prod.splits option.splits)

lemma fs_mirror_read_file: "fs_mirror s \<Longrightarrow> fs_read_file p s = (r, s') \<Longrightarrow> fs_mirror s'"
  by (auto simp: fs_mirror_def fs_read_file_def seed_durable_file_def Let_def split: if_splits option.splits)

text \<open>After seeding and a successful observation the named paths are mirrored whether tracked or not.\<close>

lemma observed_seed:
  assumes "fs_mirror s" "observe op q (snd (seed_existing_file p s)) = (Inr u, s')"
  shows "fs_mirror s'" "os_files s' = os_files s" "os_files s p = ci_volatile (fs_image s') p"
proof -
  let ?s = "snd (seed_existing_file p s)"
  have m: "fs_mirror ?s" using assms(1) by (rule fs_mirror_seed)
  from observe_Inr [OF assms(2)] show "os_files s' = os_files s" by simp
  from m assms(2) show "fs_mirror s'" by (rule fs_mirror_observe)
  show "os_files s p = ci_volatile (fs_image s') p"
    using fs_mirror_eq [OF m, of p] seed_existing_tracked [of p s] observe_Inr [OF assms(2)] by simp
qed

lemma fs_mirror_truncate: "fs_mirror s \<Longrightarrow> fs_truncate_file p n s = (r, s') \<Longrightarrow> fs_mirror s'"
proof -
  assume s: "fs_mirror s" and t: "fs_truncate_file p n s = (r, s')"
  obtain r1 s1 where o: "observe Truncate p (snd (seed_existing_file p s)) = (r1, s1)" by force
  have s1: "fs_mirror s1" using fs_mirror_observe [OF fs_mirror_seed [OF s] o] .
  show "fs_mirror s'"
  proof (cases r1)
    case (Inl e)
    with t o s1 show ?thesis by (auto simp: fs_truncate_file_def split: prod.splits)
  next
    case (Inr u)
    with t o s1 show ?thesis
      by (auto simp: fs_truncate_file_def fs_mirror_def record_truncate_def Let_def
          split: prod.splits option.splits)
  qed
qed

lemma fs_mirror_remove: "fs_mirror s \<Longrightarrow> fs_remove_file p s = (r, s') \<Longrightarrow> fs_mirror s'"
proof -
  assume s: "fs_mirror s" and t: "fs_remove_file p s = (r, s')"
  obtain r1 s1 where o: "observe Remove p (snd (seed_existing_file p s)) = (r1, s1)" by force
  have s1: "fs_mirror s1" using fs_mirror_observe [OF fs_mirror_seed [OF s] o] .
  show "fs_mirror s'"
  proof (cases r1)
    case (Inl e)
    with t o s1 show ?thesis by (auto simp: fs_remove_file_def split: prod.splits)
  next
    case (Inr u)
    have "p \<in> ci_tracked (fs_image s1) \<or> os_files s1 p = None"
      using seed_existing_tracked [of p s] observe_Inr [OF o [unfolded Inr]] by simp
    with Inr t o s1 show ?thesis
      by (auto simp: fs_remove_file_def fs_mirror_def record_remove_def Let_def
          split: prod.splits if_splits)
  qed
qed

lemma fs_mirror_rename:
  assumes "fs_mirror s" "os_files s a = ci_volatile (fs_image s) a" "os_files s b = ci_volatile (fs_image s) b"
  shows "fs_mirror (record_rename a b (s\<lparr>os_files := move_entry a b (os_files s)\<rparr>))"
  using assms by (auto simp: fs_mirror_def record_rename_def move_entry_def Let_def split: option.splits)

lemma seeded_two:
  assumes "fs_mirror s"
    and "observe op q (snd (seed_existing_file b (snd (seed_existing_file a s)))) = (Inr u, s')"
  shows "os_files s' a = ci_volatile (fs_image s') a" "os_files s' b = ci_volatile (fs_image s') b"
proof -
  let ?s1 = "snd (seed_existing_file a s)"
  have m: "fs_mirror ?s1" using assms(1) by (rule fs_mirror_seed)
  note o = observed_seed [OF m assms(2)]
  from o show "os_files s' b = ci_volatile (fs_image s') b" by simp
  have "a \<in> ci_tracked (fs_image s') \<or> os_files s' a = None"
    using seed_existing_tracked [of a s] observe_Inr [OF assms(2)] seed_existing_tracked_mono by auto
  with o(1) show "os_files s' a = ci_volatile (fs_image s') a" by (rule fs_mirror_eq)
qed

lemma fs_mirror_replace: "fs_mirror s \<Longrightarrow> fs_atomic_replace a b s = (r, s') \<Longrightarrow> fs_mirror s'"
proof -
  assume s: "fs_mirror s" and t: "fs_atomic_replace a b s = (r, s')"
  let ?s2 = "snd (seed_existing_file b (snd (seed_existing_file a s)))"
  obtain r1 s1 where o: "observe AtomicReplace b ?s2 = (r1, s1)" by force
  have s1: "fs_mirror s1" using fs_mirror_observe [OF fs_mirror_seed [OF fs_mirror_seed [OF s]] o] .
  show "fs_mirror s'"
  proof (cases r1)
    case (Inl e)
    with t o s1 show ?thesis by (simp add: fs_atomic_replace_def case_prod_beta)
  next
    case (Inr u)
    from fs_mirror_rename [OF s1 seeded_two [OF s o [unfolded Inr]]] t o s1 Inr
    show ?thesis by (auto simp: fs_atomic_replace_def case_prod_beta split: if_splits)
  qed
qed

lemma fs_mirror_install: "fs_mirror s \<Longrightarrow> fs_atomic_install a b s = (r, s') \<Longrightarrow> fs_mirror s'"
proof -
  assume s: "fs_mirror s" and t: "fs_atomic_install a b s = (r, s')"
  let ?s2 = "snd (seed_existing_file b (snd (seed_existing_file a s)))"
  obtain r1 s1 where o: "observe AtomicInstall b ?s2 = (r1, s1)" by force
  have s1: "fs_mirror s1" using fs_mirror_observe [OF fs_mirror_seed [OF fs_mirror_seed [OF s]] o] .
  show "fs_mirror s'"
  proof (cases r1)
    case (Inl e)
    with t o s1 show ?thesis by (simp add: fs_atomic_install_def case_prod_beta)
  next
    case (Inr u)
    from fs_mirror_rename [OF s1 seeded_two [OF s o [unfolded Inr]]] t o s1 Inr
    show ?thesis by (auto simp: fs_atomic_install_def case_prod_beta split: if_splits)
  qed
qed

lemma fs_mirror_step: "fs_step s s' \<Longrightarrow> fs_mirror s \<Longrightarrow> fs_mirror s'"
  by (induction rule: fs_step.induct)
    (auto intro: fs_mirror_create fs_mirror_append fs_mirror_append_existing fs_mirror_write fs_mirror_sync
      fs_mirror_open_read fs_mirror_read_file fs_mirror_sync_file fs_mirror_truncate
      fs_mirror_sync_directory fs_mirror_replace fs_mirror_install fs_mirror_remove simp: fs_crash_def)

lemma fs_mirror_init: "fs_mirror (fs_recording files)" "fs_mirror (fs_failing_at files n)"
  by (simp_all add: fs_mirror_def fs_recording_def fs_failing_at_def)

section \<open>Durability\<close>

text \<open>The contents of a file as the process sees them.\<close>

definition fs_contents :: "path \<Rightarrow> fs \<Rightarrow> bytes" where
  "fs_contents p s = (case os_files s p of None \<Rightarrow> [] | Some c \<Rightarrow> c)"

text \<open>An open file whose directory entry is on stable storage.\<close>

definition fs_linked :: "path \<Rightarrow> fs \<Rightarrow> bool" where
  "fs_linked p s \<longleftrightarrow> fs_mirror s \<and> is_tracked s p \<and> fs_entry_exists p s \<and> ci_durable (fs_image s) p \<noteq> None"

lemma fs_write_all_linked:
  assumes "fs_linked p s" "fs_write_all p bs s = (Inr u, s')"
  shows "fs_linked p s'" and "fs_contents p s' = fs_contents p s @ bs"
    and "ci_durable (fs_image s') = ci_durable (fs_image s)"
proof -
  from assms(2) obtain s1 where o: "observe WriteOp p s = (Inr (), s1)"
    by (auto simp: fs_write_all_def split: prod.splits sum.splits)
  obtain c where c: "os_files s p = Some c" using assms(1) by (auto simp: fs_linked_def fs_entry_exists_def)
  have s': "s' = record_write p bs (s1\<lparr>os_files := (os_files s1)(p \<mapsto> c @ bs)\<rparr>)"
    using assms(2) o observe_Inr [OF o] c by (simp add: fs_write_all_def)
  from s' observe_Inr [OF o] show "ci_durable (fs_image s') = ci_durable (fs_image s)"
    by (simp add: record_write_def Let_def)
  with assms fs_mirror_write [OF _ _ _ assms(2)] show "fs_linked p s'"
    using s' by (auto simp: fs_linked_def is_tracked_def fs_entry_exists_def record_write_def Let_def)
  from s' c observe_Inr [OF o] show "fs_contents p s' = fs_contents p s @ bs"
    by (simp add: fs_contents_def record_write_def Let_def)
qed

text \<open>What a successful synchronization of a linked file leaves on stable storage.\<close>

lemma fs_sync_all_linked:
  assumes "fs_linked p s" "fs_sync_all p s = (Inr u, s')"
  shows "fs_linked p s'" and "fs_contents p s' = fs_contents p s"
    and "ci_durable (fs_image s') p = Some (fs_contents p s)"
proof -
  from assms(2) obtain s1 where o: "observe FileSync p s = (Inr (), s1)" and s': "s' = record_file_sync p s1"
    by (auto simp: fs_sync_all_def split: prod.splits sum.splits)
  note os = observe_Inr [OF o]
  obtain c where c: "os_files s p = Some c" using assms(1) by (auto simp: fs_linked_def fs_entry_exists_def)
  with assms(1) have v: "ci_volatile (fs_image s1) p = Some c"
    using os by (auto simp: fs_linked_def fs_mirror_def is_tracked_def)
  show "ci_durable (fs_image s') p = Some (fs_contents p s)"
    using v c os assms(1) s' by (simp add: record_file_sync_def fs_contents_def fs_linked_def Let_def)
  show "fs_contents p s' = fs_contents p s"
    using v os s' by (simp add: record_file_sync_def fs_contents_def Let_def)
  show "fs_linked p s'"
    using assms v c os s' fs_mirror_sync [OF _ assms(2)]
    by (auto simp: fs_linked_def record_file_sync_def is_tracked_def fs_entry_exists_def Let_def)
qed

lemma fs_crash_linked: "fs_linked p s \<Longrightarrow> os_files (fs_crash s) p = ci_durable (fs_image s) p"
  by (simp add: fs_linked_def fs_crash_def restore_durable_state_def Let_def)

text \<open>Writes never change the durable image, and neither do failed synchronizations.\<close>

lemma restore_durable [simp]:
  "ci_durable (fs_image (restore_durable_state s)) = ci_durable (fs_image s)"
  by (simp add: restore_durable_state_def Let_def)

lemma observe_durable: "observe op p s = (r, s') \<Longrightarrow> ci_durable (fs_image s') = ci_durable (fs_image s)"
  by (auto simp: observe_def Let_def split: if_splits)

lemma fs_write_all_durable:
  "fs_write_all p bs s = (r, s') \<Longrightarrow> ci_durable (fs_image s') = ci_durable (fs_image s)"
  by (auto simp: fs_write_all_def record_write_def Let_def dest!: observe_durable
      split: prod.splits sum.splits option.splits)

lemma fs_sync_all_failed:
  "fs_sync_all p s = (Inl e, s') \<Longrightarrow> ci_durable (fs_image s') = ci_durable (fs_image s)"
  by (auto simp: fs_sync_all_def dest!: observe_durable split: prod.splits sum.splits)

lemma fs_crash_durable: "ci_durable (fs_image s) p = Some c \<Longrightarrow> os_files (fs_crash s) p = Some c"
  by (simp add: fs_crash_def restore_durable_state_def Let_def)

text \<open>A new file becomes linked when its directory is synchronized after the exclusive create.\<close>

lemma fs_create_sync_linked:
  assumes "fs_mirror s" "p \<noteq> []" "fs_create p s = (Inr h, s1)" "fs_sync_directory (butlast p) s1 = (Inr u, s2)"
  shows "fs_linked p s2" and "fs_contents p s2 = []"
    and "ci_durable (fs_image s) p = None \<Longrightarrow> ci_durable (fs_image s2) p = Some []"
proof -
  from assms(3) have s1: "os_files s p = None"
    "s1 = track_new_file p (s\<lparr>os_files := (os_files s)(p \<mapsto> [])\<rparr>)"
    by (auto simp: fs_create_def split: if_splits)
  from assms(4) obtain s1' where o: "observe DirectorySync (butlast p) s1 = (Inr (), s1')"
    and s2: "s2 = record_directory_sync (butlast p) s1'"
    by (auto simp: fs_sync_directory_def split: prod.splits sum.splits)
  note os = observe_Inr [OF o]
  have "fs_mirror s2"
    using assms fs_mirror_create fs_mirror_sync_directory by blast
  then show "fs_linked p s2"
    using s1 s2 os assms(2)
    by (simp add: fs_linked_def is_tracked_def fs_entry_exists_def record_directory_sync_def
        track_new_file_def path_parent_def Let_def)
  show "fs_contents p s2 = []"
    using s1 s2 os by (simp add: fs_contents_def record_directory_sync_def track_new_file_def Let_def)
  show "ci_durable (fs_image s) p = None \<Longrightarrow> ci_durable (fs_image s2) p = Some []"
    using s1 s2 os assms(2) by (simp add: record_directory_sync_def track_new_file_def path_parent_def Let_def)
qed

section \<open>Properties\<close>



end
