(* ===== verification/Log_Framing.thy ===== *)
theory Log_Framing
  imports Durable_Fs
begin

text \<open>
  The physical record format that the write-ahead log (\<open>wal.rs\<close>) and the manifest
  (\<open>manifest.rs\<close>) share: 32 KiB blocks, seven-byte fragment headers with a masked CRC32C,
  and logical records split into \<open>FULL\<close> or \<open>FIRST\<close>, \<open>MIDDLE\<close>, \<open>LAST\<close>
  fragments.  Both source files contain the same writer loop and the same reader loop; they are
  modelled once, with the file, the error context and the treatment of a complete fragment as
  arguments.  The \<open>crc32c\<close> crate is an argument too, and nothing is assumed about it.
\<close>

section \<open>Fragments\<close>

record crc_lib =
  crc32c :: "bytes \<Rightarrow> u32"
  crc32c_append :: "u32 \<Rightarrow> bytes \<Rightarrow> u32"

definition BLOCK_BYTES :: usize where "BLOCK_BYTES = 32768"
definition HEADER_BYTES :: usize where "HEADER_BYTES = 7"
definition FULL :: u8 where "FULL = 1"
definition FIRST :: u8 where "FIRST = 2"
definition MIDDLE :: u8 where "MIDDLE = 3"
definition LAST :: u8 where "LAST = 4"
definition CHECKSUM_MASK_DELTA :: u32 where "CHECKSUM_MASK_DELTA = 0xa282ead8"

lemmas framing_consts = BLOCK_BYTES_def HEADER_BYTES_def
lemmas fragment_types = FULL_def FIRST_def MIDDLE_def LAST_def

definition checksum :: "crc_lib \<Rightarrow> u8 \<Rightarrow> bytes \<Rightarrow> u32" where
  "checksum lib fragment_type fragment = crc32c_append lib (crc32c lib [fragment_type]) fragment"

definition masked_checksum :: "crc_lib \<Rightarrow> u8 \<Rightarrow> bytes \<Rightarrow> u32" where
  "masked_checksum lib fragment_type fragment =
    word_rotr 15 (checksum lib fragment_type fragment) + CHECKSUM_MASK_DELTA"

definition unmask_checksum :: "u32 \<Rightarrow> u32" where
  "unmask_checksum masked = word_rotl 15 (masked - CHECKSUM_MASK_DELTA)"

lemma unmask_masked [codec, simp]:
  "unmask_checksum (masked_checksum lib ty f) = checksum lib ty f"
  by (simp add: unmask_checksum_def masked_checksum_def)

definition fragment_type_of :: "bool \<Rightarrow> bool \<Rightarrow> u8" where
  "fragment_type_of first is_last =
    (if first \<and> is_last then FULL else if first then FIRST
     else if is_last then LAST else MIDDLE)"

definition fragment_header :: "crc_lib \<Rightarrow> u8 \<Rightarrow> bytes \<Rightarrow> bytes" where
  "fragment_header lib fragment_type fragment =
    u32_to_le (masked_checksum lib fragment_type fragment) @
    u16_to_le (word_of_nat (length fragment)) @ [fragment_type]"

section \<open>The writer loop\<close>

text \<open>
  \<open>write_all\<close> is the method of the open \<open>DurableFile\<close>, a function on the state that
  holds the file.  \<open>pad_block\<close> is the first conditional of the loop body: it fills a block
  that has no room for a header and moves to the next one.
\<close>

type_synonym 's file_write = "bytes \<Rightarrow> 's \<Rightarrow> (io_kind + unit) \<times> 's"

definition pad_block ::
    "'s file_write \<Rightarrow> (io_kind \<Rightarrow> error) \<Rightarrow> usize \<Rightarrow> 's \<Rightarrow> unit result \<times> usize \<times> 's" where
  "pad_block write_all pad_error block_offset s =
    (let remaining_in_block = BLOCK_BYTES - block_offset in
     if remaining_in_block < HEADER_BYTES then
       (case write_all (replicate remaining_in_block 0) s of
          (Inl k, s) \<Rightarrow> (Err (pad_error k), block_offset, s)
        | (Inr _, s) \<Rightarrow> (Ok (), 0, s))
     else (Ok (), block_offset, s))"

lemma pad_block_offset:
  "pad_block w pe off s = (Inr u, off', s') \<Longrightarrow>
    off' = (if BLOCK_BYTES - off < HEADER_BYTES then 0 else off)"
  by (auto simp: pad_block_def Let_def split: if_splits prod.splits sum.splits)

text \<open>
  A fragment is empty only when exactly one header fits before the end of the block; the loop then
  moves to a fresh block, so a step never leaves both the position and that flag unchanged.
\<close>

lemma write_record_measure:
  fixes n position off off' :: nat
  assumes "position < n" and "off' = (if BLOCK_BYTES - off < HEADER_BYTES then 0 else off)"
    and "l = min (BLOCK_BYTES - off' - HEADER_BYTES) (n - position)"
  shows "2 * (n - (position + l)) + (if off' + HEADER_BYTES + l = BLOCK_BYTES - HEADER_BYTES then 1 else 0)
    < 2 * (n - position) + (if off = BLOCK_BYTES - HEADER_BYTES then 1 else 0 :: nat)"
proof (cases "l = 0")
  case True
  with assms have "off' = off" "off = BLOCK_BYTES - HEADER_BYTES"
    by (auto simp: framing_consts split: if_splits)
  with True show ?thesis by (simp add: framing_consts)
next
  case False
  moreover have "l \<le> n - position" using assms(3) by simp
  ultimately show ?thesis by (auto split: if_splits)
qed

function write_record_loop ::
    "crc_lib \<Rightarrow> 's file_write \<Rightarrow> (io_kind \<Rightarrow> error) \<Rightarrow> (io_kind \<Rightarrow> error) \<Rightarrow> bytes \<Rightarrow>
     usize \<Rightarrow> bool \<Rightarrow> usize \<Rightarrow> 's \<Rightarrow> unit result \<times> usize \<times> 's" where
  "write_record_loop lib write_all pad_error append_error logical position first block_offset s =
    (if position < length logical then
       (case pad_block write_all pad_error block_offset s of
          (Inl e, off, s) \<Rightarrow> (Err e, off, s)
        | (Inr _, off, s) \<Rightarrow>
            let available = BLOCK_BYTES - off - HEADER_BYTES;
                fragment_length = min available (length logical - position);
                is_last = (position + fragment_length = length logical);
                fragment_type = fragment_type_of first is_last;
                fragment = take fragment_length (drop position logical);
                header = fragment_header lib fragment_type fragment
            in case write_all header s of
                 (Inl k, s) \<Rightarrow> (Err (append_error k), off, s)
               | (Inr _, s) \<Rightarrow>
                   (case write_all fragment s of
                      (Inl k, s) \<Rightarrow> (Err (append_error k), off, s)
                    | (Inr _, s) \<Rightarrow>
                        write_record_loop lib write_all pad_error append_error logical
                          (position + fragment_length) False
                          (off + HEADER_BYTES + fragment_length) s))
     else (Ok (), block_offset, s))"
  by pat_completeness auto

termination
proof (relation "measure (\<lambda>(lib, w, pe, ae, logical, position, first, off, s).
    2 * (length logical - position) + (if off = BLOCK_BYTES - HEADER_BYTES then 1 else 0))",
    goal_cases)
  case 1
  then show ?case by simp
next
  case (2 lib w pe ae logical position first off s x y b off' s')
  have "pad_block w pe off s = (Inr b, off', s')"
    unfolding 2(2) [symmetric] 2(4) 2(3) by simp
  from write_record_measure [OF 2(1) pad_block_offset [OF this] 2(6) [unfolded 2(5)]]
  show ?case by simp
qed

declare write_record_loop.simps [simp del]

section \<open>The reader loops\<close>

text \<open>
  What one pass over a block ends with: the source returns from the middle of the final block
  (with the file position it stopped at), or it has consumed the block.
\<close>

datatype 'st block_end = Stopped 'st nat | Consumed 'st

text \<open>
  The inner \<open>while\<close> loop.  \<open>rest\<close> is \<open>block[offset..block_length]\<close>, and
  \<open>step st position fragment_type fragment\<close> is the \<open>match\<close> on a checksummed fragment.
\<close>

function read_fragments ::
    "crc_lib \<Rightarrow> corruption_context \<Rightarrow> ('st \<Rightarrow> nat \<Rightarrow> u8 \<Rightarrow> bytes \<Rightarrow> 'st result) \<Rightarrow> bool \<Rightarrow> nat \<Rightarrow>
     usize \<Rightarrow> bytes \<Rightarrow> 'st \<Rightarrow> 'st block_end result" where
  "read_fragments lib ctx step final_block block_start offset rest st =
    (let block_length = offset + length rest in
     if offset < block_length then
       let remaining = block_length - offset in
       if remaining < HEADER_BYTES then
         if final_block then Ok (Stopped st (block_start + offset))
         else if \<exists>b \<in> set rest. b \<noteq> 0 then Err (Corruption ctx)
         else Ok (Consumed st)
       else
         let header = take HEADER_BYTES rest;
             stored_checksum = u32_from_le (take 4 header);
             fragment_length = unat (u16_from_le (take 2 (drop 4 header)));
             fragment_type = header ! 6
         in case Option.bind (checked_add_usize offset HEADER_BYTES)
                   (\<lambda>position. checked_add_usize position fragment_length) of
              None \<Rightarrow> Err (Corruption ctx)
            | Some fragment_end \<Rightarrow>
                if fragment_end > block_length then
                  if final_block then Ok (Stopped st (block_start + offset))
                  else Err (Corruption ctx)
                else
                  let fragment = take fragment_length (drop HEADER_BYTES rest) in
                  if unmask_checksum stored_checksum \<noteq> checksum lib fragment_type fragment
                  then Err (Corruption ctx)
                  else rbind (step st (block_start + offset) fragment_type fragment) (\<lambda>st.
                    read_fragments lib ctx step final_block block_start fragment_end
                      (drop (HEADER_BYTES + fragment_length) rest) st)
     else Ok (Consumed st))"
  by pat_completeness auto

termination
  by (relation "measure (\<lambda>(lib, ctx, step, final, start, offset, rest, st). length rest)")
    (auto simp: HEADER_BYTES_def)

declare read_fragments.simps [simp del]

text \<open>
  The outer \<open>loop\<close>: \<open>input\<close> is what the reader has left, and \<open>read_block\<close> fills the
  buffer from it.  The result is the final state and the file position where reading stopped.
\<close>

definition read_block :: "bytes \<Rightarrow> bytes \<times> bytes" where
  "read_block input = (take BLOCK_BYTES input, drop BLOCK_BYTES input)"

function read_blocks ::
    "crc_lib \<Rightarrow> corruption_context \<Rightarrow> ('st \<Rightarrow> nat \<Rightarrow> u8 \<Rightarrow> bytes \<Rightarrow> 'st result) \<Rightarrow> nat \<Rightarrow> bytes \<Rightarrow>
     nat \<Rightarrow> 'st \<Rightarrow> ('st \<times> nat) result" where
  "read_blocks lib ctx step file_length input block_start st =
    (let (block, input') = read_block input in
     if length block = 0 then Ok (st, file_length)
     else
       let final_block = (block_start + length block = file_length) in
       rbind (read_fragments lib ctx step final_block block_start 0 block st) (\<lambda>r.
         case r of
           Stopped st position \<Rightarrow> Ok (st, position)
         | Consumed st \<Rightarrow>
             if final_block then Ok (st, file_length)
             else read_blocks lib ctx step file_length input' (block_start + length block) st))"
  by pat_completeness auto

termination
  by (relation "measure (\<lambda>(lib, ctx, step, len, input, start, st). length input)")
    (auto simp: BLOCK_BYTES_def read_block_def)

declare read_blocks.simps [simp del]

definition replay_log ::
    "crc_lib \<Rightarrow> corruption_context \<Rightarrow> ('st \<Rightarrow> nat \<Rightarrow> u8 \<Rightarrow> bytes \<Rightarrow> 'st result) \<Rightarrow> 'st \<Rightarrow> bytes \<Rightarrow>
     ('st \<times> nat) result" where
  "replay_log lib ctx step st file = read_blocks lib ctx step (length file) file 0 st"

section \<open>The bytes of a framed record\<close>

text \<open>The specification of the writer: the padding, headers and fragments one record becomes.\<close>

definition pad_length :: "usize \<Rightarrow> usize" where
  "pad_length off = (if BLOCK_BYTES - off < HEADER_BYTES then BLOCK_BYTES - off else 0)"

definition pad_offset :: "usize \<Rightarrow> usize" where
  "pad_offset off = (if BLOCK_BYTES - off < HEADER_BYTES then 0 else off)"

function frame_record :: "crc_lib \<Rightarrow> usize \<Rightarrow> bool \<Rightarrow> bytes \<Rightarrow> bytes \<times> usize" where
  "frame_record lib off first rest =
    (if rest = [] then ([], off)
     else
       let o1 = pad_offset off;
           n = min (BLOCK_BYTES - o1 - HEADER_BYTES) (length rest);
           f = take n rest;
           (tail, off') = frame_record lib (o1 + HEADER_BYTES + n) False (drop n rest)
       in (replicate (pad_length off) 0 @
           fragment_header lib (fragment_type_of first (n = length rest)) f @ f @ tail, off'))"
  by pat_completeness auto

termination
proof (relation "measure (\<lambda>(lib, off, first, rest).
    2 * length rest + (if off = BLOCK_BYTES - HEADER_BYTES then 1 else 0))", goal_cases)
  case 1
  then show ?case by simp
next
  case (2 lib off first rest o1 n)
  then show ?case
    using write_record_measure [of 0 "length rest" o1 off n] by (simp add: pad_offset_def)
qed

declare frame_record.simps [simp del]

text \<open>A log is the concatenation of its framed records.\<close>

fun frame_log :: "crc_lib \<Rightarrow> usize \<Rightarrow> bytes list \<Rightarrow> bytes \<times> usize" where
  "frame_log lib off [] = ([], off)"
| "frame_log lib off (r # rs) =
    (let (b, o1) = frame_record lib off True r; (bs, o2) = frame_log lib o1 rs in (b @ bs, o2))"

lemma length_fragment_header [simp]: "length (fragment_header lib ty f) = HEADER_BYTES"
  by (simp add: fragment_header_def HEADER_BYTES_def)

lemma pad_offset_le: "pad_offset off + HEADER_BYTES \<le> BLOCK_BYTES"
  by (auto simp: pad_offset_def framing_consts)

lemma frame_record_Nil [simp]: "frame_record lib off first [] = ([], off)"
  by (simp add: frame_record.simps)

lemma frame_record_Cons:
  assumes "rest \<noteq> []" and "n = min (BLOCK_BYTES - pad_offset off - HEADER_BYTES) (length rest)"
  shows "frame_record lib off first rest =
    (replicate (pad_length off) 0 @
       fragment_header lib (fragment_type_of first (n = length rest)) (take n rest) @ take n rest @
       fst (frame_record lib (pad_offset off + HEADER_BYTES + n) False (drop n rest)),
     snd (frame_record lib (pad_offset off + HEADER_BYTES + n) False (drop n rest)))"
  using assms by (subst frame_record.simps) (simp add: Let_def case_prod_beta)

lemma frame_record_measure:
  assumes "r \<noteq> []" "n = min (BLOCK_BYTES - pad_offset off - HEADER_BYTES) (length r)"
  shows "2 * length (drop n r) + (if pad_offset off + HEADER_BYTES + n = BLOCK_BYTES - HEADER_BYTES then 1 else 0)
    < 2 * length r + (if off = BLOCK_BYTES - HEADER_BYTES then 1 else 0 :: nat)"
  using write_record_measure [of 0 "length r", OF _ pad_offset_def, of n off] assms
  unfolding length_drop add_0 diff_zero by blast

lemma frame_record_offset_le:
  "off \<le> BLOCK_BYTES \<Longrightarrow> snd (frame_record lib off first rest) \<le> BLOCK_BYTES"
proof (induction lib off first rest rule: frame_record.induct)
  case (1 lib off first rest)
  then show ?case
    using pad_offset_le [of off] by (cases "rest = []") (auto simp: frame_record_Cons)
qed

text \<open>Framing depends on the offset only up to the padding it forces.\<close>

lemma frame_record_pad:
  assumes "r \<noteq> []" "off \<le> BLOCK_BYTES"
  shows "frame_record lib off first r =
    (replicate (pad_length off) 0 @ fst (frame_record lib (pad_offset off) first r),
     snd (frame_record lib (pad_offset off) first r))"
proof -
  have "pad_offset (pad_offset off) = pad_offset off" "pad_length (pad_offset off) = 0"
    by (auto simp: pad_offset_def pad_length_def framing_consts)
  then show ?thesis
    by (simp add: frame_record_Cons [OF assms(1) refl, of lib off]
        frame_record_Cons [OF assms(1) refl, of lib "pad_offset off"])
qed

lemma pad_mod: "off \<le> BLOCK_BYTES \<Longrightarrow> (off + pad_length off) mod BLOCK_BYTES = pad_offset off"
  by (auto simp: pad_length_def pad_offset_def framing_consts)

lemma frame_record_length_mod:
  "off \<le> BLOCK_BYTES \<Longrightarrow>
    (off + length (fst (frame_record lib off first r))) mod BLOCK_BYTES =
      snd (frame_record lib off first r) mod BLOCK_BYTES"
proof (induction lib off first r rule: frame_record.induct)
  case (1 lib off first r)
  show ?case
  proof (cases "r = []")
    case False
    define n where "n = min (BLOCK_BYTES - pad_offset off - HEADER_BYTES) (length r)"
    let ?o = "pad_offset off + HEADER_BYTES + n"
    note fr = frame_record_Cons [OF False n_def, of lib first]
    have "?o \<le> BLOCK_BYTES" using pad_offset_le [of off] by (simp add: n_def)
    from "1.IH" [OF False refl n_def refl this]
    have IH: "(?o + length (fst (frame_record lib ?o False (drop n r)))) mod BLOCK_BYTES =
      snd (frame_record lib ?o False (drop n r)) mod BLOCK_BYTES" .
    have "length (take n r) = n" by (simp add: n_def)
    then have "(off + length (fst (frame_record lib off first r))) mod BLOCK_BYTES =
      ((off + pad_length off) + (HEADER_BYTES + n + length (fst (frame_record lib ?o False (drop n r))))) mod BLOCK_BYTES"
      by (simp add: fr add.assoc)
    also have "\<dots> = (pad_offset off + (HEADER_BYTES + n + length (fst (frame_record lib ?o False (drop n r))))) mod BLOCK_BYTES"
      using pad_mod [OF "1.prems"] by (metis mod_add_left_eq)
    finally show ?thesis using IH by (simp add: fr add.assoc)
  qed simp
qed

section \<open>Writing\<close>

definition appends :: "'s file_write \<Rightarrow> ('s \<Rightarrow> bytes) \<Rightarrow> ('s \<Rightarrow> bool) \<Rightarrow> bool" where
  "appends write_all contents is_open \<longleftrightarrow>
    (\<forall>bs s u s'. is_open s \<longrightarrow> write_all bs s = (Inr u, s') \<longrightarrow>
      contents s' = contents s @ bs \<and> is_open s')"

lemma pad_block_appends:
  "appends w contents is_open \<Longrightarrow> is_open s \<Longrightarrow> pad_block w pe off s = (Inr u, off', s') \<Longrightarrow>
    contents s' = contents s @ replicate (pad_length off) 0 \<and> off' = pad_offset off \<and> is_open s'"
  by (auto simp: pad_block_def pad_length_def pad_offset_def Let_def appends_def
      split: if_splits prod.splits sum.splits)

lemma write_record_loop_step:
  assumes "position < length logical" "pad_block w pe off s = (Inr v, off1, s1)"
    and "n = min (BLOCK_BYTES - off1 - HEADER_BYTES) (length logical - position)"
    and "f = take n (drop position logical)"
    and "ty = fragment_type_of first (n = length logical - position)"
  shows "write_record_loop lib w pe ae logical position first off s =
    (case w (fragment_header lib ty f) s1 of
       (Inl k, s) \<Rightarrow> (Err (ae k), off1, s)
     | (Inr _, s) \<Rightarrow>
         (case w f s of
            (Inl k, s) \<Rightarrow> (Err (ae k), off1, s)
          | (Inr _, s) \<Rightarrow>
              write_record_loop lib w pe ae logical (position + n) False (off1 + HEADER_BYTES + n) s))"
proof -
  have "(position + n = length logical) = (n = length logical - position)" using assms(1) by auto
  then show ?thesis
    unfolding assms(4,5) using assms(1-3)
    by (subst write_record_loop.simps) (simp only: if_True prod.case sum.case Let_def)
qed

lemma write_record_loop_appends:
  assumes w: "appends w contents is_open" and "is_open s"
    and "write_record_loop lib w pe ae logical position first off s = (Inr u, off', s')"
  shows "contents s' = contents s @ fst (frame_record lib off first (drop position logical)) \<and>
    off' = snd (frame_record lib off first (drop position logical)) \<and> is_open s'"
  using assms(2,3)
proof (induction "2 * (length logical - position) + (if off = BLOCK_BYTES - HEADER_BYTES then 1 else 0)"
    arbitrary: position first off s rule: less_induct)
  case less
  show ?case
  proof (cases "position < length logical")
    case False
    with less.prems show ?thesis by (simp add: write_record_loop.simps)
  next
    case True
    from True less.prems(2) obtain v off1 s1 where pad: "pad_block w pe off s = (Inr v, off1, s1)"
      by (subst (asm) write_record_loop.simps) (auto split: prod.splits sum.splits)
    note p = pad_block_appends [OF w less.prems(1) pad]
    define n where "n = min (BLOCK_BYTES - off1 - HEADER_BYTES) (length logical - position)"
    define f where "f = take n (drop position logical)"
    define ty where "ty = fragment_type_of first (n = length logical - position)"
    from less.prems(2) obtain s2 s3 v2 v3 where
      ws: "w (fragment_header lib ty f) s1 = (Inr v2, s2)" "w f s2 = (Inr v3, s3)"
      and more: "write_record_loop lib w pe ae logical (position + n) False (off1 + HEADER_BYTES + n) s3
        = (Inr u, off', s')"
      unfolding write_record_loop_step [OF True pad n_def f_def ty_def]
      by (auto split: prod.splits sum.splits)
    have c3: "contents s3 = contents s1 @ fragment_header lib ty f @ f \<and> is_open s3"
      using ws w p unfolding appends_def by (metis append.assoc)
    have off1: "off1 = pad_offset off" using p by simp
    have "2 * (length logical - (position + n)) +
        (if off1 + HEADER_BYTES + n = BLOCK_BYTES - HEADER_BYTES then 1 else 0)
      < 2 * (length logical - position) + (if off = BLOCK_BYTES - HEADER_BYTES then 1 else 0)"
      using True off1 n_def by (intro write_record_measure) (simp_all add: pad_offset_def)
    note IH = less.hyps [OF this _ more]
    have "frame_record lib off first (drop position logical) =
      (replicate (pad_length off) 0 @ fragment_header lib ty f @ f @
         fst (frame_record lib (off1 + HEADER_BYTES + n) False (drop (position + n) logical)),
       snd (frame_record lib (off1 + HEADER_BYTES + n) False (drop (position + n) logical)))"
      using True frame_record_Cons [of "drop position logical" n off lib first]
      by (simp add: off1 n_def f_def ty_def add.commute)
    with IH c3 p show ?thesis by simp
  qed
qed

text \<open>
  What every successful write keeps, the loop keeps; a failed write ends it.  \<open>Q\<close> is what a
  failed write leaves.
\<close>

definition write_ends :: "'s file_write \<Rightarrow> ('s \<Rightarrow> bool) \<Rightarrow> ('s \<Rightarrow> bool) \<Rightarrow> bool" where
  "write_ends write_all P Q \<longleftrightarrow>
    (\<forall>bs s s'. P s \<longrightarrow> (\<forall>k. write_all bs s = (Inl k, s') \<longrightarrow> Q s') \<and> (write_all bs s = (Inr (), s') \<longrightarrow> P s'))"

lemma pad_block_ends:
  "write_ends w P Q \<Longrightarrow> P s \<Longrightarrow> pad_block w pe off s = (r, off', s') \<Longrightarrow>
    (case r of Inl _ \<Rightarrow> Q s' | Inr _ \<Rightarrow> P s')"
  unfolding write_ends_def
  by (auto simp: pad_block_def Let_def split: if_splits prod.splits sum.splits)

lemma write_record_loop_ends:
  assumes w: "write_ends w P Q"
    and "P s" "write_record_loop lib w pe ae logical position first off s = (r, off', s')"
  shows "case r of Inl _ \<Rightarrow> Q s' | Inr _ \<Rightarrow> P s'"
  using assms(2,3)
proof (induction "2 * (length logical - position) + (if off = BLOCK_BYTES - HEADER_BYTES then 1 else 0)"
    arbitrary: position first off s rule: less_induct)
  case less
  obtain r1 off1 s1 where pad: "pad_block w pe off s = (r1, off1, s1)" by (metis prod_cases3)
  note s1 = pad_block_ends [OF w less.prems(1) pad]
  show ?case
  proof (cases "position < length logical \<and> r1 = Inr ()")
    case False
    with less.prems s1 show ?thesis
      by (auto simp: write_record_loop.simps [of lib w pe ae logical position first off s] pad
          split: if_splits sum.splits)
  next
    case True
    define n where "n = min (BLOCK_BYTES - off1 - HEADER_BYTES) (length logical - position)"
    define f where "f = take n (drop position logical)"
    define ty where "ty = fragment_type_of first (n = length logical - position)"
    have off1: "off1 = pad_offset off"
      using pad_block_offset [of w pe off s "()" off1 s1] pad True by (simp add: pad_offset_def)
    have dec: "2 * (length logical - (position + n)) +
        (if off1 + HEADER_BYTES + n = BLOCK_BYTES - HEADER_BYTES then 1 else 0)
      < 2 * (length logical - position) + (if off = BLOCK_BYTES - HEADER_BYTES then 1 else 0)"
      using True off1 n_def by (intro write_record_measure) (simp_all add: pad_offset_def)
    note step = write_record_loop_step [OF conjunct1 [OF True] pad [unfolded conjunct2 [OF True]] n_def f_def ty_def,
        of lib ae]
    obtain r2 s2 where w2: "w (fragment_header lib ty f) s1 = (r2, s2)" by force
    obtain r3 s3 where w3: "w f s2 = (r3, s3)" by force
    have s2: "case r2 of Inl _ \<Rightarrow> Q s2 | Inr _ \<Rightarrow> P s2" using w s1 w2 True unfolding write_ends_def by (cases r2) auto
    have s3: "r2 = Inr u \<Longrightarrow> case r3 of Inl _ \<Rightarrow> Q s3 | Inr _ \<Rightarrow> P s3" for u
      using w s2 w3 unfolding write_ends_def by (cases r3) auto
    from less.prems(2) s2 s3 less.hyps [OF dec] show ?thesis
      unfolding step w2 by (auto simp: w3 split: sum.splits)
  qed
qed

lemma write_record_loop_keeps:
  assumes "\<And>bs s r s'. P s \<Longrightarrow> w bs s = (r, s') \<Longrightarrow> P s'"
    and "P s" "write_record_loop lib w pe ae logical position first off s = (r, off', s')"
  shows "P s'"
proof -
  have "write_ends w P P" using assms(1) by (auto simp: write_ends_def split: sum.splits)
  from write_record_loop_ends [OF this assms(2,3)] show ?thesis by (simp split: sum.splits)
qed

text \<open>An open file: a successful write appends its bytes to the contents and keeps it open.\<close>

locale append_file =
  fixes write_all :: "'s file_write" and contents :: "'s \<Rightarrow> bytes" and is_open :: "'s \<Rightarrow> bool"
  assumes write_appends: "is_open s \<Longrightarrow> write_all bs s = (Inr u, s') \<Longrightarrow> contents s' = contents s @ bs"
    and write_open: "is_open s \<Longrightarrow> write_all bs s = (Inr u, s') \<Longrightarrow> is_open s'"
begin

text \<open>A completed writer loop has appended exactly the framed record.\<close>

lemma write_record_appends:
  assumes "is_open s" "write_record_loop lib write_all pe ae logical 0 True off s = (Inr u, off', s')"
  shows "contents s' = contents s @ fst (frame_record lib off True logical)"
    and "off' = snd (frame_record lib off True logical)" and "is_open s'"
proof -
  have "appends write_all contents is_open" using write_appends write_open by (auto simp: appends_def)
  from write_record_loop_appends [OF this assms]
  show "contents s' = contents s @ fst (frame_record lib off True logical)"
    and "off' = snd (frame_record lib off True logical)" and "is_open s'"
    by simp_all
qed

end

text \<open>The files of the crash-testing filesystem are such files.\<close>

interpretation linked_file: append_file "fs_write_all p" "fs_contents p" "fs_linked p" for p
  by unfold_locales (simp_all add: fs_write_all_linked)

section \<open>Reading back\<close>

text \<open>
  The reader in the middle of a block: \<open>off\<close> bytes of the block and \<open>pos\<close> bytes of the
  file have been consumed and \<open>rest\<close> is what follows in the file.
\<close>

definition scan ::
    "crc_lib \<Rightarrow> corruption_context \<Rightarrow> ('st \<Rightarrow> nat \<Rightarrow> u8 \<Rightarrow> bytes \<Rightarrow> 'st result) \<Rightarrow> nat \<Rightarrow> usize \<Rightarrow>
     bytes \<Rightarrow> 'st \<Rightarrow> ('st \<times> nat) result" where
  "scan lib ctx step pos off rest st =
    (let final = (length rest \<le> BLOCK_BYTES - off); len = pos + length rest in
     rbind (read_fragments lib ctx step final (pos - off) off (take (BLOCK_BYTES - off) rest) st) (\<lambda>r.
       case r of
         Stopped st p \<Rightarrow> Ok (st, p)
       | Consumed st \<Rightarrow>
           if final then Ok (st, len)
           else read_blocks lib ctx step len (drop (BLOCK_BYTES - off) rest) (pos - off + BLOCK_BYTES) st))"

lemma read_blocks_scan:
  "read_blocks lib ctx step (start + length rest) rest start st = scan lib ctx step start 0 rest st"
proof (cases "rest = []")
  case True
  then show ?thesis
    by (simp add: scan_def read_blocks.simps read_block_def read_fragments.simps)
next
  case False
  then have pos: "rest \<noteq> []" "BLOCK_BYTES > 0" by (simp_all add: BLOCK_BYTES_def)
  show ?thesis
  proof (cases "length rest \<le> BLOCK_BYTES")
    case True
    with pos show ?thesis
      by (subst read_blocks.simps) (simp add: scan_def read_block_def Let_def)
  next
    case False
    with pos show ?thesis
      by (subst read_blocks.simps) (simp add: scan_def read_block_def Let_def)
  qed
qed

lemma replay_log_scan: "replay_log lib ctx step st file = scan lib ctx step 0 0 file st"
  using read_blocks_scan [of lib ctx step 0 "file"] by (simp add: replay_log_def)

lemma read_fragments_fragment:
  assumes "off + HEADER_BYTES + length f \<le> BLOCK_BYTES"
  shows "read_fragments lib ctx step final start off (fragment_header lib ty f @ f @ rest) st =
    rbind (step st (start + off) ty f) (\<lambda>st.
      read_fragments lib ctx step final start (off + HEADER_BYTES + length f) rest st)"
proof -
  have len: "unat (word_of_nat (length f) :: u16) = length f"
    using assms by (simp add: unat_of_nat_eq framing_consts)
  have small: "off + (HEADER_BYTES + length f) \<le> usize_max" "off + HEADER_BYTES \<le> usize_max"
    using assms by (simp_all add: usize_max_def framing_consts)
  show ?thesis
    using small by (subst read_fragments.simps)
      (simp add: fragment_header_def HEADER_BYTES_def len checked_add_usize_def nth_append
        add.assoc Let_def)
qed

lemma scan_fragment:
  assumes "off + HEADER_BYTES + length f \<le> BLOCK_BYTES" "off \<le> pos"
  shows "scan lib ctx step pos off (fragment_header lib ty f @ f @ rest) st =
    rbind (step st pos ty f) (\<lambda>st.
      scan lib ctx step (pos + HEADER_BYTES + length f) (off + HEADER_BYTES + length f) rest st)"
proof -
  let ?n = "HEADER_BYTES + length f"
  have final: "length (fragment_header lib ty f @ f @ rest) \<le> BLOCK_BYTES - off \<longleftrightarrow>
      length rest \<le> BLOCK_BYTES - (off + HEADER_BYTES + length f)"
    using assms(1) by auto
  have tk: "take (BLOCK_BYTES - off) (fragment_header lib ty f @ f @ rest) =
      fragment_header lib ty f @ f @ take (BLOCK_BYTES - (off + HEADER_BYTES + length f)) rest"
    using assms(1) by (simp add: framing_consts)
  have dr: "drop (BLOCK_BYTES - off) (fragment_header lib ty f @ f @ rest) =
      drop (BLOCK_BYTES - (off + HEADER_BYTES + length f)) rest"
    using assms(1) by (simp add: framing_consts)
  have len: "pos + length (fragment_header lib ty f @ f @ rest) =
      pos + HEADER_BYTES + length f + length rest" by simp
  have sub: "pos + HEADER_BYTES + length f - (off + HEADER_BYTES + length f) = pos - off" by simp
  show ?thesis
    using assms
    unfolding scan_def Let_def final tk dr sub len read_fragments_fragment [OF assms(1)]
    by (cases "step st pos ty f") simp_all
qed

lemma scan_padding:
  assumes "BLOCK_BYTES - off < HEADER_BYTES" "off \<le> BLOCK_BYTES" "off \<le> pos" "rest \<noteq> []"
  shows "scan lib ctx step pos off (replicate (BLOCK_BYTES - off) 0 @ rest) st =
    scan lib ctx step (pos + (BLOCK_BYTES - off)) 0 rest st"
proof -
  let ?p = "replicate (BLOCK_BYTES - off) 0 :: bytes"
  have nf: "length (?p @ rest) \<le> BLOCK_BYTES - off \<longleftrightarrow> False" using assms(4) by simp
  have start: "pos - off + BLOCK_BYTES = pos + (BLOCK_BYTES - off)" using assms(2,3) by simp
  have frag: "read_fragments lib ctx step False (pos - off) off ?p st = Ok (Consumed st)"
    using assms(1) by (subst read_fragments.simps) (simp add: Let_def)
  have dr: "drop (BLOCK_BYTES - off) (?p @ rest) = rest" "take (BLOCK_BYTES - off) (?p @ rest) = ?p"
    by simp_all
  show ?thesis
    using read_blocks_scan [of lib ctx step "pos + (BLOCK_BYTES - off)" rest]
    unfolding scan_def [of _ _ _ pos off] Let_def nf dr frag start by (simp add: add.assoc)
qed

lemma scan_short:
  assumes "length rest < HEADER_BYTES" "length rest \<le> BLOCK_BYTES - off" "off \<le> pos"
  shows "scan lib ctx step pos off rest st = Ok (st, pos)"
  using assms by (cases rest) (simp_all add: scan_def read_fragments.simps Let_def)

lemma scan_cut_fragment:
  assumes "off + HEADER_BYTES + length f \<le> BLOCK_BYTES" "off \<le> pos" "m < length f"
  shows "scan lib ctx step pos off (fragment_header lib ty f @ take m f) st = Ok (st, pos)"
proof -
  have len: "unat (word_of_nat (length f) :: u16) = length f"
    using assms by (simp add: unat_of_nat_eq framing_consts)
  have small: "off + (HEADER_BYTES + length f) \<le> usize_max" "off + HEADER_BYTES \<le> usize_max"
    using assms by (simp_all add: usize_max_def framing_consts)
  have tk: "take (BLOCK_BYTES - off) (fragment_header lib ty f @ take m f) =
      fragment_header lib ty f @ take m f"
    using assms(1,3) by (simp add: framing_consts)
  have final: "length (fragment_header lib ty f @ take m f) \<le> BLOCK_BYTES - off"
    using assms(1,3) by (simp add: framing_consts)
  show ?thesis
    using assms small final unfolding scan_def tk
    by (subst read_fragments.simps)
      (simp add: fragment_header_def HEADER_BYTES_def len checked_add_usize_def nth_append
        add.assoc Let_def)
qed

lemma scan_pad:
  assumes "off \<le> BLOCK_BYTES" "off \<le> pos" "rest \<noteq> []"
  shows "scan lib ctx step pos off (replicate (pad_length off) 0 @ rest) st =
    scan lib ctx step (pos + pad_length off) (pad_offset off) rest st"
  using scan_padding [of off pos rest lib ctx step st] assms
  by (simp add: pad_length_def pad_offset_def)

lemma pad_offset_pos: "off \<le> pos \<Longrightarrow> pad_offset off \<le> pos + pad_length off"
  by (simp add: pad_offset_def pad_length_def)

lemma fragment_header_not_Nil [simp]: "fragment_header lib ty f \<noteq> []"
  by (simp add: fragment_header_def)

lemma scan_framed:
  assumes "off \<le> BLOCK_BYTES" "off \<le> pos" "pad_offset off + HEADER_BYTES + length f \<le> BLOCK_BYTES"
  shows "scan lib ctx step pos off
      (replicate (pad_length off) 0 @ fragment_header lib ty f @ f @ rest) st =
    rbind (step st (pos + pad_length off) ty f)
      (scan lib ctx step (pos + pad_length off + HEADER_BYTES + length f)
        (pad_offset off + HEADER_BYTES + length f) rest)"
  using scan_pad [OF assms(1,2), of "fragment_header lib ty f @ f @ rest" lib ctx step st]
    scan_fragment [OF assms(3) pad_offset_pos [OF assms(2)], of lib ctx step ty rest st]
  by simp

text \<open>A file that ends inside a fragment, or inside the padding before it.\<close>

lemma scan_cut:
  assumes "off \<le> BLOCK_BYTES" "off \<le> pos" "pad_offset off + HEADER_BYTES + length f \<le> BLOCK_BYTES"
    and "k < pad_length off + HEADER_BYTES + length f"
  shows "\<exists>e \<in> {pos, pos + pad_length off}. e \<le> pos + k \<and> scan lib ctx step pos off
    (take k (replicate (pad_length off) 0 @ fragment_header lib ty f @ f @ rest)) st = Ok (st, e)"
proof (cases "k \<le> pad_length off \<and> pad_length off \<noteq> 0")
  case True
  then have "scan lib ctx step pos off (replicate k 0) st = Ok (st, pos)"
    using assms(2) by (intro scan_short) (auto simp: pad_length_def split: if_splits)
  with True show ?thesis by simp
next
  case k: False
  define m where "m = k - pad_length off"
  have m: "k = pad_length off + m" using k by (auto simp: m_def)
  let ?p = "pos + pad_length off" and ?o = "pad_offset off"
  have cut: "scan lib ctx step ?p ?o (take m (fragment_header lib ty f @ f @ rest)) st = Ok (st, ?p)"
  proof (cases "m < HEADER_BYTES")
    case True
    then show ?thesis
      using pad_offset_pos [OF assms(2)] pad_offset_le [of off] by (intro scan_short) auto
  next
    case False
    then obtain j where "m = HEADER_BYTES + j" by (metis le_add_diff_inverse not_less)
    moreover with assms(4) m have "j < length f" by simp
    ultimately show ?thesis
      using scan_cut_fragment [OF assms(3) pad_offset_pos [OF assms(2)]] by simp
  qed
  show ?thesis
  proof (cases "m = 0")
    case True
    with k m have "pad_length off = 0" by auto
    moreover have "scan lib ctx step pos off [] st = Ok (st, pos)"
      using assms(2) by (intro scan_short) (simp_all add: HEADER_BYTES_def)
    ultimately show ?thesis using True m by simp
  next
    case False
    then have "take m (fragment_header lib ty f @ f @ rest) \<noteq> []"
      by (metis append_is_Nil_conv length_0_conv length_fragment_header take_eq_Nil HEADER_BYTES_def
          zero_neq_numeral)
    from scan_pad [OF assms(1,2) this, of lib ctx step st] cut m show ?thesis by simp
  qed
qed

fun deliver_all :: "(bytes \<Rightarrow> 'o \<Rightarrow> 'o result) \<Rightarrow> bytes list \<Rightarrow> 'o \<Rightarrow> 'o result" where
  "deliver_all deliver [] w = Ok w"
| "deliver_all deliver (r # rs) w = rbind (deliver r w) (deliver_all deliver rs)"

lemma frame_record_offset_bound:
  "off \<le> BLOCK_BYTES \<Longrightarrow> snd (frame_record lib off first r) \<le> off + length (fst (frame_record lib off first r))"
proof (induction lib off first r rule: frame_record.induct)
  case (1 lib off first r)
  show ?case
  proof (cases "r = []")
    case False
    define n where "n = min (BLOCK_BYTES - pad_offset off - HEADER_BYTES) (length r)"
    have "pad_offset off + HEADER_BYTES + n \<le> BLOCK_BYTES"
      using pad_offset_le [of off] by (simp add: n_def)
    note IH = "1.IH" [OF False refl n_def refl this]
    have "length (take n r) = n" by (simp add: n_def)
    then show ?thesis
      unfolding frame_record_Cons [OF False n_def, of lib first]
      using IH pad_offset_pos [of off off] by simp
  qed simp
qed

lemma frame_log_snoc:
  "frame_log lib off (rs @ [r]) =
    (fst (frame_log lib off rs) @ fst (frame_record lib (snd (frame_log lib off rs)) True r),
     snd (frame_record lib (snd (frame_log lib off rs)) True r))"
  by (induction rs arbitrary: off) (auto simp: Let_def case_prod_beta)

lemma frame_log_offset_le: "off \<le> BLOCK_BYTES \<Longrightarrow> snd (frame_log lib off rs) \<le> BLOCK_BYTES"
  by (induction rs arbitrary: off) (simp_all add: Let_def case_prod_beta frame_record_offset_le)

lemma frame_log_offset_bound:
  "off \<le> BLOCK_BYTES \<Longrightarrow> snd (frame_log lib off rs) \<le> off + length (fst (frame_log lib off rs))"
proof (induction rs arbitrary: off)
  case (Cons r rs)
  from Cons.IH [OF frame_record_offset_le [OF Cons.prems], of lib True r]
    frame_record_offset_bound [OF Cons.prems, of lib True r]
  show ?case by (simp add: Let_def case_prod_beta)
qed simp

text \<open>
  What the two logs promise of their treatment of fragments: \<open>idle\<close> and \<open>busy\<close> describe
  the \<open>assembling\<close> flag, the bytes collected so far and the position of the first fragment;
  \<open>out\<close> is what has been delivered, and \<open>deliver\<close> consumes one logical record.
\<close>

locale record_log =
  fixes step :: "'st \<Rightarrow> nat \<Rightarrow> u8 \<Rightarrow> bytes \<Rightarrow> 'st result"
    and idle :: "'st \<Rightarrow> bool"
    and busy :: "'st \<Rightarrow> nat \<Rightarrow> bytes \<Rightarrow> bool"
    and out :: "'st \<Rightarrow> 'o"
    and deliver :: "bytes \<Rightarrow> 'o \<Rightarrow> 'o result"
    and limit :: nat
  assumes step_full: "idle st \<Longrightarrow> deliver f (out st) = Inr w \<Longrightarrow>
      \<exists>st'. step st pos FULL f = Inr st' \<and> idle st' \<and> out st' = w"
    and step_first: "idle st \<Longrightarrow> length f \<le> limit \<Longrightarrow>
      \<exists>st'. step st pos FIRST f = Inr st' \<and> busy st' pos f \<and> out st' = out st"
    and step_middle: "busy st p l \<Longrightarrow> length l + length f \<le> limit \<Longrightarrow>
      \<exists>st'. step st pos MIDDLE f = Inr st' \<and> busy st' p (l @ f) \<and> out st' = out st"
    and step_last: "busy st p l \<Longrightarrow> length l + length f \<le> limit \<Longrightarrow>
      deliver (l @ f) (out st) = Inr w \<Longrightarrow>
      \<exists>st'. step st pos LAST f = Inr st' \<and> idle st' \<and> out st' = w"
begin

lemma busy_frame:
  assumes "busy st p l" "r \<noteq> []" "length l + length r \<le> limit" "off \<le> BLOCK_BYTES" "off \<le> pos"
    and "deliver (l @ r) (out st) = Inr w"
  shows "\<exists>st'. idle st' \<and> out st' = w \<and> (\<forall>rest.
    scan lib ctx step pos off (fst (frame_record lib off False r) @ rest) st =
    scan lib ctx step (pos + length (fst (frame_record lib off False r)))
      (snd (frame_record lib off False r)) rest st')"
  using assms
proof (induction "2 * length r + (if off = BLOCK_BYTES - HEADER_BYTES then 1 else 0)"
    arbitrary: st l r off pos rule: less_induct)
  case less
  define n where "n = min (BLOCK_BYTES - pad_offset off - HEADER_BYTES) (length r)"
  define f where "f = take n r"
  let ?o = "pad_offset off + HEADER_BYTES + n" and ?p = "pos + pad_length off"
  let ?p' = "?p + HEADER_BYTES + n"
  note fr = frame_record_Cons [OF less.prems(2) n_def, of lib False, folded f_def]
  have lf: "length f = n" by (simp add: f_def n_def)
  have fit: "pad_offset off + HEADER_BYTES + length f \<le> BLOCK_BYTES"
    using pad_offset_le [of off] by (auto simp: lf n_def)
  note hd = scan_framed [OF less.prems(4,5) fit, of lib ctx step _ _ st, unfolded lf]
  show ?case
  proof (cases "n = length r")
    case True
    with less.prems step_last [of st p l f w ?p] obtain st' where
      "step st ?p LAST f = Inr st'" "idle st'" "out st' = w" by (auto simp: f_def)
    with True show ?thesis by (auto simp: fr hd fragment_type_of_def lf add.assoc)
  next
    case False
    then have nlt: "n < length r" by (simp add: n_def)
    with less.prems step_middle [of st p l f ?p] obtain st' where
      st': "step st ?p MIDDLE f = Inr st'" "busy st' p (l @ f)" "out st' = out st"
      by (auto simp: lf)
    have dec: "2 * length (drop n r) + (if ?o = BLOCK_BYTES - HEADER_BYTES then 1 else 0)
      < 2 * length r + (if off = BLOCK_BYTES - HEADER_BYTES then 1 else 0)"
      by (rule frame_record_measure [OF less.prems(2) n_def])
    have "drop n r \<noteq> []" "length (l @ f) + length (drop n r) \<le> limit" "?o \<le> BLOCK_BYTES"
      "?o \<le> ?p'" "deliver ((l @ f) @ drop n r) (out st') = Inr w"
      using less.prems nlt fit st'(3) lf pad_offset_pos [OF less.prems(5)] by (simp_all add: f_def)
    from less.hyps [OF dec st'(2) this]
    obtain st'' where "idle st''" "out st'' = w" "\<forall>rest.
      scan lib ctx step ?p' ?o (fst (frame_record lib ?o False (drop n r)) @ rest) st' =
      scan lib ctx step (?p' + length (fst (frame_record lib ?o False (drop n r))))
        (snd (frame_record lib ?o False (drop n r))) rest st''"
      by blast
    with False st' show ?thesis
      by (intro exI [of _ st'']) (simp add: fr hd fragment_type_of_def lf add.assoc)
  qed
qed

lemma busy_cut:
  assumes "busy st p l" "length l + length r \<le> limit" "off \<le> BLOCK_BYTES" "off \<le> pos"
    and "k < length (fst (frame_record lib off False r))"
  shows "\<exists>st' l' e. busy st' p l' \<and> out st' = out st \<and>
    scan lib ctx step pos off (take k (fst (frame_record lib off False r))) st = Ok (st', e)"
  using assms
proof (induction "2 * length r + (if off = BLOCK_BYTES - HEADER_BYTES then 1 else 0)"
    arbitrary: st l r off pos k rule: less_induct)
  case less
  then have "r \<noteq> []" by auto
  define n where "n = min (BLOCK_BYTES - pad_offset off - HEADER_BYTES) (length r)"
  define f where "f = take n r"
  define ty where "ty = fragment_type_of False (n = length r)"
  let ?o = "pad_offset off + HEADER_BYTES + n" and ?p = "pos + pad_length off"
  let ?p' = "?p + HEADER_BYTES + n" and ?q = "pad_length off + HEADER_BYTES + n"
  define tl where "tl = fst (frame_record lib ?o False (drop n r))"
  note fr = frame_record_Cons [OF \<open>r \<noteq> []\<close> n_def, of lib False, folded f_def ty_def tl_def]
  have lf: "length f = n" by (simp add: f_def n_def)
  have fit: "pad_offset off + HEADER_BYTES + length f \<le> BLOCK_BYTES"
    using pad_offset_le [of off] by (auto simp: lf n_def)
  show ?case
  proof (cases "k < ?q")
    case True
    with scan_cut [OF less.prems(3,4) fit, of k lib ctx step ty tl st] less.prems(1) lf
    show ?thesis by (auto simp: fr)
  next
    case False
    then obtain j where k: "k = ?q + j" by (metis le_add_diff_inverse not_less)
    with less.prems(5) have j: "j < length tl" by (simp add: fr lf)
    then have "n \<noteq> length r" by (auto simp: tl_def)
    then have nlt: "n < length r" by (simp add: n_def)
    with less.prems step_middle [of st p l f ?p] obtain st' where
      st': "step st ?p MIDDLE f = Inr st'" "busy st' p (l @ f)" "out st' = out st"
      by (auto simp: lf)
    have hd: "scan lib ctx step pos off (take k (fst (frame_record lib off False r))) st =
        scan lib ctx step ?p' ?o (take j tl) st'"
      using scan_framed [OF less.prems(3,4) fit, of lib ctx step ty "take j tl" st] st'(1) nlt
      by (simp add: fr k lf ty_def fragment_type_of_def)
    have dec: "2 * length (drop n r) + (if ?o = BLOCK_BYTES - HEADER_BYTES then 1 else 0)
      < 2 * length r + (if off = BLOCK_BYTES - HEADER_BYTES then 1 else 0)"
      by (rule frame_record_measure [OF \<open>r \<noteq> []\<close> n_def])
    have "length (l @ f) + length (drop n r) \<le> limit" "?o \<le> BLOCK_BYTES" "?o \<le> ?p'"
      "j < length (fst (frame_record lib ?o False (drop n r)))"
      using less.prems(2) nlt fit lf j [unfolded tl_def] pad_offset_pos [OF less.prems(4)] by simp_all
    note IH = less.hyps [OF dec st'(2) this, folded tl_def]
    then obtain st2 l2 e where "busy st2 p l2" "out st2 = out st'"
      "scan lib ctx step ?p' ?o (take j tl) st' = Ok (st2, e)" by (elim exE conjE)
    with hd st'(3) have "busy st2 p l2 \<and> out st2 = out st \<and>
      scan lib ctx step pos off (take k (fst (frame_record lib off False r))) st = Ok (st2, e)"
      by (simp only: simp_thms)
    then show ?thesis by blast
  qed
qed

text \<open>One record read by an idle reader: complete, or cut short by the end of the file.\<close>

lemma idle_frame:
  assumes "idle st" "r \<noteq> []" "length r \<le> limit" "off \<le> BLOCK_BYTES" "off \<le> pos"
    and "deliver r (out st) = Inr w"
  shows "\<exists>st'. idle st' \<and> out st' = w \<and> (\<forall>rest.
    scan lib ctx step pos off (fst (frame_record lib off True r) @ rest) st =
    scan lib ctx step (pos + length (fst (frame_record lib off True r)))
      (snd (frame_record lib off True r)) rest st')"
proof -
  define n where "n = min (BLOCK_BYTES - pad_offset off - HEADER_BYTES) (length r)"
  define f where "f = take n r"
  let ?o = "pad_offset off + HEADER_BYTES + n" and ?p = "pos + pad_length off"
  let ?p' = "?p + HEADER_BYTES + n"
  note fr = frame_record_Cons [OF assms(2) n_def, of lib True, folded f_def]
  have lf: "length f = n" by (simp add: f_def n_def)
  have fit: "pad_offset off + HEADER_BYTES + length f \<le> BLOCK_BYTES"
    using pad_offset_le [of off] by (auto simp: lf n_def)
  note hd = scan_framed [OF assms(4,5) fit, of lib ctx step _ _ st, unfolded lf]
  show ?thesis
  proof (cases "n = length r")
    case True
    with assms step_full [of st f w ?p] obtain st' where
      "step st ?p FULL f = Inr st'" "idle st'" "out st' = w" by (auto simp: f_def)
    with True show ?thesis by (auto simp: fr hd fragment_type_of_def lf add.assoc)
  next
    case False
    then have nlt: "n < length r" by (simp add: n_def)
    with assms step_first [of st f ?p] obtain st' where
      st': "step st ?p FIRST f = Inr st'" "busy st' ?p f" "out st' = out st" by (auto simp: lf)
    from busy_frame [OF st'(2), of "drop n r" ?o ?p' w lib ctx] assms nlt fit st'(3) lf
      pad_offset_pos [OF assms(5)]
    obtain st'' where "idle st''" "out st'' = w" "\<forall>rest.
      scan lib ctx step ?p' ?o (fst (frame_record lib ?o False (drop n r)) @ rest) st' =
      scan lib ctx step (?p' + length (fst (frame_record lib ?o False (drop n r))))
        (snd (frame_record lib ?o False (drop n r))) rest st''"
      by (auto simp: f_def)
    with False st' show ?thesis
      by (intro exI [of _ st'']) (simp add: fr hd fragment_type_of_def lf add.assoc)
  qed
qed

lemma idle_cut:
  assumes "idle st" "length r \<le> limit" "off \<le> BLOCK_BYTES" "off \<le> pos"
    and "k < length (fst (frame_record lib off True r))"
  shows "\<exists>st' e. out st' = out st \<and>
    scan lib ctx step pos off (take k (fst (frame_record lib off True r))) st = Ok (st', e) \<and>
    (idle st' \<and> e \<in> {pos, pos + pad_length off} \<and> e \<le> pos + k \<or>
     (\<exists>l. busy st' (pos + pad_length off) l) \<and> pad_length off \<le> k)"
proof -
  from assms have "r \<noteq> []" by auto
  define n where "n = min (BLOCK_BYTES - pad_offset off - HEADER_BYTES) (length r)"
  define f where "f = take n r"
  define ty where "ty = fragment_type_of True (n = length r)"
  let ?o = "pad_offset off + HEADER_BYTES + n" and ?p = "pos + pad_length off"
  let ?p' = "?p + HEADER_BYTES + n" and ?q = "pad_length off + HEADER_BYTES + n"
  define tl where "tl = fst (frame_record lib ?o False (drop n r))"
  note fr = frame_record_Cons [OF \<open>r \<noteq> []\<close> n_def, of lib True, folded f_def ty_def tl_def]
  have lf: "length f = n" by (simp add: f_def n_def)
  have fit: "pad_offset off + HEADER_BYTES + length f \<le> BLOCK_BYTES"
    using pad_offset_le [of off] by (auto simp: lf n_def)
  show ?thesis
  proof (cases "k < ?q")
    case True
    with scan_cut [OF assms(3,4) fit, of k lib ctx step ty tl st] assms(1) lf
    show ?thesis by (auto simp: fr)
  next
    case False
    then obtain j where k: "k = ?q + j" by (metis le_add_diff_inverse not_less)
    with assms(5) have j: "j < length tl" by (simp add: fr lf)
    then have "n \<noteq> length r" by (auto simp: tl_def)
    then have nlt: "n < length r" by (simp add: n_def)
    with assms step_first [of st f ?p] obtain st' where
      st': "step st ?p FIRST f = Inr st'" "busy st' ?p f" "out st' = out st" by (auto simp: lf)
    have hd: "scan lib ctx step pos off (take k (fst (frame_record lib off True r))) st =
        scan lib ctx step ?p' ?o (take j tl) st'"
      using scan_framed [OF assms(3,4) fit, of lib ctx step ty "take j tl" st] st'(1) nlt
      by (simp add: fr k lf ty_def fragment_type_of_def)
    have "pad_length off \<le> k" using k by simp
    with busy_cut [OF st'(2), of "drop n r" ?o ?p' j lib ctx] assms nlt fit lf j
      pad_offset_pos [OF assms(4)]
    show ?thesis by (auto simp: hd st'(3) tl_def f_def)
  qed
qed

text \<open>A whole log, followed by anything.\<close>

lemma log_frame:
  assumes "idle st" "\<forall>r \<in> set rs. r \<noteq> [] \<and> length r \<le> limit" "off \<le> BLOCK_BYTES" "off \<le> pos"
    and "deliver_all deliver rs (out st) = Inr w"
  shows "\<exists>st'. idle st' \<and> out st' = w \<and> (\<forall>rest.
    scan lib ctx step pos off (fst (frame_log lib off rs) @ rest) st =
    scan lib ctx step (pos + length (fst (frame_log lib off rs))) (snd (frame_log lib off rs)) rest st')"
  using assms
proof (induction rs arbitrary: st off pos)
  case Nil
  then show ?case by auto
next
  case (Cons r rs)
  from Cons.prems(5) obtain v where v: "deliver r (out st) = Inr v" "deliver_all deliver rs v = Inr w"
    by (auto simp: rbind_Ok_iff)
  let ?f = "frame_record lib off True r"
  from idle_frame [OF Cons.prems(1) _ _ Cons.prems(3,4) v(1), of lib ctx] Cons.prems(2)
  obtain st1 where st1: "idle st1" "out st1 = v" "\<forall>rest.
    scan lib ctx step pos off (fst ?f @ rest) st = scan lib ctx step (pos + length (fst ?f)) (snd ?f) rest st1"
    by auto
  have "snd ?f \<le> pos + length (fst ?f)"
    using frame_record_offset_bound [OF Cons.prems(3), of lib True r] Cons.prems(4) by simp
  from Cons.IH [OF st1(1) _ frame_record_offset_le [OF Cons.prems(3)] this] Cons.prems(2) v(2) st1(2)
  obtain st2 where "idle st2" "out st2 = w" "\<forall>rest.
    scan lib ctx step (pos + length (fst ?f)) (snd ?f) (fst (frame_log lib (snd ?f) rs) @ rest) st1 =
    scan lib ctx step (pos + length (fst ?f) + length (fst (frame_log lib (snd ?f) rs)))
      (snd (frame_log lib (snd ?f) rs)) rest st2"
    by auto
  with st1(3) show ?case
    by (intro exI [of _ st2]) (simp add: Let_def case_prod_beta add.assoc)
qed

theorem replay_complete:
  assumes "idle st" "\<forall>r \<in> set rs. r \<noteq> [] \<and> length r \<le> limit"
    and "deliver_all deliver rs (out st) = Inr w"
  shows "\<exists>st'. idle st' \<and> out st' = w \<and>
    replay_log lib ctx step st (fst (frame_log lib 0 rs)) = Ok (st', length (fst (frame_log lib 0 rs)))"
proof -
  let ?l = "frame_log lib 0 rs"
  from log_frame [OF assms(1,2) _ _ assms(3), of 0 0 lib ctx] obtain st' where
    st': "idle st'" "out st' = w" "scan lib ctx step 0 0 (fst ?l) st = scan lib ctx step (length (fst ?l)) (snd ?l) [] st'"
    by (auto dest: spec [of _ "[]"])
  have "scan lib ctx step (length (fst ?l)) (snd ?l) [] st' = Ok (st', length (fst ?l))"
    using frame_log_offset_bound [of 0 lib rs] by (intro scan_short) (simp_all add: HEADER_BYTES_def)
  with st' show ?thesis by (auto simp: replay_log_scan)
qed

theorem replay_torn:
  assumes "idle st" "\<forall>r \<in> set (rs @ [r]). r \<noteq> [] \<and> length r \<le> limit"
    and "deliver_all deliver rs (out st) = Inr w"
    and "frame_log lib 0 rs = (log, off)" "k < length (fst (frame_record lib off True r))"
  shows "\<exists>st' e. out st' = w \<and>
    replay_log lib ctx step st (log @ take k (fst (frame_record lib off True r))) = Ok (st', e) \<and>
    (idle st' \<and> e \<in> {length log, length log + pad_length off} \<and> e \<le> length log + k \<or>
     (\<exists>l. busy st' (length log + pad_length off) l) \<and> pad_length off \<le> k)"
proof -
  from log_frame [OF assms(1) _ _ _ assms(3), of 0 0 lib ctx] assms(2,4) obtain st1 where
    st1: "idle st1" "out st1 = w" "\<And>rest. scan lib ctx step 0 0 (log @ rest) st =
      scan lib ctx step (length log) off rest st1"
    by auto
  have off: "off \<le> BLOCK_BYTES" "off \<le> length log"
    using frame_log_offset_bound [of 0 lib rs] frame_log_offset_le [of 0 lib rs] assms(4) by simp_all
  from idle_cut [OF st1(1) _ off assms(5), of ctx] assms(2) st1 show ?thesis
    by (auto simp: replay_log_scan)
qed

end

end
