(* ===== verification/Write_Batch.thy ===== *)
theory Write_Batch
  imports Meteor_Prelude
begin

text \<open>
  Write batches and their binary form in the write-ahead log (\<open>batch.rs\<close>).  The builder
  methods keep the payload byte count exact and panic only when it overflows; the decoder accepts
  exactly the strings the encoder produces from non-empty batches, and it never panics.
\<close>

section \<open>Batches\<close>

datatype write_op =
    Put (op_key: bytes) (op_value: bytes) (expires_at_unix_ms: "u64 option")
  | Delete (op_key: bytes)

record write_batch =
  wb_operations :: "write_op list"
  wb_approximate_bytes :: usize

definition BATCH_FORMAT_VERSION :: u8 where "BATCH_FORMAT_VERSION = 1"
definition MAX_WRITE_BATCH_OPERATIONS :: usize where "MAX_WRITE_BATCH_OPERATIONS = 2 ^ 32 - 1"
definition PUT_TAG :: u8 where "PUT_TAG = 1"
definition DELETE_TAG :: u8 where "DELETE_TAG = 2"

definition wb_default :: write_batch where
  "wb_default = \<lparr>wb_operations = [], wb_approximate_bytes = 0\<rparr>"

definition wb_add_bytes :: "write_batch \<Rightarrow> usize \<Rightarrow> write_batch result" where
  "wb_add_bytes b n = rbind (ok_or (checked_add_usize (wb_approximate_bytes b) n) Panic)
    (\<lambda>total. Ok (b\<lparr>wb_approximate_bytes := total\<rparr>))"

definition wb_push :: "write_batch \<Rightarrow> write_op \<Rightarrow> write_batch" where
  "wb_push b op = b\<lparr>wb_operations := wb_operations b @ [op]\<rparr>"

definition wb_put_with_expiration ::
    "write_batch \<Rightarrow> bytes \<Rightarrow> bytes \<Rightarrow> u64 option \<Rightarrow> write_batch result" where
  "wb_put_with_expiration b key val expires =
    rbind (wb_add_bytes b (length key)) (\<lambda>b.
    rbind (wb_add_bytes b (length val)) (\<lambda>b.
    Ok (wb_push b (Put key val expires))))"

definition wb_put :: "write_batch \<Rightarrow> bytes \<Rightarrow> bytes \<Rightarrow> write_batch result" where
  "wb_put b key val = wb_put_with_expiration b key val None"

definition wb_put_owned :: "write_batch \<Rightarrow> bytes \<Rightarrow> bytes \<Rightarrow> write_batch result" where
  "wb_put_owned b key val =
    rbind (wb_add_bytes b (length key)) (\<lambda>b.
    rbind (wb_add_bytes b (length val)) (\<lambda>b.
    Ok (wb_push b (Put key val None))))"

definition wb_delete :: "write_batch \<Rightarrow> bytes \<Rightarrow> write_batch result" where
  "wb_delete b key = rbind (wb_add_bytes b (length key)) (\<lambda>b. Ok (wb_push b (Delete key)))"

definition wb_len :: "write_batch \<Rightarrow> usize" where
  "wb_len b = length (wb_operations b)"

definition wb_is_empty :: "write_batch \<Rightarrow> bool" where
  "wb_is_empty b = (wb_operations b = [])"

definition wb_projected_put_bytes :: "write_batch \<Rightarrow> bytes \<Rightarrow> bytes \<Rightarrow> usize option" where
  "wb_projected_put_bytes b key val =
    Option.bind (checked_add_usize (wb_approximate_bytes b) (length key))
      (\<lambda>n. checked_add_usize n (length val))"

section \<open>Encoding\<close>

definition encode_length :: "bytes \<Rightarrow> usize \<Rightarrow> bytes result" where
  "encode_length encoded n =
    rbind (ok_or (u32_try_from n) InvalidArgument) (\<lambda>w. Ok (encoded @ u32_to_le w))"

fun encode_op :: "bytes \<Rightarrow> write_op \<Rightarrow> bytes result" where
  "encode_op encoded (Put key val expires) =
    rbind (encode_length (encoded @ [PUT_TAG]) (length key)) (\<lambda>encoded.
    rbind (encode_length encoded (length val)) (\<lambda>encoded.
    Ok ((case expires of
           Some expiration \<Rightarrow> encoded @ [1] @ u64_to_le expiration
         | None \<Rightarrow> encoded @ [0]) @ key @ val)))"
| "encode_op encoded (Delete key) =
    rbind (encode_length (encoded @ [DELETE_TAG]) (length key)) (\<lambda>encoded.
    Ok (encoded @ key))"

fun encode_ops :: "bytes \<Rightarrow> write_op list \<Rightarrow> bytes result" where
  "encode_ops encoded [] = Ok encoded"
| "encode_ops encoded (op # ops) = rbind (encode_op encoded op) (\<lambda>encoded. encode_ops encoded ops)"

definition encode_batch :: "u64 \<Rightarrow> write_batch \<Rightarrow> bytes result" where
  "encode_batch sequence b =
    rbind (ok_or (u32_try_from (wb_len b)) InvalidArgument) (\<lambda>operation_count.
    encode_ops ([BATCH_FORMAT_VERSION] @ u64_to_le sequence @ u32_to_le operation_count)
      (wb_operations b))"

section \<open>Decoding\<close>

record batch_decoder =
  bd_encoded :: bytes
  bd_position :: usize

definition bd_new :: "bytes \<Rightarrow> batch_decoder" where
  "bd_new encoded = \<lparr>bd_encoded = encoded, bd_position = 0\<rparr>"

definition bd_remaining :: "batch_decoder \<Rightarrow> usize" where
  "bd_remaining d = length (bd_encoded d) - bd_position d"

definition bd_read_bytes :: "batch_decoder \<Rightarrow> usize \<Rightarrow> (bytes \<times> batch_decoder) result" where
  "bd_read_bytes d n =
    rbind (ok_or (Option.bind (checked_add_usize (bd_position d) n)
             (\<lambda>e. if e \<le> length (bd_encoded d) then Some e else None))
           (Corruption WalBatchCtx))
    (\<lambda>e. Ok (take (e - bd_position d) (drop (bd_position d) (bd_encoded d)),
             d\<lparr>bd_position := e\<rparr>))"

definition bd_read_u8 :: "batch_decoder \<Rightarrow> (u8 \<times> batch_decoder) result" where
  "bd_read_u8 d = rbind (bd_read_bytes d 1) (\<lambda>(bs, d). Ok (bs ! 0, d))"

definition bd_read_u32 :: "batch_decoder \<Rightarrow> (u32 \<times> batch_decoder) result" where
  "bd_read_u32 d = rbind (bd_read_bytes d 4) (\<lambda>(bs, d). Ok (u32_from_le bs, d))"

definition bd_read_u64 :: "batch_decoder \<Rightarrow> (u64 \<times> batch_decoder) result" where
  "bd_read_u64 d = rbind (bd_read_bytes d 8) (\<lambda>(bs, d). Ok (u64_from_le bs, d))"

definition bd_read_length :: "batch_decoder \<Rightarrow> (usize \<times> batch_decoder) result" where
  "bd_read_length d = rbind (bd_read_u32 d) (\<lambda>(w, d). Ok (unat w, d))"

definition decode_expiration :: "batch_decoder \<Rightarrow> (u64 option \<times> batch_decoder) result" where
  "decode_expiration d = rbind (bd_read_u8 d) (\<lambda>(marker, d).
    if marker = 0 then Ok (None, d)
    else if marker = 1 then rbind (bd_read_u64 d) (\<lambda>(w, d). Ok (Some w, d))
    else Err (Corruption WalBatchCtx))"

definition decode_op :: "batch_decoder \<Rightarrow> write_batch \<Rightarrow> (batch_decoder \<times> write_batch) result" where
  "decode_op d b = rbind (bd_read_u8 d) (\<lambda>(tag, d).
    if tag = PUT_TAG then
      rbind (bd_read_length d) (\<lambda>(key_length, d).
      rbind (bd_read_length d) (\<lambda>(value_length, d).
      rbind (decode_expiration d) (\<lambda>(expiration, d).
      rbind (bd_read_bytes d key_length) (\<lambda>(key, d).
      rbind (bd_read_bytes d value_length) (\<lambda>(val, d).
      rbind (wb_put_with_expiration b key val expiration) (\<lambda>b. Ok (d, b)))))))
    else if tag = DELETE_TAG then
      rbind (bd_read_length d) (\<lambda>(key_length, d).
      rbind (bd_read_bytes d key_length) (\<lambda>(key, d).
      rbind (wb_delete b key) (\<lambda>b. Ok (d, b))))
    else Err (Corruption WalBatchCtx))"

fun decode_ops :: "nat \<Rightarrow> batch_decoder \<Rightarrow> write_batch \<Rightarrow> (batch_decoder \<times> write_batch) result" where
  "decode_ops 0 d b = Ok (d, b)"
| "decode_ops (Suc n) d b = rbind (decode_op d b) (\<lambda>(d, b). decode_ops n d b)"

definition decode_batch :: "bytes \<Rightarrow> (u64 \<times> write_batch) result" where
  "decode_batch encoded =
    rbind (bd_read_u8 (bd_new encoded)) (\<lambda>(version, d).
    if version \<noteq> BATCH_FORMAT_VERSION then Err (UnsupportedFormat WalBatchFormat (ucast version))
    else
      rbind (bd_read_u64 d) (\<lambda>(sequence, d).
      rbind (bd_read_u32 d) (\<lambda>(operation_count, d).
      if operation_count = 0 then Err (Corruption WalBatchCtx)
      else
        rbind (decode_ops (unat operation_count) d wb_default) (\<lambda>(d, b).
        if bd_remaining d \<noteq> 0 then Err (Corruption WalBatchCtx)
        else Ok (sequence, b)))))"

section \<open>The payload count\<close>

fun op_payload :: "write_op \<Rightarrow> nat" where
  "op_payload (Put key val expires) = length key + length val"
| "op_payload (Delete key) = length key"

definition payload :: "write_op list \<Rightarrow> nat" where
  "payload ops = sum_list (map op_payload ops)"

text \<open>The type invariant: the cached count is the payload of the operations.\<close>

definition wf_batch :: "write_batch \<Rightarrow> bool" where
  "wf_batch b \<longleftrightarrow> wb_approximate_bytes b = payload (wb_operations b) \<and> wb_approximate_bytes b \<le> usize_max"

text \<open>Appending one operation, whichever method the caller uses.\<close>

fun wb_push_op :: "write_batch \<Rightarrow> write_op \<Rightarrow> write_batch result" where
  "wb_push_op b (Put key val expires) = wb_put_with_expiration b key val expires"
| "wb_push_op b (Delete key) = wb_delete b key"

definition batch_of :: "write_op list \<Rightarrow> write_batch" where
  "batch_of ops = \<lparr>wb_operations = ops, wb_approximate_bytes = payload ops\<rparr>"

lemma wf_batch_iff: "wf_batch b \<longleftrightarrow> b = batch_of (wb_operations b) \<and> payload (wb_operations b) \<le> usize_max"
  by (cases b) (auto simp: wf_batch_def batch_of_def)

lemma payload_append [simp]: "payload (xs @ ys) = payload xs + payload ys"
  by (simp add: payload_def)

lemma payload_simps [simp]: "payload [] = 0" "payload (x # xs) = op_payload x + payload xs"
  by (simp_all add: payload_def)

lemma wb_push_op_batch_of:
  "wb_push_op (batch_of ops) op =
    (if payload ops + op_payload op \<le> usize_max then Ok (batch_of (ops @ [op])) else Err Panic)"
  by (cases op) (auto simp: batch_of_def wb_put_with_expiration_def wb_delete_def wb_add_bytes_def
      wb_push_def checked_add_usize_def)

lemma batch_of_fields [simp]: "wb_operations (batch_of ops) = ops" "wb_len (batch_of ops) = length ops"
  by (simp_all add: batch_of_def wb_len_def)

lemma batch_of_default: "wb_default = batch_of []"
  by (simp add: wb_default_def batch_of_def)

section \<open>Decoding inverts encoding\<close>

text \<open>The bytes of one operation and the lengths the format can express.\<close>

fun exp_bytes :: "u64 option \<Rightarrow> bytes" where
  "exp_bytes None = [0]"
| "exp_bytes (Some e) = [1] @ u64_to_le e"

fun op_bytes :: "write_op \<Rightarrow> bytes" where
  "op_bytes (Put key val expires) =
    [PUT_TAG] @ u32_to_le (word_of_nat (length key)) @ u32_to_le (word_of_nat (length val)) @
    exp_bytes expires @ key @ val"
| "op_bytes (Delete key) = [DELETE_TAG] @ u32_to_le (word_of_nat (length key)) @ key"

fun op_fits :: "write_op \<Rightarrow> bool" where
  "op_fits (Put key val expires) \<longleftrightarrow> length key < 2 ^ 32 \<and> length val < 2 ^ 32"
| "op_fits (Delete key) \<longleftrightarrow> length key < 2 ^ 32"

definition ops_bytes :: "write_op list \<Rightarrow> bytes" where
  "ops_bytes ops = concat (map op_bytes ops)"

lemma ops_bytes_simps [simp]: "ops_bytes [] = []" "ops_bytes (op # ops) = op_bytes op @ ops_bytes ops"
  by (simp_all add: ops_bytes_def)

lemma encode_op_eq:
  "encode_op acc op = (if op_fits op then Ok (acc @ op_bytes op) else Err InvalidArgument)"
  by (cases op) (auto simp: encode_length_def u32_try_from_def split: option.splits)

lemma encode_ops_eq:
  "encode_ops acc ops = (if \<forall>op \<in> set ops. op_fits op then Ok (acc @ ops_bytes ops) else Err InvalidArgument)"
  by (induction ops arbitrary: acc) (auto simp: encode_op_eq)

lemma encode_batch_eq:
  "encode_batch s b =
    (if wb_len b < 2 ^ 32 \<and> (\<forall>op \<in> set (wb_operations b). op_fits op)
     then Ok ([BATCH_FORMAT_VERSION] @ u64_to_le s @ u32_to_le (word_of_nat (wb_len b)) @
              ops_bytes (wb_operations b))
     else Err InvalidArgument)"
  by (auto simp: encode_batch_def u32_try_from_def encode_ops_eq)

text \<open>A decoder that has consumed \<open>pre\<close> and has \<open>rest\<close> left.\<close>

definition bd_at :: "bytes \<Rightarrow> bytes \<Rightarrow> batch_decoder" where
  "bd_at pre rest = \<lparr>bd_encoded = pre @ rest, bd_position = length pre\<rparr>"

lemma bd_new_at: "bd_new bs = bd_at [] bs"
  by (simp add: bd_new_def bd_at_def)

lemma bd_remaining_at [simp]: "bd_remaining (bd_at pre rest) = length rest"
  by (simp add: bd_remaining_def bd_at_def)

lemma bd_read_bytes_at:
  assumes "length (pre @ rest) \<le> usize_max"
  shows "bd_read_bytes (bd_at pre rest) n =
    (if n \<le> length rest then Ok (take n rest, bd_at (pre @ take n rest) (drop n rest))
     else Err (Corruption WalBatchCtx))"
  using assms by (auto simp: bd_read_bytes_def bd_at_def checked_add_usize_def)

lemma bd_read_int_at:
  assumes "length (pre @ rest) \<le> usize_max"
  shows "bd_read_u8 (bd_at pre rest) =
      (if 1 \<le> length rest then Ok (rest ! 0, bd_at (pre @ take 1 rest) (drop 1 rest))
       else Err (Corruption WalBatchCtx))"
    and "bd_read_u32 (bd_at pre rest) =
      (if 4 \<le> length rest then Ok (u32_from_le (take 4 rest), bd_at (pre @ take 4 rest) (drop 4 rest))
       else Err (Corruption WalBatchCtx))"
    and "bd_read_u64 (bd_at pre rest) =
      (if 8 \<le> length rest then Ok (u64_from_le (take 8 rest), bd_at (pre @ take 8 rest) (drop 8 rest))
       else Err (Corruption WalBatchCtx))"
    and "bd_read_length (bd_at pre rest) =
      (if 4 \<le> length rest
       then Ok (unat (u32_from_le (take 4 rest)), bd_at (pre @ take 4 rest) (drop 4 rest))
       else Err (Corruption WalBatchCtx))"
  using bd_read_bytes_at [OF assms]
  by (auto simp: bd_read_u8_def bd_read_u32_def bd_read_u64_def bd_read_length_def)

text \<open>Each read, as an equation on the input still to be consumed.\<close>

lemma bd_read_bytes_iff:
  assumes "length pre + length rest \<le> usize_max"
  shows "bd_read_bytes (bd_at pre rest) n = Inr (xs, d) \<longleftrightarrow>
    (\<exists>rest'. rest = xs @ rest' \<and> n = length xs \<and> d = bd_at (pre @ xs) rest')"
  using assms by (auto simp: bd_read_bytes_at intro!: exI [of _ "drop n rest"])

lemma bd_read_u8_iff:
  assumes "length pre + length rest \<le> usize_max"
  shows "bd_read_u8 (bd_at pre rest) = Inr (x, d) \<longleftrightarrow>
    (\<exists>rest'. rest = x # rest' \<and> d = bd_at (pre @ [x]) rest')"
  using assms by (cases rest) (auto simp: bd_read_int_at)

lemma bd_read_u32_iff:
  assumes "length pre + length rest \<le> usize_max"
  shows "bd_read_u32 (bd_at pre rest) = Inr (w, d) \<longleftrightarrow>
    (\<exists>rest'. rest = u32_to_le w @ rest' \<and> d = bd_at (pre @ u32_to_le w) rest')"
  using assms by (auto simp: bd_read_int_at u32_le_canonical intro!: exI [of _ "drop 4 rest"])

lemma bd_read_u64_iff:
  assumes "length pre + length rest \<le> usize_max"
  shows "bd_read_u64 (bd_at pre rest) = Inr (w, d) \<longleftrightarrow>
    (\<exists>rest'. rest = u64_to_le w @ rest' \<and> d = bd_at (pre @ u64_to_le w) rest')"
  using assms by (auto simp: bd_read_int_at u64_le_canonical intro!: exI [of _ "drop 8 rest"])

lemma bd_read_length_iff:
  assumes "length pre + length rest \<le> usize_max"
  shows "bd_read_length (bd_at pre rest) = Inr (n, d) \<longleftrightarrow>
    (\<exists>rest'. n < 2 ^ 32 \<and> rest = u32_to_le (word_of_nat n) @ rest' \<and>
      d = bd_at (pre @ u32_to_le (word_of_nat n)) rest')"
  using assms unat_lt2p [where 'a = 32]
  by (auto simp: bd_read_length_def rbind_Ok_iff bd_read_u32_iff unat_of_nat_eq)

lemmas bd_read_iffs = bd_read_bytes_iff bd_read_u8_iff bd_read_u32_iff bd_read_u64_iff
  bd_read_length_iff

lemma decode_expiration_iff:
  assumes "length pre + length rest \<le> usize_max"
  shows "decode_expiration (bd_at pre rest) = Inr (e, d) \<longleftrightarrow>
    (\<exists>rest'. rest = exp_bytes e @ rest' \<and> d = bd_at (pre @ exp_bytes e) rest')"
  using assms
  by (cases e; cases rest)
    (auto simp: decode_expiration_def rbind_Ok_iff bd_read_int_at bd_read_u64_iff u64_le_canonical
      split: if_splits intro!: exI [of _ "drop 8 (tl rest)"])

lemma bd_read_append:
  assumes "length pre + length xs + length rest \<le> usize_max"
  shows "bd_read_bytes (bd_at pre (xs @ rest)) (length xs) = Ok (xs, bd_at (pre @ xs) rest)"
  using assms by (auto simp: bd_read_bytes_iff)

lemma decode_expiration_append:
  assumes "length pre + length (exp_bytes e) + length rest \<le> usize_max"
  shows "decode_expiration (bd_at pre (exp_bytes e @ rest)) = Ok (e, bd_at (pre @ exp_bytes e) rest)"
  using assms by (subst decode_expiration_iff) auto

lemma ex_write_op:
  "(\<exists>op. P op) \<longleftrightarrow> (\<exists>k v e. P (Put k v e)) \<or> (\<exists>k. P (Delete k))"
  by (metis write_op.exhaust)

lemma decode_op_append:
  assumes "length pre + length (op_bytes op) + length rest \<le> usize_max" and "op_fits op"
  shows "decode_op (bd_at pre (op_bytes op @ rest)) b =
    rbind (wb_push_op b op) (\<lambda>b'. Ok (bd_at (pre @ op_bytes op) rest, b'))"
proof (cases op)
  case (Put k v e)
  with assms show ?thesis
    by (simp add: decode_op_def bd_read_int_at unat_of_nat_eq decode_expiration_append bd_read_append)
next
  case (Delete k)
  with assms show ?thesis
    by (simp add: decode_op_def bd_read_int_at unat_of_nat_eq bd_read_append [of _ _ rest]
        PUT_TAG_def DELETE_TAG_def)
qed

lemma decode_op_Ok:
  assumes "length pre + length rest \<le> usize_max" "decode_op (bd_at pre rest) b = Inr (d, b')"
  shows "\<exists>op rest'. op_fits op \<and> rest = op_bytes op @ rest' \<and>
      d = bd_at (pre @ op_bytes op) rest' \<and> wb_push_op b op = Inr b'"
  using assms unfolding ex_write_op
  by (fastforce simp: decode_op_def rbind_Ok_iff bd_read_iffs decode_expiration_iff split: if_splits)

lemma op_payload_le: "op_payload op \<le> length (op_bytes op)"
  by (cases op) auto

lemma payload_le: "payload ops \<le> length (ops_bytes ops)"
  by (induction ops) (auto intro: add_mono op_payload_le)

lemma decode_ops_append:
  assumes "length pre + length (ops_bytes ops) + length rest \<le> usize_max"
    and "\<forall>op \<in> set ops. op_fits op" and "payload done + payload ops \<le> usize_max"
  shows "decode_ops (length ops) (bd_at pre (ops_bytes ops @ rest)) (batch_of done) =
    Ok (bd_at (pre @ ops_bytes ops) rest, batch_of (done @ ops))"
  using assms
  by (induction ops arbitrary: pre "done") (auto simp: decode_op_append wb_push_op_batch_of)

lemma decode_ops_Ok:
  assumes "length pre + length rest \<le> usize_max" "payload done \<le> usize_max"
    and "decode_ops n (bd_at pre rest) (batch_of done) = Inr (d, b)"
  shows "\<exists>ops rest'. length ops = n \<and> (\<forall>op \<in> set ops. op_fits op) \<and> rest = ops_bytes ops @ rest' \<and>
    d = bd_at (pre @ ops_bytes ops) rest' \<and> b = batch_of (done @ ops) \<and>
    payload (done @ ops) \<le> usize_max"
  using assms
proof (induction n arbitrary: pre rest "done")
  case 0
  then show ?case by auto
next
  case (Suc n)
  then obtain d' b' where step: "decode_op (bd_at pre rest) (batch_of done) = Inr (d', b')"
    and more: "decode_ops n d' b' = Inr (d, b)" by (auto simp: rbind_Ok_iff)
  from decode_op_Ok [OF Suc.prems(1) step] obtain op rest' where op: "op_fits op"
    "rest = op_bytes op @ rest'" "d' = bd_at (pre @ op_bytes op) rest'"
    "wb_push_op (batch_of done) op = Inr b'" by blast
  from op(4) have b': "b' = batch_of (done @ [op])" "payload (done @ [op]) \<le> usize_max"
    by (auto simp: wb_push_op_batch_of split: if_splits)
  have "length (pre @ op_bytes op) + length rest' \<le> usize_max"
    using Suc.prems(1) op(2) by simp
  from Suc.IH [OF this b'(2) more [unfolded op(3) b'(1)]] obtain ops rest'' where
    "length ops = n" "\<forall>op \<in> set ops. op_fits op" "rest' = ops_bytes ops @ rest''"
    "d = bd_at (pre @ op_bytes op @ ops_bytes ops) rest''" "b = batch_of (done @ op # ops)"
    "payload (done @ op # ops) \<le> usize_max" by auto
  with op show ?case by (intro exI [of _ "op # ops"] exI [of _ rest'']) auto
qed

lemma bd_read_Err:
  "bd_read_bytes d n = Inl e \<Longrightarrow> e = Corruption WalBatchCtx"
  "bd_read_u8 d = Inl e \<Longrightarrow> e = Corruption WalBatchCtx"
  "bd_read_u32 d = Inl e \<Longrightarrow> e = Corruption WalBatchCtx"
  "bd_read_u64 d = Inl e \<Longrightarrow> e = Corruption WalBatchCtx"
  "bd_read_length d = Inl e \<Longrightarrow> e = Corruption WalBatchCtx"
  "decode_expiration d = Inl e \<Longrightarrow> e = Corruption WalBatchCtx"
  by (auto simp: bd_read_bytes_def bd_read_u8_def bd_read_u32_def bd_read_u64_def
      bd_read_length_def decode_expiration_def result_iffs split: if_splits)

lemma decode_op_Err:
  assumes "length pre + length rest \<le> usize_max" "payload done + length rest \<le> usize_max"
    and "decode_op (bd_at pre rest) (batch_of done) = Inl e"
  shows "e = Corruption WalBatchCtx"
proof -
  have "wb_put_with_expiration (batch_of done) k v x \<noteq> Inl e'"
    if "length k + length v \<le> length rest" for k v x e'
    using that assms(2) wb_push_op_batch_of [of "done" "Put k v x"] by auto
  moreover have "wb_delete (batch_of done) k \<noteq> Inl e'" if "length k \<le> length rest" for k e'
    using that assms(2) wb_push_op_batch_of [of "done" "Delete k"] by auto
  ultimately show ?thesis
    using assms(1,3)
    by (auto simp: decode_op_def rbind_Err_iff bd_read_iffs decode_expiration_iff
        dest: bd_read_Err split: if_splits)
qed

lemma decode_ops_Err:
  assumes "length pre + length rest \<le> usize_max" "payload done + length rest \<le> usize_max"
    and "decode_ops n (bd_at pre rest) (batch_of done) = Inl e"
  shows "e = Corruption WalBatchCtx"
  using assms
proof (induction n arbitrary: pre rest "done")
  case 0
  then show ?case by simp
next
  case (Suc n)
  then consider "decode_op (bd_at pre rest) (batch_of done) = Inl e"
    | d' b' where "decode_op (bd_at pre rest) (batch_of done) = Inr (d', b')"
      "decode_ops n d' b' = Inl e" by (auto simp: rbind_Err_iff)
  then show ?case
  proof cases
    case 1
    with Suc.prems show ?thesis by (blast intro: decode_op_Err)
  next
    case 2
    from decode_op_Ok [OF Suc.prems(1) 2(1)] obtain op rest' where op: "op_fits op"
      "rest = op_bytes op @ rest'" "d' = bd_at (pre @ op_bytes op) rest'"
      "wb_push_op (batch_of done) op = Inr b'" by blast
    then have b': "b' = batch_of (done @ [op])"
      by (auto simp: wb_push_op_batch_of split: if_splits)
    show ?thesis
      using Suc.IH [of "pre @ op_bytes op" rest' "done @ [op]"] Suc.prems(1,2) op 2(2) b'
        op_payload_le [of op] by auto
  qed
qed

section \<open>Correctness of the batch codec\<close>

lemma decode_batch_encode:
  assumes "encode_batch s b = Inr bs" "wf_batch b" "\<not> wb_is_empty b" "length bs \<le> usize_max"
  shows "decode_batch bs = Ok (s, b)"
proof -
  let ?ops = "wb_operations b" and ?n = "word_of_nat (wb_len b) :: u32"
  from assms(1) have n: "wb_len b < 2 ^ 32" and fits: "\<forall>op \<in> set ?ops. op_fits op"
    and bs: "bs = [BATCH_FORMAT_VERSION] @ u64_to_le s @ u32_to_le ?n @ ops_bytes ?ops"
    by (auto simp: encode_batch_eq split: if_splits)
  from assms(2) have b: "b = batch_of ?ops" "payload ?ops \<le> usize_max" by (simp_all add: wf_batch_iff)
  have "?n \<noteq> 0"
    using n assms(3) unat_of_nat_eq [of "wb_len b", where 'a = 32]
    by (auto simp: wb_len_def wb_is_empty_def)
  moreover have "unat ?n = length ?ops" using n by (simp add: unat_of_nat_eq wb_len_def)
  ultimately show ?thesis
    using assms(4) fits b(2) decode_ops_append [of "[BATCH_FORMAT_VERSION] @ u64_to_le s @ u32_to_le ?n" ?ops "[]" "[]"]
    by (simp add: decode_batch_def bd_new_at bs bd_read_int_at batch_of_default b(1) [symmetric])
qed

lemma decode_batch_Ok:
  assumes "decode_batch bs = Inr (s, b)" "length bs \<le> usize_max"
  shows "encode_batch s b = Ok bs" and "wf_batch b" and "\<not> wb_is_empty b"
proof -
  from assms obtain n r d where n: "n \<noteq> 0"
    and bs: "bs = BATCH_FORMAT_VERSION # u64_to_le s @ u32_to_le n @ r"
    and ops: "decode_ops (unat n) (bd_at (BATCH_FORMAT_VERSION # u64_to_le s @ u32_to_le n) r) wb_default = Inr (d, b)"
    and rem: "bd_remaining d = 0"
    by (auto simp: decode_batch_def rbind_Ok_iff bd_new_at bd_read_iffs split: if_splits)
  from decode_ops_Ok [OF _ _ ops [unfolded batch_of_default]] assms(2) obtain os rest' where os:
    "length os = unat n" "\<forall>op \<in> set os. op_fits op" "r = ops_bytes os @ rest'"
    "d = bd_at (BATCH_FORMAT_VERSION # u64_to_le s @ u32_to_le n @ ops_bytes os) rest'"
    "b = batch_of os" "payload os \<le> usize_max" by (auto simp: bs)
  have [simp]: "wb_operations b = os" "wb_len b = unat n" "rest' = []"
    using os rem by (simp_all add: batch_of_def wb_len_def)
  show "encode_batch s b = Ok bs"
    using os bs unat_lt2p [of n] by (simp add: encode_batch_eq)
  show "wf_batch b" using os by (simp add: wf_batch_iff)
  show "\<not> wb_is_empty b" using os(1) n by (auto simp: wb_is_empty_def unat_eq_zero)
qed

lemma decode_batch_Err:
  assumes "decode_batch bs = Inl e" "length bs \<le> usize_max"
  shows "e = Corruption WalBatchCtx \<or> (\<exists>v. v \<noteq> BATCH_FORMAT_VERSION \<and>
    hd bs = v \<and> e = UnsupportedFormat WalBatchFormat (ucast v))"
proof -
  have ops: "decode_ops n (bd_at pre rest) wb_default \<noteq> Inl e'"
    if "e' \<noteq> Corruption WalBatchCtx" "length pre + length rest \<le> usize_max" for n pre rest e'
    using decode_ops_Err [of pre rest "[]" n e'] that by (auto simp: batch_of_default)
  have "\<exists>v. v \<noteq> BATCH_FORMAT_VERSION \<and> hd bs = v \<and> e = UnsupportedFormat WalBatchFormat (ucast v)"
    if "e \<noteq> Corruption WalBatchCtx"
    using assms that
    by (auto simp: decode_batch_def rbind_Err_iff bd_new_at bd_read_iffs ops
        dest: bd_read_Err split: if_splits)
  then show ?thesis by blast
qed

section \<open>Properties\<close>

text \<open>
  C25. The batch decoder accepts exactly the encodings of non-empty batches whose byte count is
  exact: \<open>decode_batch\<close> returns a sequence number and a batch if and only if
  \<open>encode_batch\<close> maps them to this very byte string.
\<close>

theorem decode_batch_iff:
  assumes "length bs \<le> usize_max"
  shows "decode_batch bs = Ok (s, b) \<longleftrightarrow> encode_batch s b = Ok bs \<and> wf_batch b \<and> \<not> wb_is_empty b"
  using assms decode_batch_Ok decode_batch_encode by blast

theorem decode_batch_iff_witness:
  "decode_batch [1, 7, 0, 0, 0, 0, 0, 0, 0, 1, 0, 0, 0, 2, 1, 0, 0, 0, 97] =
    Ok (7, \<lparr>wb_operations = [Delete [97]], wb_approximate_bytes = 1\<rparr>)"
proof -
  have "encode_batch 7 \<lparr>wb_operations = [Delete [97]], wb_approximate_bytes = 1\<rparr> =
    Ok [1, 7, 0, 0, 0, 0, 0, 0, 0, 1, 0, 0, 0, 2, 1, 0, 0, 0, 97]"
    by (simp add: encode_batch_def wb_len_def u32_try_from_def encode_length_def u64_to_le_def
        u32_to_le_def nat_to_le_numeral BATCH_FORMAT_VERSION_def DELETE_TAG_def)
  then show ?thesis
    by (subst decode_batch_iff) (simp_all add: wf_batch_def wb_is_empty_def usize_max_def)
qed



end
