(* ===== verification/Wal.thy ===== *)
theory Wal
  imports Log_Framing Write_Batch Configuration
begin

text \<open>
  The write-ahead log (\<open>wal.rs\<close>): \<open>WalWriter\<close> appends one framed record per batch,
  \<open>replay_wal\<close> returns the complete batches of a segment, and \<open>inspect_wal\<close>
  summarises one.  The framing is that of \<open>Log_Framing\<close>; this theory adds the batch codec,
  the size limits and the filesystem calls.
\<close>

section \<open>Definitions\<close>

definition LOGICAL_HEADER_BYTES :: usize where "LOGICAL_HEADER_BYTES = 1 + 8 + 4"
definition MAX_OPERATION_OVERHEAD_BYTES :: usize where "MAX_OPERATION_OVERHEAD_BYTES = 1 + 4 + 4 + 1 + 8"

record recovered_batch =
  rb_sequence :: u64
  rb_batch :: write_batch

record wal_inspection =
  wi_format_version :: nat
  wi_file_bytes :: nat
  wi_batches :: usize
  wi_operations :: usize
  wi_first_sequence :: "u64 option"
  wi_last_sequence :: "u64 option"

record wal_writer =
  ww_path :: path
  ww_max_batch_bytes :: usize
  ww_max_logical_record_bytes :: usize
  ww_block_offset :: usize

definition encoded_record_limit :: "usize \<Rightarrow> usize result" where
  "encoded_record_limit max_batch_bytes =
    (if max_batch_bytes = 0 then Err InvalidArgument
     else ok_or
       (Option.bind (checked_mul_usize max_batch_bytes MAX_OPERATION_OVERHEAD_BYTES) (\<lambda>overhead.
        Option.bind (checked_add_usize overhead max_batch_bytes) (\<lambda>with_payload.
        checked_add_usize with_payload LOGICAL_HEADER_BYTES)))
       InvalidArgument)"

definition wal_directory :: "path \<Rightarrow> path" where
  "wal_directory path =
    (case path_parent path of
       Some parent \<Rightarrow> if parent \<noteq> [] then parent else [''.'']
     | None \<Rightarrow> [''.''])"

definition wal_create :: "path \<Rightarrow> usize \<Rightarrow> fs \<Rightarrow> wal_writer result \<times> fs" where
  "wal_create path max_batch_bytes fs =
    (case encoded_record_limit max_batch_bytes of
       Inl e \<Rightarrow> (Err e, fs)
     | Inr max_logical_record_bytes \<Rightarrow>
         (case fs_create path fs of
            (Inl k, fs) \<Rightarrow> (Err (Io ''create new WAL'' path k), fs)
          | (Inr handle, fs) \<Rightarrow>
              (case fs_sync_directory (wal_directory path) fs of
                 (Inl k, fs) \<Rightarrow> (Err (Io ''sync WAL directory'' (wal_directory path) k), fs)
               | (Inr _, fs) \<Rightarrow>
                   (Ok \<lparr>ww_path = handle, ww_max_batch_bytes = max_batch_bytes,
                        ww_max_logical_record_bytes = max_logical_record_bytes,
                        ww_block_offset = 0\<rparr>, fs))))"

definition wal_write_logical_record ::
    "crc_lib \<Rightarrow> wal_writer \<Rightarrow> bytes \<Rightarrow> fs \<Rightarrow> unit result \<times> wal_writer \<times> fs" where
  "wal_write_logical_record lib w logical fs =
    (let (r, off, fs) = write_record_loop lib (fs_write_all (ww_path w))
           (Io ''pad WAL block'' (ww_path w)) (Io ''append WAL'' (ww_path w))
           logical 0 True (ww_block_offset w) fs
     in (r, w\<lparr>ww_block_offset := off\<rparr>, fs))"

definition wal_sync :: "wal_writer \<Rightarrow> fs \<Rightarrow> unit result \<times> fs" where
  "wal_sync w fs =
    (case fs_sync_all (ww_path w) fs of
       (Inl k, fs) \<Rightarrow> (Err (Io ''sync WAL'' (ww_path w) k), fs)
     | (Inr _, fs) \<Rightarrow> (Ok (), fs))"

definition wal_append ::
    "crc_lib \<Rightarrow> wal_writer \<Rightarrow> u64 \<Rightarrow> write_batch \<Rightarrow> durability \<Rightarrow> fs \<Rightarrow> unit result \<times> wal_writer \<times> fs" where
  "wal_append lib w sequence batch durability fs =
    (if wb_is_empty batch then (Err InvalidArgument, w, fs)
     else if wb_approximate_bytes batch > ww_max_batch_bytes w then (Err InvalidArgument, w, fs)
     else case encode_batch sequence batch of
       Inl e \<Rightarrow> (Err e, w, fs)
     | Inr logical \<Rightarrow>
         if length logical > ww_max_logical_record_bytes w then (Err InvalidArgument, w, fs)
         else case wal_write_logical_record lib w logical fs of
           (Inl e, w, fs) \<Rightarrow> (Err e, w, fs)
         | (Inr _, w, fs) \<Rightarrow>
             if durability = Sync then (let (r, fs) = wal_sync w fs in (r, w, fs))
             else (Ok (), w, fs))"

definition wal_append_fragment :: "bytes \<Rightarrow> bytes \<Rightarrow> usize \<Rightarrow> bytes result" where
  "wal_append_fragment logical fragment max_logical_record_bytes =
    rbind (ok_or (Option.bind (checked_add_usize (length logical) (length fragment))
             (\<lambda>n. if n \<le> max_logical_record_bytes then Some n else None)) (Corruption WalCtx))
      (\<lambda>_. Ok (logical @ fragment))"

text \<open>\<open>on_record\<close> is the callback of the source with the state it captures.\<close>

definition decode_record ::
    "bytes \<Rightarrow> usize \<Rightarrow> usize \<Rightarrow> (recovered_batch \<Rightarrow> 'a \<Rightarrow> 'a result) \<Rightarrow> 'a \<Rightarrow> 'a result" where
  "decode_record encoded max_batch_bytes max_logical_record_bytes on_record acc =
    (if length encoded > max_logical_record_bytes then Err (Corruption WalCtx)
     else rbind (decode_batch encoded) (\<lambda>(sequence, batch).
       if wb_approximate_bytes batch > max_batch_bytes then Err (Corruption WalCtx)
       else on_record \<lparr>rb_sequence = sequence, rb_batch = batch\<rparr> acc))"

record 'a wal_replay =
  wr_logical :: bytes
  wr_assembling :: bool
  wr_acc :: 'a

text \<open>The \<open>match\<close> on the fragment type in \<open>replay_wal_stream\<close>.\<close>

definition wal_on_fragment ::
    "usize \<Rightarrow> usize \<Rightarrow> (recovered_batch \<Rightarrow> 'a \<Rightarrow> 'a result) \<Rightarrow> 'a wal_replay \<Rightarrow> nat \<Rightarrow> u8 \<Rightarrow> bytes \<Rightarrow>
     'a wal_replay result" where
  "wal_on_fragment max_batch_bytes limit on_record st position fragment_type fragment =
    (if fragment_type = FULL \<and> \<not> wr_assembling st then
       rbind (decode_record fragment max_batch_bytes limit on_record (wr_acc st)) (\<lambda>acc.
       Ok (st\<lparr>wr_acc := acc\<rparr>))
     else if fragment_type = FIRST \<and> \<not> wr_assembling st then
       rbind (wal_append_fragment [] fragment limit) (\<lambda>logical.
       Ok (st\<lparr>wr_logical := logical, wr_assembling := True\<rparr>))
     else if fragment_type = MIDDLE \<and> wr_assembling st then
       rbind (wal_append_fragment (wr_logical st) fragment limit) (\<lambda>logical.
       Ok (st\<lparr>wr_logical := logical\<rparr>))
     else if fragment_type = LAST \<and> wr_assembling st then
       rbind (wal_append_fragment (wr_logical st) fragment limit) (\<lambda>logical.
       rbind (decode_record logical max_batch_bytes limit on_record (wr_acc st)) (\<lambda>acc.
       Ok \<lparr>wr_logical = [], wr_assembling = False, wr_acc = acc\<rparr>))
     else Err (Corruption WalCtx))"

definition replay_wal_stream ::
    "crc_lib \<Rightarrow> path \<Rightarrow> usize \<Rightarrow> (recovered_batch \<Rightarrow> 'a \<Rightarrow> 'a result) \<Rightarrow> 'a \<Rightarrow> fs \<Rightarrow>
     ('a \<times> nat) result \<times> fs" where
  "replay_wal_stream lib path max_batch_bytes on_record acc fs =
    (case encoded_record_limit max_batch_bytes of
       Inl e \<Rightarrow> (Err e, fs)
     | Inr limit \<Rightarrow>
         (case fs_open_read path fs of
            (Inl k, fs) \<Rightarrow> (Err (Io ''read WAL'' path k), fs)
          | (Inr content, fs) \<Rightarrow>
              (rbind (replay_log lib WalCtx (wal_on_fragment max_batch_bytes limit on_record)
                        \<lparr>wr_logical = [], wr_assembling = False, wr_acc = acc\<rparr> content)
                 (\<lambda>(st, _). Ok (wr_acc st, length content)), fs)))"

definition push_recovered :: "recovered_batch \<Rightarrow> recovered_batch list \<Rightarrow> recovered_batch list result" where
  "push_recovered r acc = Ok (acc @ [r])"

definition replay_wal :: "crc_lib \<Rightarrow> path \<Rightarrow> usize \<Rightarrow> fs \<Rightarrow> recovered_batch list result \<times> fs" where
  "replay_wal lib path max_batch_bytes fs =
    (let (r, fs) = replay_wal_stream lib path max_batch_bytes push_recovered [] fs
     in (rbind r (\<lambda>(recovered, _). Ok recovered), fs))"

text \<open>The callback of \<open>inspect_wal_with_fs\<close>: consecutive sequence numbers and checked counts.\<close>

definition inspect_record ::
    "recovered_batch \<Rightarrow> usize \<times> usize \<times> u64 option \<times> u64 option \<Rightarrow>
     (usize \<times> usize \<times> u64 option \<times> u64 option) result" where
  "inspect_record r acc =
    (case acc of (batches, operations, first_sequence, last_sequence) \<Rightarrow>
     rbind (case last_sequence of
              None \<Rightarrow> Ok ()
            | Some previous \<Rightarrow>
                rbind (ok_or (checked_add_u64 previous 1) (Corruption WalCtx)) (\<lambda>expected.
                if rb_sequence r \<noteq> expected then Err (Corruption WalCtx) else Ok ()))
       (\<lambda>_.
     rbind (ok_or (checked_add_usize batches 1) (Corruption WalCtx)) (\<lambda>batches.
     rbind (ok_or (checked_add_usize operations (wb_len (rb_batch r))) (Corruption WalCtx)) (\<lambda>operations.
     Ok (batches, operations,
         (case first_sequence of None \<Rightarrow> Some (rb_sequence r) | Some s \<Rightarrow> Some s),
         Some (rb_sequence r))))))"

definition inspect_wal :: "crc_lib \<Rightarrow> path \<Rightarrow> usize \<Rightarrow> fs \<Rightarrow> wal_inspection result \<times> fs" where
  "inspect_wal lib path max_batch_bytes fs =
    (let (r, fs) = replay_wal_stream lib path max_batch_bytes inspect_record (0, 0, None, None) fs
     in (rbind r (\<lambda>((batches, operations, first_sequence, last_sequence), file_bytes).
           Ok \<lparr>wi_format_version = 1, wi_file_bytes = file_bytes, wi_batches = batches,
                wi_operations = operations, wi_first_sequence = first_sequence,
                wi_last_sequence = last_sequence\<rparr>), fs))"

section \<open>The log as a record log\<close>

interpretation wal_log: record_log "wal_on_fragment max_batch_bytes limit on_record"
    "\<lambda>st. \<not> wr_assembling st" "\<lambda>st p l. wr_assembling st \<and> wr_logical st = l" wr_acc
    "\<lambda>record acc. decode_record record max_batch_bytes limit on_record acc" "min limit usize_max"
  for max_batch_bytes limit :: usize and on_record :: "recovered_batch \<Rightarrow> 'a \<Rightarrow> 'a result"
  by unfold_locales
    (auto simp: wal_on_fragment_def fragment_types wal_append_fragment_def checked_add_usize_def)

lemma encoded_record_limit_Ok:
  "encoded_record_limit n = Inr limit \<Longrightarrow> limit = 19 * n + 13 \<and> limit \<le> usize_max \<and> 0 < n"
  by (auto simp: encoded_record_limit_def result_iffs checked_mul_usize_def checked_add_usize_def
      MAX_OPERATION_OVERHEAD_BYTES_def LOGICAL_HEADER_BYTES_def bind_eq_Some_conv split: if_splits)

text \<open>A batch the writer accepts, as one logical record.\<close>

definition wal_record :: "usize \<Rightarrow> u64 \<times> write_batch \<Rightarrow> bytes \<Rightarrow> bool" where
  "wal_record max_batch_bytes sb enc \<longleftrightarrow>
    wf_batch (snd sb) \<and> \<not> wb_is_empty (snd sb) \<and> wb_approximate_bytes (snd sb) \<le> max_batch_bytes \<and>
    encode_batch (fst sb) (snd sb) = Inr enc \<and> length enc \<le> 19 * max_batch_bytes + 13"

definition recovered :: "u64 \<times> write_batch \<Rightarrow> recovered_batch" where
  "recovered sb = \<lparr>rb_sequence = fst sb, rb_batch = snd sb\<rparr>"

lemma wal_record_nonempty: "wal_record m sb enc \<Longrightarrow> enc \<noteq> []"
  by (auto simp: wal_record_def encode_batch_eq split: if_splits)

lemma decode_record_wal_record:
  assumes "encoded_record_limit m = Inr limit" "wal_record m sb enc"
  shows "decode_record enc m limit on_record acc = on_record (recovered sb) acc"
  using encoded_record_limit_Ok [OF assms(1)] assms(2)
    decode_batch_encode [of "fst sb" "snd sb" enc]
  by (auto simp: decode_record_def wal_record_def recovered_def case_prod_beta)

lemma deliver_wal_records:
  assumes "encoded_record_limit m = Inr limit" "list_all2 (wal_record m) sbs encs"
  shows "deliver_all (\<lambda>r acc. decode_record r m limit push_recovered acc) encs acc =
    Ok (acc @ map recovered sbs)"
  using assms(2)
  by (induction arbitrary: acc rule: list_all2_induct)
    (simp_all add: decode_record_wal_record [OF assms(1)] push_recovered_def)

lemma wal_records_bounded:
  assumes "encoded_record_limit m = Inr limit" "list_all2 (wal_record m) sbs encs"
  shows "\<forall>r \<in> set encs. r \<noteq> [] \<and> length r \<le> min limit usize_max"
proof -
  have single: "enc \<noteq> [] \<and> length enc \<le> min limit usize_max" if "wal_record m sb enc" for sb enc
    using that wal_record_nonempty [OF that] encoded_record_limit_Ok [OF assms(1)]
    by (simp add: wal_record_def)
  from assms(2) show ?thesis by (induction rule: list_all2_induct) (auto dest!: single)
qed

section \<open>Appending\<close>

text \<open>A writer over a linked file that holds exactly the framed records.\<close>

definition wal_holds :: "crc_lib \<Rightarrow> wal_writer \<Rightarrow> fs \<Rightarrow> bytes list \<Rightarrow> bool" where
  "wal_holds lib w fs encs \<longleftrightarrow>
    fs_linked (ww_path w) fs \<and>
    frame_log lib 0 encs = (fs_contents (ww_path w) fs, ww_block_offset w) \<and>
    encoded_record_limit (ww_max_batch_bytes w) = Inr (ww_max_logical_record_bytes w)"

lemma wal_create_holds:
  assumes "fs_mirror fs" "wal_create path m fs = (Inr w, fs')" "butlast path \<noteq> []"
  shows "wal_holds lib w fs' []" and "ww_path w = path" and "ww_max_batch_bytes w = m"
proof -
  have dir: "path \<noteq> []" "wal_directory path = butlast path"
    using assms(3) by (auto simp: wal_directory_def path_parent_def)
  from assms(2) obtain limit h fs1 where l: "encoded_record_limit m = Inr limit"
    and c: "fs_create path fs = (Inr h, fs1)"
    and d: "fs_sync_directory (butlast path) fs1 = (Inr (), fs')"
    and w: "w = \<lparr>ww_path = h, ww_max_batch_bytes = m, ww_max_logical_record_bytes = limit, ww_block_offset = 0\<rparr>"
    by (auto simp: wal_create_def dir split: sum.splits prod.splits)
  have "h = path" using c by (auto simp: fs_create_def split: if_splits)
  with w l fs_create_sync_linked [OF assms(1) dir(1) c d]
  show "wal_holds lib w fs' []" "ww_path w = path" "ww_max_batch_bytes w = m"
    by (simp_all add: wal_holds_def)
qed

lemma wal_create_durable:
  assumes "fs_mirror fs" "wal_create path m fs = (Inr w, fs')" "butlast path \<noteq> []"
    and "ci_durable (fs_image fs) path = None"
  shows "ci_durable (fs_image fs') path = Some []"
proof -
  have dir: "path \<noteq> []" "wal_directory path = butlast path"
    using assms(3) by (auto simp: wal_directory_def path_parent_def)
  from assms(2) obtain h fs1 where c: "fs_create path fs = (Inr h, fs1)"
    and d: "fs_sync_directory (butlast path) fs1 = (Inr (), fs')"
    by (auto simp: wal_create_def dir split: sum.splits prod.splits)
  from fs_create_sync_linked(3) [OF assms(1) dir(1) c d assms(4)] show ?thesis .
qed

lemma wal_append_holds:
  assumes "wal_holds lib w fs encs" "wf_batch b" "wal_append lib w s b d fs = (Inr u, w', fs')"
  shows "\<exists>enc. wal_record (ww_max_batch_bytes w) (s, b) enc \<and> wal_holds lib w' fs' (encs @ [enc]) \<and>
    ww_path w' = ww_path w \<and> ww_max_batch_bytes w' = ww_max_batch_bytes w \<and>
    (d = Sync \<longrightarrow> ci_durable (fs_image fs') (ww_path w) = Some (fs_contents (ww_path w) fs'))"
proof -
  let ?p = "ww_path w" and ?off = "ww_block_offset w"
  from assms(3) obtain enc w1 fs1 where acc: "\<not> wb_is_empty b"
      "wb_approximate_bytes b \<le> ww_max_batch_bytes w" "encode_batch s b = Inr enc"
      "length enc \<le> ww_max_logical_record_bytes w"
    and wr: "wal_write_logical_record lib w enc fs = (Inr (), w1, fs1)"
    and fin: "if d = Sync then wal_sync w1 fs1 = (Inr (), fs') \<and> w' = w1 else fs' = fs1 \<and> w' = w1"
    by (auto simp: wal_append_def split: if_splits sum.splits prod.splits)
  from wr obtain off1 where loop: "write_record_loop lib (fs_write_all ?p) (Io ''pad WAL block'' ?p)
      (Io ''append WAL'' ?p) enc 0 True ?off fs = (Inr (), off1, fs1)" and w1: "w1 = w\<lparr>ww_block_offset := off1\<rparr>"
    by (auto simp: wal_write_logical_record_def split: prod.splits)
  have linked: "fs_linked ?p fs" and log: "frame_log lib 0 encs = (fs_contents ?p fs, ?off)"
    and lim: "encoded_record_limit (ww_max_batch_bytes w) = Inr (ww_max_logical_record_bytes w)"
    using assms(1) by (auto simp: wal_holds_def)
  note ap = linked_file.write_record_appends [OF linked loop]
  have rec: "wal_record (ww_max_batch_bytes w) (s, b) enc"
    using acc assms(2) encoded_record_limit_Ok [OF lim] by (simp add: wal_record_def)
  have "wal_holds lib w1 fs1 (encs @ [enc])"
    using ap log lim by (simp add: wal_holds_def w1 frame_log_snoc)
  with rec w1 fin fs_sync_all_linked [OF ap(3)] show ?thesis
    by (auto simp: wal_sync_def wal_holds_def split: if_splits prod.splits sum.splits)
qed

section \<open>Replaying\<close>

lemma replay_wal_bytes:
  assumes "os_files fs path = Some content" "encoded_record_limit m = Inr limit"
    and "replay_log lib WalCtx (wal_on_fragment m limit push_recovered)
      \<lparr>wr_logical = [], wr_assembling = False, wr_acc = []\<rparr> content = Ok (st, e)"
  shows "fst (replay_wal lib path m fs) = Ok (wr_acc st)"
  using assms by (simp add: replay_wal_def replay_wal_stream_def fs_open_read_def case_prod_beta)

lemma replay_wal_log:
  assumes "encoded_record_limit m = Inr limit" "list_all2 (wal_record m) sbs encs"
    and "os_files fs path = Some (fst (frame_log lib 0 encs))"
  shows "fst (replay_wal lib path m fs) = Ok (map recovered sbs)"
proof -
  have "deliver_all (\<lambda>r acc. decode_record r m limit push_recovered acc) encs [] = Ok (map recovered sbs)"
    using deliver_wal_records [OF assms(1,2), of "[]"] by simp
  from wal_log.replay_complete [of "\<lparr>wr_logical = [], wr_assembling = False, wr_acc = []\<rparr>"
      encs limit m push_recovered "map recovered sbs" lib WalCtx] this
    wal_records_bounded [OF assms(1,2)]
  obtain st where "wr_acc st = map recovered sbs" "replay_log lib WalCtx (wal_on_fragment m limit push_recovered)
      \<lparr>wr_logical = [], wr_assembling = False, wr_acc = []\<rparr> (fst (frame_log lib 0 encs)) =
    Ok (st, length (fst (frame_log lib 0 encs)))" by auto
  with replay_wal_bytes [OF assms(3,1)] show ?thesis by metis
qed

lemma replay_wal_torn:
  assumes "encoded_record_limit m = Inr limit" "list_all2 (wal_record m) sbs encs" "wal_record m sb enc"
    and "frame_log lib 0 encs = (log, off)" "k < length (fst (frame_record lib off True enc))"
    and "os_files fs path = Some (log @ take k (fst (frame_record lib off True enc)))"
  shows "fst (replay_wal lib path m fs) = Ok (map recovered sbs)"
proof -
  have "deliver_all (\<lambda>r acc. decode_record r m limit push_recovered acc) encs [] = Ok (map recovered sbs)"
    using deliver_wal_records [OF assms(1,2), of "[]"] by simp
  moreover have "\<forall>r \<in> set (encs @ [enc]). r \<noteq> [] \<and> length r \<le> min limit usize_max"
    using wal_records_bounded [OF assms(1), of "sbs @ [sb]" "encs @ [enc]"] assms(2,3)
    by (simp add: list_all2_appendI)
  ultimately obtain st e where "wr_acc st = map recovered sbs"
    "replay_log lib WalCtx (wal_on_fragment m limit push_recovered)
      \<lparr>wr_logical = [], wr_assembling = False, wr_acc = []\<rparr>
      (log @ take k (fst (frame_record lib off True enc))) = Ok (st, e)"
    using wal_log.replay_torn [of "\<lparr>wr_logical = [], wr_assembling = False, wr_acc = []\<rparr>"
        encs enc limit m push_recovered "map recovered sbs" lib log off k WalCtx] assms(4,5) by auto
  with replay_wal_bytes [OF assms(6,1)] show ?thesis by metis
qed

section \<open>Crash recovery of a segment\<close>

type_synonym wal_item = "u64 \<times> write_batch \<times> durability"

text \<open>Appends in order until one fails; the result counts the acknowledged ones.\<close>

fun wal_run :: "crc_lib \<Rightarrow> wal_writer \<Rightarrow> wal_item list \<Rightarrow> fs \<Rightarrow> nat \<times> wal_writer \<times> fs" where
  "wal_run lib w [] fs = (0, w, fs)"
| "wal_run lib w ((s, b, d) # items) fs =
    (case wal_append lib w s b d fs of
       (Inl e, w, fs) \<Rightarrow> (0, w, fs)
     | (Inr _, w, fs) \<Rightarrow> (let (n, w, fs) = wal_run lib w items fs in (Suc n, w, fs)))"

text \<open>The length of the shortest prefix that contains every synchronous append.\<close>

definition synced_prefix :: "wal_item list \<Rightarrow> nat" where
  "synced_prefix items = length (dropWhile (\<lambda>(s, b, d). d \<noteq> Sync) (rev items))"

definition item_batch :: "wal_item \<Rightarrow> u64 \<times> write_batch" where
  "item_batch i = (fst i, fst (snd i))"

lemma synced_prefix_Cons:
  "synced_prefix ((s, b, d) # items) =
    (if synced_prefix items \<noteq> 0 then Suc (synced_prefix items) else if d = Sync then 1 else 0)"
  by (auto simp: synced_prefix_def dropWhile_append)

lemma synced_prefix_le: "synced_prefix items \<le> length items"
  using length_dropWhile_le [of _ "rev items"] by (simp add: synced_prefix_def)

lemma wal_append_durable:
  assumes "wal_append lib w s b d fs = (r, w', fs')" "r \<noteq> Inr () \<or> d = Buffered"
  shows "ci_durable (fs_image fs') = ci_durable (fs_image fs)"
proof -
  let ?P = "\<lambda>s. ci_durable (fs_image s) = ci_durable (fs_image fs)"
  have loop: "?P fs1" if "wal_write_logical_record lib w enc fs = (r1, w1, fs1)" for enc r1 w1 fs1
  proof -
    from that obtain off where "write_record_loop lib (fs_write_all (ww_path w)) (Io ''pad WAL block'' (ww_path w))
        (Io ''append WAL'' (ww_path w)) enc 0 True (ww_block_offset w) fs = (r1, off, fs1)"
      by (auto simp: wal_write_logical_record_def split: prod.splits)
    then show ?thesis
      by (rule write_record_loop_keeps [where P = ?P, rotated 2]) (auto dest: fs_write_all_durable)
  qed
  have sync: "?P fs2" if "wal_sync w1 fs1 = (r, fs2)" "r \<noteq> Inr ()" "?P fs1" for w1 fs1 fs2
    using that fs_sync_all_failed by (auto simp: wal_sync_def split: prod.splits sum.splits)
  show ?thesis
    using assms
    by (auto simp: wal_append_def split: if_splits sum.splits prod.splits dest: loop sync)
qed

lemma wal_run_durable:
  assumes "wal_holds lib w fs encs" "\<forall>i \<in> set items. wf_batch (snd (item_batch i))"
    and "wal_run lib w items fs = (n, w', fs')"
    and "ci_durable (fs_image fs) (ww_path w) = Some (fst (frame_log lib 0 base))"
  shows "\<exists>encs'. list_all2 (wal_record (ww_max_batch_bytes w)) (map item_batch (take n items)) encs' \<and>
    ci_durable (fs_image fs') (ww_path w) =
      Some (fst (frame_log lib 0
        (if synced_prefix (take n items) = 0 then base else encs @ take (synced_prefix (take n items)) encs')))"
  using assms
proof (induction items arbitrary: w fs encs n base)
  case Nil
  then show ?case by (auto simp: synced_prefix_def)
next
  case (Cons i items)
  obtain s b d where i: "i = (s, b, d)" by (metis prod_cases3)
  obtain r w1 fs1 where ap: "wal_append lib w s b d fs = (r, w1, fs1)" by (metis prod_cases3)
  show ?case
  proof (cases r)
    case (Inl e)
    with Cons.prems ap i wal_append_durable [OF ap] show ?thesis
      by (intro exI [of _ "[]"]) (auto simp: synced_prefix_def)
  next
    case (Inr u)
    obtain k where run: "wal_run lib w1 items fs1 = (k, w', fs')" and n: "n = Suc k"
      using Cons.prems(3) ap Inr i by (auto split: prod.splits)
    from wal_append_holds [OF Cons.prems(1) _ ap [unfolded Inr]] Cons.prems(2) i
    obtain enc where enc: "wal_record (ww_max_batch_bytes w) (s, b) enc"
      "wal_holds lib w1 fs1 (encs @ [enc])" "ww_path w1 = ww_path w"
      "ww_max_batch_bytes w1 = ww_max_batch_bytes w"
      "d = Sync \<longrightarrow> ci_durable (fs_image fs1) (ww_path w) = Some (fs_contents (ww_path w) fs1)"
      by (auto simp: item_batch_def)
    define base' where "base' = (if d = Sync then encs @ [enc] else base)"
    have "ci_durable (fs_image fs1) (ww_path w1) = Some (fst (frame_log lib 0 base'))"
      using enc wal_append_durable [OF ap] Cons.prems(4)
      by (cases d) (auto simp: base'_def wal_holds_def)
    from Cons.IH [OF enc(2) _ run this] Cons.prems(2) obtain encs' where
      e: "list_all2 (wal_record (ww_max_batch_bytes w1)) (map item_batch (take k items)) encs'"
      "ci_durable (fs_image fs') (ww_path w1) = Some (fst (frame_log lib 0
        (if synced_prefix (take k items) = 0 then base'
         else (encs @ [enc]) @ take (synced_prefix (take k items)) encs')))"
      by auto
    show ?thesis
    proof (intro exI [of _ "enc # encs'"] conjI)
      show "list_all2 (wal_record (ww_max_batch_bytes w)) (map item_batch (take n (i # items))) (enc # encs')"
        using e(1) enc(1,4) n i by (simp add: item_batch_def)
      show "ci_durable (fs_image fs') (ww_path w) = Some (fst (frame_log lib 0
        (if synced_prefix (take n (i # items)) = 0 then base
         else encs @ take (synced_prefix (take n (i # items))) (enc # encs'))))"
        using e(2) enc(3) n i by (auto simp: synced_prefix_Cons base'_def)
    qed
  qed
qed

text \<open>
  C2. Acknowledged synchronous writes survive a crash, and nothing else appears: create a
  segment, append any batches with any durability until an append fails or the process stops at
  any point, crash, and replay.  Replay then returns exactly the acknowledged batches up to the
  last synchronous one, in order, with their sequence numbers.
\<close>

theorem wal_crash_recovery:
  assumes "fs_mirror fs" "butlast path \<noteq> []" "ci_durable (fs_image fs) path = None"
    and "wal_create path m fs = (Ok w, fs0)"
    and "\<forall>i \<in> set items. wf_batch (snd (item_batch i))"
    and "wal_run lib w items fs0 = (n, w', fs')"
  shows "fst (replay_wal lib path m (fs_crash fs')) =
    Ok (map (recovered \<circ> item_batch) (take (synced_prefix (take n items)) items))"
proof -
  note c = wal_create_holds [OF assms(1,4,2)]
  have d: "ci_durable (fs_image fs0) (ww_path w) = Some (fst (frame_log lib 0 []))"
    using wal_create_durable [OF assms(1,4,2,3)] c(2) by simp
  let ?k = "synced_prefix (take n items)"
  from wal_run_durable [OF c(1) assms(5,6) d] obtain encs where
    e: "list_all2 (wal_record m) (map item_batch (take n items)) encs"
    "ci_durable (fs_image fs') path = Some (fst (frame_log lib 0 (take ?k encs)))"
    using c by (auto split: if_splits)
  have "?k \<le> n" using synced_prefix_le [of "take n items"] by simp
  then have k: "take ?k (take n items) = take ?k items" by (simp add: min_absorb1)
  obtain limit where l: "encoded_record_limit m = Inr limit"
    using c(1) [of lib] c(3) by (auto simp: wal_holds_def)
  have "list_all2 (wal_record m) (map item_batch (take ?k items)) (take ?k encs)"
    using list_all2_takeI [OF e(1), of ?k] k by (simp add: take_map)
  from replay_wal_log [OF l this fs_crash_durable [OF e(2)]] show ?thesis by (simp add: comp_def)
qed

definition zero_crc :: crc_lib where
  "zero_crc = \<lparr>crc32c = (\<lambda>_. 0), crc32c_append = (\<lambda>c _. c)\<rparr>"

definition sample_items :: "wal_item list" where
  "sample_items = [(1, batch_of [Delete [97]], Sync), (2, batch_of [Put [97] [98] None], Buffered)]"

lemma sample_create:
  "wal_create [''db'', ''wal''] 100 (fs_failing_at Map.empty 9) =
    (Ok (expect (fst (wal_create [''db'', ''wal''] 100 (fs_failing_at Map.empty 9)))),
     snd (wal_create [''db'', ''wal''] 100 (fs_failing_at Map.empty 9)))"
  by (simp add: wal_create_def encoded_record_limit_def checked_mul_usize_def checked_add_usize_def
      usize_max_def MAX_OPERATION_OVERHEAD_BYTES_def LOGICAL_HEADER_BYTES_def fs_create_def
      fs_failing_at_def fs_recording_def fs_sync_directory_def observe_def track_new_file_def Let_def
      wal_directory_def path_parent_def)

lemma sample_run:
  "fst (wal_run zero_crc (expect (fst (wal_create [''db'', ''wal''] 100 (fs_failing_at Map.empty 9))))
    sample_items (snd (wal_create [''db'', ''wal''] 100 (fs_failing_at Map.empty 9)))) = 2"
  by (simp add: wal_create_def encoded_record_limit_def checked_mul_usize_def checked_add_usize_def
      usize_max_def MAX_OPERATION_OVERHEAD_BYTES_def LOGICAL_HEADER_BYTES_def fs_create_def
      fs_failing_at_def fs_recording_def fs_sync_directory_def observe_def track_new_file_def Let_def
      wal_directory_def path_parent_def sample_items_def wal_append_def wb_is_empty_def
      encode_batch_eq batch_of_def wb_len_def wal_write_logical_record_def write_record_loop.simps
      pad_block_def framing_consts fs_write_all_def record_write_def wal_sync_def fs_sync_all_def
      record_file_sync_def record_directory_sync_def)

theorem wal_crash_recovery_witness:
  "let c = wal_create [''db'', ''wal''] 100 (fs_failing_at Map.empty 9);
       (n, w, fs) = wal_run zero_crc (expect (fst c)) sample_items (snd c)
   in n = 2 \<and> fst (replay_wal zero_crc [''db'', ''wal''] 100 (fs_crash fs)) =
     Ok [\<lparr>rb_sequence = 1, rb_batch = batch_of [Delete [97]]\<rparr>]"
proof -
  let ?c = "wal_create [''db'', ''wal''] 100 (fs_failing_at Map.empty 9)"
  obtain n w fs where run: "wal_run zero_crc (expect (fst ?c)) sample_items (snd ?c) = (n, w, fs)"
    by (metis prod_cases3)
  have n: "n = 2" using sample_run run by simp
  have "fst (replay_wal zero_crc [''db'', ''wal''] 100 (fs_crash fs)) =
    Ok (map (recovered \<circ> item_batch) (take (synced_prefix (take n sample_items)) sample_items))"
    by (rule wal_crash_recovery [OF fs_mirror_init(2) _ _ sample_create _ run])
      (simp_all add: fs_failing_at_def fs_recording_def sample_items_def item_batch_def wf_batch_def
        batch_of_def usize_max_def)
  then show ?thesis
    using run n by (simp add: sample_items_def synced_prefix_def recovered_def item_batch_def)
qed

text \<open>
  C20. A torn tail never loses or invents a batch: let a segment hold the framed records of some
  batches followed by the first \<open>k\<close> bytes of the frame of one more.  Replay returns the complete
  batches, and the last one exactly when all of its bytes are present, for every \<open>k\<close> and every
  position of the block boundaries.
\<close>

theorem wal_torn_tail:
  assumes "encoded_record_limit m = Ok limit"
    and "list_all2 (wal_record m) sbs encs" "wal_record m sb enc"
    and "frame_log lib 0 encs = (log, off)"
    and "os_files fs path = Some (log @ take k (fst (frame_record lib off True enc)))"
  shows "fst (replay_wal lib path m fs) =
    Ok (map recovered (if k < length (fst (frame_record lib off True enc)) then sbs else sbs @ [sb]))"
proof (cases "k < length (fst (frame_record lib off True enc))")
  case True
  then show ?thesis using replay_wal_torn [OF assms(1-4) True assms(5)] by simp
next
  case False
  have "os_files fs path = Some (fst (frame_log lib 0 (encs @ [enc])))"
    using False assms(4,5) by (simp add: frame_log_snoc)
  with replay_wal_log [OF assms(1), of "sbs @ [sb]" "encs @ [enc]"] assms(2,3) False
  show ?thesis by (simp add: list_all2_appendI)
qed

theorem wal_torn_tail_witness:
  "fst (replay_wal zero_crc [''wal''] 100 (fs_recording [[''wal''] \<mapsto>
      take 9 (fst (frame_record zero_crc 0 True (expect (encode_batch 1 (batch_of [Delete [97]])))))])) =
    Ok (map recovered (if 9 < length (fst (frame_record zero_crc 0 True
      (expect (encode_batch 1 (batch_of [Delete [97]]))))) then [] else [] @ [(1, batch_of [Delete [97]])]))"
proof (rule wal_torn_tail [where encs = "[]" and log = "[]" and off = 0])
  show "encoded_record_limit 100 = Ok 1913"
    by (simp add: encoded_record_limit_def checked_mul_usize_def checked_add_usize_def
      usize_max_def MAX_OPERATION_OVERHEAD_BYTES_def LOGICAL_HEADER_BYTES_def)
  show "wal_record 100 (1, batch_of [Delete [97]]) (expect (encode_batch 1 (batch_of [Delete [97]])))"
    by (simp add: wal_record_def wf_batch_def wb_is_empty_def encode_batch_eq batch_of_def wb_len_def usize_max_def)
qed (simp_all add: fs_recording_def)

end
