(* ===== verification/Mvcc.thy ===== *)
theory Mvcc
  imports Internal_Key
begin

text \<open>
  Value records (\<open>ValueRecord\<close> in \<open>memtable.rs\<close>), their encoding inside SSTables, and
  the multi-version reading rule every source of versions has to follow: a read of a user key at a
  sequence number sees the newest version that is not newer than it.  The locale
  \<open>version_source\<close> is that contract; memtables and SSTables are shown to meet it, and the
  engine's reads are proved from it.
\<close>

section \<open>Value records\<close>

datatype value_record =
    RecordValue (rec_value: bytes) (rec_expires: "u64 option")
  | Tombstone

definition ENGINE_VALUE_MAGIC :: bytes where "ENGINE_VALUE_MAGIC = [0x4d, 0x45, 0x56]"
definition ENGINE_VALUE_VERSION :: u8 where "ENGINE_VALUE_VERSION = 1"
definition VALUE_TAG :: u8 where "VALUE_TAG = 0"
definition TOMBSTONE_TAG :: u8 where "TOMBSTONE_TAG = 1"
definition EXPIRATION_FLAG :: u8 where "EXPIRATION_FLAG = 1"
definition ENGINE_VALUE_HEADER_BYTES :: usize where "ENGINE_VALUE_HEADER_BYTES = 6"

fun as_value :: "value_record \<Rightarrow> bytes option" where
  "as_value (RecordValue v e) = Some v"
| "as_value Tombstone = None"

fun record_expires_at_unix_ms :: "value_record \<Rightarrow> u64 option" where
  "record_expires_at_unix_ms (RecordValue v e) = e"
| "record_expires_at_unix_ms Tombstone = None"

definition encode_engine_value :: "value_record \<Rightarrow> bytes" where
  "encode_engine_value r =
    (let (tag, flags, expiration, val) =
       (case r of
          RecordValue v e \<Rightarrow> (VALUE_TAG, (if e \<noteq> None then 1 else 0) * EXPIRATION_FLAG, e, v)
        | Tombstone \<Rightarrow> (TOMBSTONE_TAG, 0, None, []))
     in ENGINE_VALUE_MAGIC @ [ENGINE_VALUE_VERSION] @ [tag] @ [flags] @
        (case expiration of Some t \<Rightarrow> u64_to_le t | None \<Rightarrow> []) @ val)"

definition decode_sstable_value :: "value_kind \<Rightarrow> bytes \<Rightarrow> bool \<Rightarrow> value_record result" where
  "decode_sstable_value internal_kind encoded engine_encoded =
    (if \<not> engine_encoded then
       Ok (if internal_kind = Deletion then Tombstone else RecordValue encoded None)
     else if length encoded < ENGINE_VALUE_HEADER_BYTES then Err (Corruption EngineValueCtx)
     else if take 3 encoded \<noteq> ENGINE_VALUE_MAGIC then Err (Corruption EngineValueCtx)
     else if encoded ! 3 \<noteq> ENGINE_VALUE_VERSION then Err (Corruption EngineValueCtx)
     else
       let tag = encoded ! 4; flags = encoded ! 5 in
       if flags AND NOT EXPIRATION_FLAG \<noteq> 0 then Err (Corruption EngineValueCtx)
       else if tag = VALUE_TAG then
         if internal_kind \<noteq> Value then Err (Corruption EngineValueCtx)
         else rbind
           (if flags AND EXPIRATION_FLAG = 0 then Ok (None, ENGINE_VALUE_HEADER_BYTES)
            else let e = ENGINE_VALUE_HEADER_BYTES + 8 in
              if e \<le> length encoded
              then Ok (Some (u64_from_le (take 8 (drop ENGINE_VALUE_HEADER_BYTES encoded))), e)
              else Err (Corruption EngineValueCtx))
           (\<lambda>(expires, value_start). Ok (RecordValue (drop value_start encoded) expires))
       else if tag = TOMBSTONE_TAG then
         if internal_kind \<noteq> Deletion then Err (Corruption EngineValueCtx)
         else if flags \<noteq> 0 \<or> length encoded \<noteq> ENGINE_VALUE_HEADER_BYTES then Err (Corruption EngineValueCtx)
         else Ok Tombstone
       else Err (Corruption EngineValueCtx))"

text \<open>The kind of key a record is stored under.\<close>

fun record_kind :: "value_record \<Rightarrow> value_kind" where
  "record_kind (RecordValue v e) = Value"
| "record_kind Tombstone = Deletion"

lemma flag_cases: "(f :: u8) AND NOT 1 = 0 \<longleftrightarrow> f = 0 \<or> f = 1"
proof
  assume f: "f AND NOT 1 = 0"
  have "f = (f AND 1) OR (f AND NOT 1)" by (auto simp: bit_eq_iff bit_simps)
  also have "\<dots> = f AND 1" using f by simp
  also have "\<dots> = of_bool (odd f)" by (simp add: and_one_eq odd_iff_mod_2_eq_one)
  finally show "f = 0 \<or> f = 1" by (cases "odd f") simp_all
qed auto

lemma decode_encode_engine_value:
  "decode_sstable_value (record_kind r) (encode_engine_value r) True = Ok r"
  by (cases r; cases "record_expires_at_unix_ms r")
    (simp_all add: decode_sstable_value_def encode_engine_value_def ENGINE_VALUE_MAGIC_def
      ENGINE_VALUE_VERSION_def VALUE_TAG_def TOMBSTONE_TAG_def EXPIRATION_FLAG_def
      ENGINE_VALUE_HEADER_BYTES_def)

lemma engine_value_shape:
  assumes "\<not> length bs < 6" "take 3 bs = ENGINE_VALUE_MAGIC" "bs ! 3 = ENGINE_VALUE_VERSION"
  shows "bs = ENGINE_VALUE_MAGIC @ [ENGINE_VALUE_VERSION, bs ! 4, bs ! 5] @ drop 6 bs"
proof -
  have "drop 3 bs = [bs ! 3, bs ! 4, bs ! 5] @ drop 6 bs"
    using assms(1) Cons_nth_drop_Suc [of 3 bs] Cons_nth_drop_Suc [of 4 bs] Cons_nth_drop_Suc [of 5 bs]
    by simp
  with assms(2,3) show ?thesis by (metis append_take_drop_id append_Cons append_assoc append_Nil)
qed

lemma decode_engine_value_Ok:
  assumes "decode_sstable_value kd bs True = Inr r"
  shows "record_kind r = kd \<and> encode_engine_value r = bs"
proof -
  from assms have h: "\<not> length bs < 6" "take 3 bs = ENGINE_VALUE_MAGIC" "bs ! 3 = ENGINE_VALUE_VERSION"
    by (auto simp: decode_sstable_value_def ENGINE_VALUE_HEADER_BYTES_def split: if_splits)
  note shape = engine_value_shape [OF h]
  have flag: "bs ! 5 = 0 \<or> bs ! 5 = 1"
    using assms unfolding flag_cases [symmetric]
    by (auto simp: decode_sstable_value_def EXPIRATION_FLAG_def Let_def split: if_splits)
  have le: "u64_to_le (u64_from_le (take 8 (drop 6 bs))) = take 8 (drop 6 bs)" if "14 \<le> length bs"
    using that by (intro u64_le_canonical) simp
  have join: "take 8 (drop 6 bs) @ drop 14 bs = drop 6 bs"
    using append_take_drop_id [of 8 "drop 6 bs"] by simp
  from flag assms shape show ?thesis
    by (elim disjE)
      (auto simp: decode_sstable_value_def encode_engine_value_def ENGINE_VALUE_HEADER_BYTES_def
        EXPIRATION_FLAG_def Let_def rbind_Ok_iff le join split: if_splits)
qed

section \<open>Versions\<close>

type_synonym entry = "internal_key \<times> value_record"

text \<open>Entries in storage order, with well-formed keys whose kind is that of the record.\<close>

definition wf_entry :: "entry \<Rightarrow> bool" where
  "wf_entry e \<longleftrightarrow> wf_key (fst e) \<and> ik_kind (fst e) = record_kind (snd e)"

definition wf_entries :: "entry list \<Rightarrow> bool" where
  "wf_entries es \<longleftrightarrow> bt_sorted ik_encoded es \<and> (\<forall>e \<in> set es. wf_entry e)"

definition visible :: "bytes \<Rightarrow> sequence_number \<Rightarrow> internal_key \<times> 'v \<Rightarrow> bool" where
  "visible u s e \<longleftrightarrow> ik_user_key (fst e) = u \<and> ik_sequence (fst e) \<le> s"

definition newest_visible ::
  "bytes \<Rightarrow> sequence_number \<Rightarrow> (internal_key \<times> 'v) list \<Rightarrow> (internal_key \<times> 'v) option" where
  "newest_visible u s es = find (visible u s) es"

text \<open>The same on a set of versions: the visible entry that comes first in storage order.\<close>

definition is_newest :: "bytes \<Rightarrow> sequence_number \<Rightarrow> entry set \<Rightarrow> entry \<Rightarrow> bool" where
  "is_newest u s E e \<longleftrightarrow> e \<in> E \<and> visible u s e \<and>
    (\<forall>e' \<in> E. visible u s e' \<longrightarrow> ik_encoded (fst e) \<le> ik_encoded (fst e'))"

lemma wf_entries_simps [simp]:
  "wf_entries []"
  "wf_entries (e # es) \<longleftrightarrow> wf_entry e \<and> (\<forall>x \<in> set es. ik_encoded (fst e) < ik_encoded (fst x)) \<and> wf_entries es"
  by (auto simp: wf_entries_def)

lemma newest_visible_simps [simp]:
  "newest_visible u s [] = None"
  "newest_visible u s (e # es) = (if visible u s e then Some e else newest_visible u s es)"
  by (simp_all add: newest_visible_def)

lemma newest_visible_None: "newest_visible u s es = None \<longleftrightarrow> (\<forall>e \<in> set es. \<not> visible u s e)"
  by (induction es) auto

lemma newest_visible_mem: "newest_visible u s es = Some e \<Longrightarrow> e \<in> set es \<and> visible u s e"
  by (induction es) (auto split: if_splits)

lemma newest_visible_Some:
  "wf_entries es \<Longrightarrow> newest_visible u s es = Some e \<longleftrightarrow> is_newest u s (set es) e"
proof (induction es)
  case Nil
  then show ?case by (simp add: is_newest_def)
next
  case (Cons a es)
  show ?case
  proof (cases "visible u s a")
    case True
    with Cons.prems show ?thesis by (auto simp: is_newest_def dest: less_imp_le)
  next
    case False
    with Cons show ?thesis by (auto simp: is_newest_def)
  qed
qed

lemma is_newest_sequence:
  assumes "is_newest u s E e" "e' \<in> E" "visible u s e'" "wf_entry e" "wf_entry e'"
  shows "ik_sequence (fst e') \<le> ik_sequence (fst e)"
proof -
  have "ik_encoded (fst e) \<le> ik_encoded (fst e')" using assms by (simp add: is_newest_def)
  with wf_key_less_iff [of "fst e'" "fst e"] assms show ?thesis
    by (force simp: visible_def is_newest_def wf_entry_def not_less)
qed

text \<open>
  The seek of every point read: the first entry at or after the key with the read's sequence
  number and the least kind, if it belongs to the user key.
\<close>

lemma seek_newest_keys:
  assumes "sorted_wrt (<) (map (\<lambda>e. ik_encoded (fst e)) es)" "\<forall>e \<in> set es. wf_key (fst e)"
    and "ik_try_new u s Deletion = Inr seek"
  shows "(case find (\<lambda>e. ik_encoded seek \<le> ik_encoded (fst e)) es of
      None \<Rightarrow> None | Some e \<Rightarrow> if ik_user_key (fst e) = u then Some e else None) = newest_visible u s es"
proof -
  note sk = ik_try_new_Ok [OF assms(3)]
  have before: "ik_encoded k < ik_encoded seek \<longleftrightarrow>
      ik_user_key k < u \<or> ik_user_key k = u \<and> s < ik_sequence k" if "wf_key k" for k
    using that sk wf_key_less_iff [of k seek]
    by (cases "ik_kind k") (auto simp: less_value_kind_def)
  from assms(1,2) show ?thesis
  proof (induction es)
    case Nil
    then show ?case by simp
  next
    case (Cons e es)
    show ?case
    proof (cases "ik_encoded (fst e) < ik_encoded seek")
      case True
      with Cons before [of "fst e"] show ?thesis by (auto simp: visible_def not_le)
    next
      case False
      have "newest_visible u s es = None" if "u < ik_user_key (fst e)"
      proof -
        have "u < ik_user_key (fst x)" if "x \<in> set es" for x
          using that \<open>u < ik_user_key (fst e)\<close> Cons.prems wf_key_less_iff [of "fst e" "fst x"]
          by (auto dest: less_trans)
        then show ?thesis by (force simp: newest_visible_None visible_def)
      qed
      with False Cons.prems before [of "fst e"] show ?thesis
        by (auto simp: visible_def not_less le_less)
    qed
  qed
qed

lemma seek_newest:
  assumes "wf_entries es" "ik_try_new u s Deletion = Inr seek"
  shows "(case bt_from ik_encoded (ik_encoded seek) es of
      [] \<Rightarrow> None | e # _ \<Rightarrow> if ik_user_key (fst e) = u then Some e else None) = newest_visible u s es"
proof -
  have "sorted_wrt (<) (map (\<lambda>e. ik_encoded (fst e)) es)" "\<forall>e \<in> set es. wf_key (fst e)"
    using assms(1) by (auto simp: wf_entries_def bt_sorted_def sorted_wrt_map wf_entry_def)
  from seek_newest_keys [OF this assms(2)] show ?thesis
    unfolding find_dropWhile bt_from_def comp_def not_le
    by (cases "dropWhile (\<lambda>e. ik_encoded (fst e) < ik_encoded seek) es") (simp_all del: dropWhile_eq_Nil_conv)
qed

text \<open>A source of versions: a memtable or an SSTable.\<close>

locale version_source =
  fixes inv :: "'t \<Rightarrow> bool" and entries :: "'t \<Rightarrow> entry list"
    and lookup :: "'t \<Rightarrow> bytes \<Rightarrow> sequence_number \<Rightarrow> entry option result"
  assumes entries_wf: "inv t \<Longrightarrow> wf_entries (entries t)"
    and lookup_newest: "inv t \<Longrightarrow> s \<le> MAX_SEQUENCE_NUMBER \<Longrightarrow> lookup t u s = Ok (newest_visible u s (entries t))"
begin

text \<open>Versions newer than the read do not matter to it.\<close>

lemma lookup_snapshot:
  assumes "inv t" "inv t'" "s \<le> MAX_SEQUENCE_NUMBER"
    and "{e \<in> set (entries t). visible u s e} = {e \<in> set (entries t'). visible u s e}"
  shows "lookup t u s = lookup t' u s"
proof -
  have "is_newest u s (set (entries t)) = is_newest u s (set (entries t'))"
    using assms(4) unfolding is_newest_def fun_eq_iff by blast
  with newest_visible_Some [OF entries_wf [OF assms(1)], of u s]
    newest_visible_Some [OF entries_wf [OF assms(2)], of u s]
  have "newest_visible u s (entries t) = newest_visible u s (entries t')"
    by (metis option.exhaust)
  with assms show ?thesis by (simp add: lookup_newest)
qed

lemma lookup_found:
  assumes "inv t" "lookup t u s = Inr (Some e)" "s \<le> MAX_SEQUENCE_NUMBER"
  shows "is_newest u s (set (entries t)) e"
  using assms newest_visible_Some [OF entries_wf] by (simp add: lookup_newest)

lemma lookup_absent:
  assumes "inv t" "lookup t u s = Inr None" "s \<le> MAX_SEQUENCE_NUMBER" "e \<in> set (entries t)"
  shows "\<not> visible u s e"
  using assms by (auto simp: lookup_newest newest_visible_None)

end

end
