(* ===== verification/Mem_Table.thy ===== *)
theory Mem_Table
  imports Mvcc Write_Batch
begin

text \<open>
  The memtable (\<open>memtable.rs\<close>): a sorted map from internal keys to value records.  Applying a
  batch stores the last operation of each user key under the batch's sequence number; a lookup is
  the newest version visible at its sequence number.
\<close>

section \<open>Definitions\<close>

record mem_table =
  mt_entries :: "entry list"
  mt_approximate_bytes :: usize

definition mt_default :: mem_table where
  "mt_default = \<lparr>mt_entries = [], mt_approximate_bytes = 0\<rparr>"

fun op_record :: "write_op \<Rightarrow> value_record" where
  "op_record (Put key val expires) = RecordValue val expires"
| "op_record (Delete key) = Tombstone"

text \<open>The map \<open>final_operations\<close> of \<open>apply\<close>.\<close>

fun final_operations :: "write_op list \<Rightarrow> (bytes \<times> value_record) list \<Rightarrow> (bytes \<times> value_record) list" where
  "final_operations [] m = m"
| "final_operations (op # ops) m = final_operations ops (bt_insert (\<lambda>k. k) (op_key op) (op_record op) m)"

fun prepare_entries :: "sequence_number \<Rightarrow> (bytes \<times> value_record) list \<Rightarrow> entry list result" where
  "prepare_entries sequence [] = Ok []"
| "prepare_entries sequence ((user_key, r) # m) =
    rbind (ik_try_new user_key sequence (record_kind r)) (\<lambda>key.
    rbind (prepare_entries sequence m) (\<lambda>prepared. Ok ((key, r) # prepared)))"

definition OPTION_U64_BYTES :: usize where "OPTION_U64_BYTES = 16"

fun record_bytes :: "value_record \<Rightarrow> usize" where
  "record_bytes (RecordValue v e) = length v + OPTION_U64_BYTES"
| "record_bytes Tombstone = 0"

definition mt_insert :: "mem_table \<Rightarrow> entry \<Rightarrow> mem_table" where
  "mt_insert mt e = \<lparr>
    mt_entries = bt_insert ik_encoded (fst e) (snd e) (mt_entries mt),
    mt_approximate_bytes =
      saturating_add_usize (saturating_add_usize (mt_approximate_bytes mt) (length (ik_encoded (fst e))))
        (record_bytes (snd e))\<rparr>"

definition mt_apply :: "mem_table \<Rightarrow> sequence_number \<Rightarrow> write_batch \<Rightarrow> mem_table result" where
  "mt_apply mt sequence batch =
    rbind (prepare_entries sequence (final_operations (wb_operations batch) [])) (\<lambda>prepared.
    Ok (foldl mt_insert mt prepared))"

definition mt_get_entry :: "mem_table \<Rightarrow> bytes \<Rightarrow> sequence_number \<Rightarrow> entry option result" where
  "mt_get_entry mt user_key sequence =
    rbind (ik_try_new user_key sequence Deletion) (\<lambda>seek.
    Ok (case bt_from ik_encoded (ik_encoded seek) (mt_entries mt) of
          [] \<Rightarrow> None
        | e # _ \<Rightarrow> if ik_user_key (fst e) = user_key then Some e else None))"

definition mt_get :: "mem_table \<Rightarrow> bytes \<Rightarrow> sequence_number \<Rightarrow> value_record option result" where
  "mt_get mt user_key sequence =
    rbind (mt_get_entry mt user_key sequence) (\<lambda>e. Ok (map_option snd e))"

definition mt_is_empty :: "mem_table \<Rightarrow> bool" where
  "mt_is_empty mt \<longleftrightarrow> mt_entries mt = []"

definition mt_iter :: "mem_table \<Rightarrow> entry list" where
  "mt_iter mt = mt_entries mt"

definition mt_owned_entries_matching :: "mem_table \<Rightarrow> (internal_key \<Rightarrow> bool) \<Rightarrow> entry list" where
  "mt_owned_entries_matching mt include = filter (\<lambda>e. include (fst e)) (mt_entries mt)"

definition mt_inv :: "mem_table \<Rightarrow> bool" where
  "mt_inv mt \<longleftrightarrow> wf_entries (mt_entries mt)"

section \<open>Memtables are version sources\<close>

interpretation memtable: version_source mt_inv mt_entries mt_get_entry
proof
  fix mt :: mem_table and u s
  assume "mt_inv mt" "s \<le> MAX_SEQUENCE_NUMBER"
  then show "mt_get_entry mt u s = Ok (newest_visible u s (mt_entries mt))"
    using ik_try_new_total [of s u Deletion] seek_newest
    by (fastforce simp: mt_get_entry_def mt_inv_def rbind_Ok_iff)
qed (simp add: mt_inv_def)

section \<open>Applying a batch\<close>

text \<open>The last operation of a batch on a user key.\<close>

fun last_record :: "bytes \<Rightarrow> write_op list \<Rightarrow> value_record option" where
  "last_record u [] = None"
| "last_record u (op # ops) =
    (case last_record u ops of
       Some r \<Rightarrow> Some r
     | None \<Rightarrow> if op_key op = u then Some (op_record op) else None)"

lemma final_operations_get:
  "bt_sorted (\<lambda>k. k) m \<Longrightarrow> bt_sorted (\<lambda>k. k) (final_operations ops m) \<and>
    bt_get (\<lambda>k. k) u (final_operations ops m) =
      (case last_record u ops of Some r \<Rightarrow> Some r | None \<Rightarrow> bt_get (\<lambda>k. k) u m)"
  by (induction ops arbitrary: m) (auto simp: bt_get_bt_insert split: option.splits)

lemma prepare_entries_Ok:
  "prepare_entries s m = Inr es \<Longrightarrow>
    map (\<lambda>e. (ik_user_key (fst e), snd e)) es = m \<and>
    (\<forall>e \<in> set es. wf_entry e \<and> ik_sequence (fst e) = s)"
proof (induction m arbitrary: es)
  case (Cons a m)
  obtain u r where a: "a = (u, r)" by force
  with Cons.prems obtain k es' where k: "ik_try_new u s (record_kind r) = Inr k"
    and es: "prepare_entries s m = Inr es'" "es = (k, r) # es'" by (auto simp: rbind_Ok_iff)
  from Cons.IH [OF es(1)] ik_try_new_Ok [OF k] es(2) a show ?case by (auto simp: wf_entry_def)
qed simp

lemma prepare_entries_total:
  "s \<le> MAX_SEQUENCE_NUMBER \<Longrightarrow> \<exists>es. prepare_entries s m = Inr es"
proof (induction m)
  case (Cons a m)
  obtain u r where "a = (u, r)" by force
  with Cons ik_try_new_total [OF Cons.prems, of u "record_kind r"] show ?case by (auto simp: rbind_Ok_iff)
qed simp

text \<open>Inserting entries whose keys are new.\<close>

lemma mt_insert_inv: "mt_inv mt \<Longrightarrow> wf_entry e \<Longrightarrow> mt_inv (mt_insert mt e)"
proof -
  assume mt: "mt_inv mt" and e: "wf_entry e"
  have "wf_entry x" if "x \<in> set (bt_insert ik_encoded (fst e) (snd e) m)" "\<forall>x \<in> set m. wf_entry x" for x m
    using that
  proof (induction m)
    case (Cons a m)
    then show ?case
      using e wf_key_inject [of "fst e" "fst a"] by (auto simp: wf_entry_def split: if_splits)
  qed (use e in simp)
  with mt show "mt_inv (mt_insert mt e)" by (auto simp: mt_inv_def wf_entries_def mt_insert_def)
qed

lemma bt_insert_new_set:
  "(\<forall>x \<in> set m. f (fst x) \<noteq> f k) \<Longrightarrow> set (bt_insert f k v m) = insert (k, v) (set m)"
  by (induction m) auto

lemma mt_insert_set:
  assumes "\<forall>x \<in> set (mt_entries mt). ik_encoded (fst x) \<noteq> ik_encoded (fst e)"
  shows "set (mt_entries (mt_insert mt e)) = insert e (set (mt_entries mt))"
  using bt_insert_new_set [OF assms] by (simp add: mt_insert_def)

lemma mt_fold_insert:
  assumes "mt_inv mt" "\<forall>e \<in> set es. wf_entry e" "distinct (map (ik_encoded \<circ> fst) es)"
    and "\<forall>e \<in> set es. \<forall>x \<in> set (mt_entries mt). ik_encoded (fst x) \<noteq> ik_encoded (fst e)"
  shows "mt_inv (foldl mt_insert mt es) \<and>
    set (mt_entries (foldl mt_insert mt es)) = set (mt_entries mt) \<union> set es"
  using assms
proof (induction es arbitrary: mt)
  case (Cons e es)
  have s: "set (mt_entries (mt_insert mt e)) = insert e (set (mt_entries mt))"
    using Cons.prems by (intro mt_insert_set) simp
  have "mt_inv (mt_insert mt e)" using Cons.prems by (simp add: mt_insert_inv)
  moreover have "\<forall>x \<in> set es. ik_encoded (fst e) \<noteq> ik_encoded (fst x)" using Cons.prems(3) by force
  ultimately show ?case using Cons.IH [of "mt_insert mt e"] Cons.prems s by auto
qed simp

lemma mt_apply_spec:
  assumes "mt_inv mt" "mt_apply mt s batch = Inr mt'"
    and "\<forall>e \<in> set (mt_entries mt). ik_sequence (fst e) \<noteq> s"
  shows "mt_inv mt'" and "e \<in> set (mt_entries mt') \<longleftrightarrow> e \<in> set (mt_entries mt) \<or>
    wf_entry e \<and> ik_sequence (fst e) = s \<and>
      last_record (ik_user_key (fst e)) (wb_operations batch) = Some (snd e)"
proof -
  let ?m = "final_operations (wb_operations batch) []"
  from assms(2) obtain es where p: "prepare_entries s ?m = Inr es" and mt': "mt' = foldl mt_insert mt es"
    by (auto simp: mt_apply_def rbind_Ok_iff)
  note pe = prepare_entries_Ok [OF p]
  have sorted: "bt_sorted (\<lambda>k. k) ?m"
    and get: "\<And>u. bt_get (\<lambda>k. k) u ?m = last_record u (wb_operations batch)"
    using final_operations_get [of "[]"] by (auto split: option.splits)
  have "distinct (map (ik_user_key \<circ> fst) es)"
  proof -
    have "distinct (map fst ?m)"
      using sorted by (auto simp: bt_sorted_def strict_sorted_iff comp_def)
    moreover have "map fst ?m = map (ik_user_key \<circ> fst) es"
      unfolding conjunct1 [OF pe, symmetric] by simp
    ultimately show ?thesis by simp
  qed
  then have dist: "distinct (map (ik_encoded \<circ> fst) es)"
    using pe wf_key_inject by (fastforce simp: distinct_map inj_on_def wf_entry_def)
  have "\<forall>e \<in> set es. \<forall>x \<in> set (mt_entries mt). ik_encoded (fst x) \<noteq> ik_encoded (fst e)"
    using pe assms(1,3) wf_key_inject by (fastforce simp: mt_inv_def wf_entries_def wf_entry_def)
  from mt_fold_insert [OF assms(1) _ dist this] pe
  have fold: "mt_inv mt'" "set (mt_entries mt') = set (mt_entries mt) \<union> set es" by (simp_all add: mt')
  show "mt_inv mt'" by (rule fold)
  have "e \<in> set es \<longleftrightarrow> wf_entry e \<and> ik_sequence (fst e) = s \<and>
      last_record (ik_user_key (fst e)) (wb_operations batch) = Some (snd e)"
  proof -
    have "last_record u (wb_operations batch) = Some r \<longleftrightarrow> (u, r) \<in> set ?m" for u r
      using bt_get_Some_iff [OF sorted] get by fastforce
    also have "(u, r) \<in> set ?m \<longleftrightarrow> (\<exists>x \<in> set es. ik_user_key (fst x) = u \<and> snd x = r)" for u r
      unfolding conjunct1 [OF pe, symmetric] by auto
    finally have "last_record u (wb_operations batch) = Some r \<longleftrightarrow>
        (\<exists>x \<in> set es. ik_user_key (fst x) = u \<and> snd x = r)" for u r .
    then show ?thesis
      using pe wf_key_eqI by (metis (no_types, lifting) prod.collapse wf_entry_def)
  qed
  with fold show "e \<in> set (mt_entries mt') \<longleftrightarrow> e \<in> set (mt_entries mt) \<or> wf_entry e \<and>
    ik_sequence (fst e) = s \<and> last_record (ik_user_key (fst e)) (wb_operations batch) = Some (snd e)"
    by blast
qed

lemma mt_apply_total:
  "s \<le> MAX_SEQUENCE_NUMBER \<Longrightarrow> \<exists>mt'. mt_apply mt s batch = Inr mt'"
  using prepare_entries_total by (fastforce simp: mt_apply_def rbind_Ok_iff)

lemma mt_get_newest:
  "mt_inv mt \<Longrightarrow> s \<le> MAX_SEQUENCE_NUMBER \<Longrightarrow>
    mt_get mt u s = Ok (map_option snd (newest_visible u s (mt_entries mt)))"
  by (simp add: mt_get_def memtable.lookup_newest)

section \<open>Properties\<close>

text \<open>
  C27. The value encoding of SSTables is exact: decoding accepts a byte string for a key kind if
  and only if it is the encoding of a record of that kind, and returns that record.
\<close>

theorem engine_value_iff:
  "decode_sstable_value kd bs True = Ok r \<longleftrightarrow> record_kind r = kd \<and> encode_engine_value r = bs"
  using decode_engine_value_Ok decode_encode_engine_value by blast

text \<open>
  C21. A memtable lookup returns the newest visible version: for every well-formed table it is the
  stored version of the user key with the greatest sequence number not above the read's, and
  \<open>None\<close> exactly when no version is visible.
\<close>

theorem memtable_get_newest:
  assumes "mt_inv mt" "s \<le> MAX_SEQUENCE_NUMBER"
  shows "\<exists>found. mt_get_entry mt u s = Ok found \<and>
    (case found of
       None \<Rightarrow> \<forall>e \<in> set (mt_entries mt). \<not> visible u s e
     | Some e \<Rightarrow> e \<in> set (mt_entries mt) \<and> visible u s e \<and>
         (\<forall>e' \<in> set (mt_entries mt). visible u s e' \<longrightarrow> ik_sequence (fst e') \<le> ik_sequence (fst e)))"
proof -
  have wf: "wf_entries (mt_entries mt)" using assms(1) by (rule memtable.entries_wf)
  note lk = memtable.lookup_newest [OF assms, of u]
  show ?thesis
  proof (cases "newest_visible u s (mt_entries mt)")
    case None
    with lk show ?thesis by (auto simp: newest_visible_None)
  next
    case (Some e)
    with wf have n: "is_newest u s (set (mt_entries mt)) e" by (simp add: newest_visible_Some)
    with is_newest_sequence [OF n] wf lk Some show ?thesis
      by (auto simp: is_newest_def wf_entries_def)
  qed
qed

definition sample_table :: mem_table where
  "sample_table = expect (mt_apply (expect (mt_apply mt_default 3 (batch_of [Put [107] [1] None])))
    5 (batch_of [Delete [107], Put [108] [2] (Some 77)]))"

lemma mt_default_inv: "mt_inv mt_default"
  by (simp add: mt_inv_def mt_default_def)

lemma sample_table_inv:
  "mt_inv sample_table" and sample_table_sequences: "\<forall>e \<in> set (mt_entries sample_table). ik_sequence (fst e) < 9"
proof -
  have max: "3 \<le> MAX_SEQUENCE_NUMBER" "5 \<le> MAX_SEQUENCE_NUMBER"
    by (simp_all add: MAX_SEQUENCE_NUMBER_def u64_max_def)
  obtain m1 where m1: "mt_apply mt_default 3 (batch_of [Put [107] [1] None]) = Inr m1"
    using mt_apply_total [OF max(1)] by blast
  obtain m2 where m2: "mt_apply m1 5 (batch_of [Delete [107], Put [108] [2] (Some 77)]) = Inr m2"
    using mt_apply_total [OF max(2)] by blast
  have inv1: "mt_inv m1" using mt_apply_spec(1) [OF mt_default_inv m1] by (simp add: mt_default_def)
  have three: "\<forall>e \<in> set (mt_entries m1). ik_sequence (fst e) = 3"
    using mt_apply_spec(2) [OF mt_default_inv m1] by (auto simp: mt_default_def)
  then have "\<forall>e \<in> set (mt_entries m1). ik_sequence (fst e) \<noteq> 5" by simp
  note spec = mt_apply_spec [OF inv1 m2 this]
  from spec(1) m1 m2 show "mt_inv sample_table" by (simp add: sample_table_def)
  from spec(2) three have "\<forall>e \<in> set (mt_entries m2). ik_sequence (fst e) \<in> {3, 5}" by auto
  then show "\<forall>e \<in> set (mt_entries sample_table). ik_sequence (fst e) < 9"
    using m1 m2 by (auto simp: sample_table_def)
qed

theorem memtable_get_newest_witness:
  "\<exists>found. mt_get_entry sample_table [107] 4 = Ok found \<and>
    (case found of
       None \<Rightarrow> \<forall>e \<in> set (mt_entries sample_table). \<not> visible [107] 4 e
     | Some e \<Rightarrow> e \<in> set (mt_entries sample_table) \<and> visible [107] 4 e \<and>
         (\<forall>e' \<in> set (mt_entries sample_table). visible [107] 4 e' \<longrightarrow>
           ik_sequence (fst e') \<le> ik_sequence (fst e)))"
  by (rule memtable_get_newest [OF sample_table_inv]) (simp add: MAX_SEQUENCE_NUMBER_def u64_max_def)

text \<open>
  C22. Applying a batch is atomic in sequence time: when its sequence number is newer than every
  version in the table, reads below it are unchanged, and reads at or above it see the last
  operation of the batch on a key the batch touches and the old version of every other key.
\<close>

theorem memtable_apply_atomic:
  assumes "mt_inv mt" "\<forall>e \<in> set (mt_entries mt). ik_sequence (fst e) < s"
    and "mt_apply mt s batch = Ok mt'" "t \<le> MAX_SEQUENCE_NUMBER"
  shows "mt_inv mt' \<and> mt_get mt' u t =
    (if t < s then mt_get mt u t
     else case last_record u (wb_operations batch) of
            Some r \<Rightarrow> Ok (Some r)
          | None \<Rightarrow> mt_get mt u t)"
proof -
  have ne: "\<forall>e \<in> set (mt_entries mt). ik_sequence (fst e) \<noteq> s" using assms(2) by auto
  note spec = mt_apply_spec [OF assms(1,3) ne]
  show ?thesis
  proof (cases "s \<le> t \<and> last_record u (wb_operations batch) \<noteq> None")
    case True
    then obtain r where r: "last_record u (wb_operations batch) = Some r" by blast
    have "s \<le> MAX_SEQUENCE_NUMBER" using True assms(4) by (blast intro: order_trans)
    from ik_try_new_total [OF this] obtain k where "ik_try_new u s (record_kind r) = Inr k" by blast
    note k = ik_try_new_Ok [OF this]
    have mem: "(k, r) \<in> set (mt_entries mt')" using k r spec(2) [of "(k, r)"] by (simp add: wf_entry_def)
    have "is_newest u t (set (mt_entries mt')) (k, r)"
      unfolding is_newest_def
    proof (intro conjI ballI impI)
      show "visible u t (k, r)" using k True by (simp add: visible_def)
      fix e assume e: "e \<in> set (mt_entries mt')" "visible u t e"
      have "wf_entry e" using e(1) spec(1) by (simp add: mt_inv_def wf_entries_def)
      from spec(2) [of e] e(1) consider "e \<in> set (mt_entries mt)"
        | "ik_sequence (fst e) = s" "last_record (ik_user_key (fst e)) (wb_operations batch) = Some (snd e)"
        by blast
      then show "ik_encoded (fst (k, r)) \<le> ik_encoded (fst e)"
      proof cases
        case 1
        with assms(2) e(2) k \<open>wf_entry e\<close> wf_key_less_iff [of k "fst e"] show ?thesis
          by (auto simp: visible_def wf_entry_def intro: less_imp_le)
      next
        case 2
        with e(2) k r \<open>wf_entry e\<close> wf_key_eqI [of k "fst e"] show ?thesis
          by (auto simp: visible_def wf_entry_def)
      qed
    qed (rule mem)
    with spec(1) newest_visible_Some [of "mt_entries mt'" u t] have "newest_visible u t (mt_entries mt') = Some (k, r)"
      by (simp add: mt_inv_def)
    with True r spec(1) assms(4) show ?thesis by (auto simp: mt_get_newest)
  next
    case False
    have "{e \<in> set (mt_entries mt'). visible u t e} = {e \<in> set (mt_entries mt). visible u t e}"
      using False spec(2) by (auto simp: visible_def)
    from memtable.lookup_snapshot [OF spec(1) assms(1,4) this] have "mt_get mt' u t = mt_get mt u t"
      by (simp add: mt_get_def)
    with False spec(1) show ?thesis by (auto simp: not_less split: option.splits)
  qed
qed

theorem memtable_apply_atomic_witness:
  "mt_get (expect (mt_apply sample_table 9 (batch_of [Put [107] [4] None, Put [107] [6] None]))) [107] 9 =
    Ok (Some (RecordValue [6] None))"
proof -
  have max: "9 \<le> MAX_SEQUENCE_NUMBER"
    by (simp add: MAX_SEQUENCE_NUMBER_def u64_max_def)
  obtain m where m: "mt_apply sample_table 9 (batch_of [Put [107] [4] None, Put [107] [6] None]) = Inr m"
    using mt_apply_total [OF max] by blast
  from memtable_apply_atomic [OF sample_table_inv sample_table_sequences m max, of "[107]"] m show ?thesis by simp
qed

end
