(* ===== verification/Bloom_Filter.thy ===== *)
theory Bloom_Filter
  imports Meteor_Prelude "HOL-Library.Multiset"
begin

text \<open>
  The Bloom filter of SSTables (\<open>bloom.rs\<close>), with its FNV-1a hash and double hashing on
  machine words.  The lemmas describe the bit array by the set of positions that were set.
\<close>

section \<open>Definitions\<close>

definition MINIMUM_FILTER_BITS :: usize where "MINIMUM_FILTER_BITS = 64"
definition MAXIMUM_HASH_FUNCTIONS :: u8 where "MAXIMUM_HASH_FUNCTIONS = 30"

record bloom_filter =
  bf_encoded :: bytes
  bf_bit_count :: usize

fun stable_hash_loop :: "u64 \<Rightarrow> bytes \<Rightarrow> u64" where
  "stable_hash_loop hash [] = hash"
| "stable_hash_loop hash (b # bs) = stable_hash_loop ((hash XOR ucast b) * 0x00000100000001b3) bs"

definition stable_hash :: "bytes \<Rightarrow> u64" where
  "stable_hash bs = stable_hash_loop 0xcbf29ce484222325 bs"

definition probe_bits :: "bytes \<Rightarrow> usize \<Rightarrow> u8 \<Rightarrow> usize list" where
  "probe_bits key bit_count probes =
    (let hash = stable_hash key;
         first = (ucast hash :: u32);
         second = word_rotr 17 (ucast (drop_bit 32 hash) :: u32) OR 1
     in map (\<lambda>probe. unat (first + word_of_nat probe * second) mod bit_count) [0..<unat probes])"

definition set_bit_at :: "bytes \<Rightarrow> usize \<Rightarrow> bytes" where
  "set_bit_at bits b = bits[b div 8 := bits ! (b div 8) OR push_bit (b mod 8) 1]"

definition set_key_bits :: "usize \<Rightarrow> u8 \<Rightarrow> bytes \<Rightarrow> bytes \<Rightarrow> bytes" where
  "set_key_bits bit_count probes key bits = foldl set_bit_at bits (probe_bits key bit_count probes)"

definition key_bits_are_set :: "bytes \<Rightarrow> usize \<Rightarrow> u8 \<Rightarrow> bytes \<Rightarrow> bool" where
  "key_bits_are_set bits bit_count probes key =
    list_all (\<lambda>b. bits ! (b div 8) AND push_bit (b mod 8) 1 \<noteq> 0) (probe_bits key bit_count probes)"

definition checked_bit_count :: "usize \<Rightarrow> usize result" where
  "checked_bit_count byte_count =
    (if byte_count = 0 then Err (Corruption BloomCtx)
     else ok_or (checked_mul_usize byte_count 8) (Corruption BloomCtx))"

definition probe_count :: "u8 \<Rightarrow> u8" where
  "probe_count bits_per_key =
    word_of_nat (max 1 (min (unat MAXIMUM_HASH_FUNCTIONS) (unat bits_per_key * 69 div 100)))"

definition bf_from_keys :: "bytes list \<Rightarrow> u8 \<Rightarrow> bloom_filter result" where
  "bf_from_keys keys bits_per_key =
    (if bits_per_key = 0 then Err InvalidArgument
     else
       rbind (ok_or (checked_mul_usize (length keys) (unat bits_per_key)) InvalidArgument) (\<lambda>requested_bits.
       let bit_count = max requested_bits MINIMUM_FILTER_BITS in
       rbind (ok_or (checked_add_usize bit_count 7) InvalidArgument) (\<lambda>padded.
       let byte_count = padded div 8 in
       rbind (ok_or (checked_mul_usize byte_count 8) InvalidArgument) (\<lambda>bit_count.
       let probes = probe_count bits_per_key;
           bits = foldl (\<lambda>bits key. set_key_bits bit_count probes key bits) (replicate byte_count 0) keys
       in Ok \<lparr>bf_encoded = bits @ [probes], bf_bit_count = bit_count\<rparr>))))"

definition bf_decode :: "bytes \<Rightarrow> bloom_filter result" where
  "bf_decode encoded =
    (if encoded = [] then Err (Corruption BloomCtx)
     else
       let probes = last encoded; bits = butlast encoded in
       rbind (checked_bit_count (length bits)) (\<lambda>bit_count.
       if \<not> (1 \<le> probes \<and> probes \<le> MAXIMUM_HASH_FUNCTIONS) then Err (Corruption BloomCtx)
       else Ok \<lparr>bf_encoded = encoded, bf_bit_count = bit_count\<rparr>))"

definition bf_may_contain :: "bloom_filter \<Rightarrow> bytes \<Rightarrow> bool" where
  "bf_may_contain f key =
    key_bits_are_set (butlast (bf_encoded f)) (bf_bit_count f) (last (bf_encoded f)) key"

section \<open>The bit array\<close>

definition bit_at :: "bytes \<Rightarrow> usize \<Rightarrow> bool" where
  "bit_at bits b \<longleftrightarrow> bit (bits ! (b div 8)) (b mod 8)"

lemma bit_test: "(w :: u8) AND push_bit n 1 \<noteq> 0 \<longleftrightarrow> bit w n"
  by (simp add: bit_iff_and_push_bit_not_eq_0)

lemma key_bits_are_set_iff:
  "key_bits_are_set bits n p key \<longleftrightarrow> (\<forall>b \<in> set (probe_bits key n p). bit_at bits b)"
  unfolding key_bits_are_set_def list_all_iff bit_test bit_at_def ..

lemma length_set_bit_at [simp]: "length (set_bit_at bits b) = length bits"
  by (simp add: set_bit_at_def)

lemma bit_at_set_bit_at:
  assumes "b < 8 * length bits" "c < 8 * length bits"
  shows "bit_at (set_bit_at bits b) c \<longleftrightarrow> c = b \<or> bit_at bits c"
proof -
  have "b div 8 < length bits" using assms by auto
  moreover have "c = b" if "c div 8 = b div 8" "c mod 8 = b mod 8" using that by (metis div_mult_mod_eq)
  ultimately show ?thesis
    by (auto simp: bit_at_def set_bit_at_def nth_list_update bit_simps possible_bit_word)
qed

lemma bit_at_fold_set:
  assumes "\<forall>b \<in> set ps. b < 8 * length bits" "c < 8 * length bits"
  shows "bit_at (foldl set_bit_at bits ps) c \<longleftrightarrow> c \<in> set ps \<or> bit_at bits c"
  using assms
  by (induction ps arbitrary: bits) (auto simp: bit_at_set_bit_at)

lemma length_fold_bits [simp]:
  "length (foldl set_bit_at bits ps) = length bits"
  "length (set_key_bits n p key bits) = length bits"
  "length (foldl (\<lambda>bits key. set_key_bits n p key bits) bits keys) = length bits"
proof -
  show fold: "length (foldl set_bit_at bits ps) = length bits" for ps bits
    by (induction ps arbitrary: bits) auto
  show key: "length (set_key_bits n p key bits) = length bits" for key bits
    by (simp add: set_key_bits_def fold)
  show "length (foldl (\<lambda>bits key. set_key_bits n p key bits) bits keys) = length bits"
    by (induction keys arbitrary: bits) (auto simp: key)
qed

lemma probe_bits_bound: "0 < n \<Longrightarrow> b \<in> set (probe_bits key n p) \<Longrightarrow> b < n"
  by (auto simp: probe_bits_def Let_def)

text \<open>After inserting keys, a bit is set exactly when one of them probes it.\<close>

lemma bit_at_fold_keys:
  assumes "0 < length bits" "n = 8 * length bits" "c < n"
  shows "bit_at (foldl (\<lambda>bits key. set_key_bits n p key bits) bits keys) c \<longleftrightarrow>
    (\<exists>key \<in> set keys. c \<in> set (probe_bits key n p)) \<or> bit_at bits c"
  using assms
proof (induction keys arbitrary: bits)
  case (Cons key keys)
  have b: "\<forall>b \<in> set (probe_bits key n p). b < 8 * length bits"
    using probe_bits_bound Cons.prems by auto
  have bit: "bit_at (set_key_bits n p key bits) c \<longleftrightarrow> c \<in> set (probe_bits key n p) \<or> bit_at bits c"
    using bit_at_fold_set [OF b] Cons.prems by (simp add: set_key_bits_def)
  from Cons.IH [of "set_key_bits n p key bits", unfolded length_fold_bits bit, OF Cons.prems]
  show ?case by auto
qed simp

lemma bit_array_eqI:
  assumes "length xs = length (ys :: bytes)" "\<And>c. c < 8 * length xs \<Longrightarrow> bit_at xs c = bit_at ys c"
  shows "xs = ys"
proof (rule nth_equalityI)
  fix i assume i: "i < length xs"
  have "bit (xs ! i) j = bit (ys ! i) j" if "j < 8" for j
    using assms(2) [of "8 * i + j"] that i by (simp add: bit_at_def)
  then show "xs ! i = ys ! i" by (intro bit_word_eqI) simp
qed (rule assms(1))

lemma bf_from_keys_Ok:
  assumes "bf_from_keys keys b = Inr f"
  obtains n bits where "0 < n" "8 * n \<le> usize_max" "length bits = n"
    "bits = foldl (\<lambda>bits key. set_key_bits (8 * n) (probe_count b) key bits) (replicate n 0) keys"
    "f = \<lparr>bf_encoded = bits @ [probe_count b], bf_bit_count = 8 * n\<rparr>"
    "n = (max (length keys * unat b) 64 + 7) div 8"
proof -
  define m where "m = max (length keys * unat b) 64"
  define n where "n = (m + 7) div 8"
  define bits where
    "bits = foldl (\<lambda>bits key. set_key_bits (8 * n) (probe_count b) key bits) (replicate n 0) keys"
  have "64 \<le> m" by (simp add: m_def)
  then have "0 < n" by (simp add: n_def)
  moreover from assms have "8 * n \<le> usize_max" "f = \<lparr>bf_encoded = bits @ [probe_count b], bf_bit_count = 8 * n\<rparr>"
    unfolding bf_from_keys_def MINIMUM_FILTER_BITS_def Let_def
    by (auto simp: result_iffs checked_mul_usize_def checked_add_usize_def mult.commute bits_def
        m_def [symmetric] n_def [symmetric] split: if_splits)
  moreover have "length bits = n" by (simp add: bits_def)
  ultimately show ?thesis using that bits_def n_def m_def by blast
qed

section \<open>Properties\<close>

lemma probe_count_range: "1 \<le> probe_count b" "probe_count b \<le> MAXIMUM_HASH_FUNCTIONS"
proof -
  let ?n = "max 1 (min 30 (unat b * 69 div 100))"
  have "unat (word_of_nat ?n :: u8) = ?n" by (intro unat_of_nat_eq) simp
  then show "1 \<le> probe_count b" "probe_count b \<le> MAXIMUM_HASH_FUNCTIONS"
    unfolding probe_count_def MAXIMUM_HASH_FUNCTIONS_def word_le_nat_alt by simp_all
qed

lemma bf_from_keys_sound:
  assumes "bf_from_keys keys b = Ok f" "key \<in> set keys"
  shows "bf_decode (bf_encoded f) = Ok f \<and> bf_may_contain f key"
proof -
  from bf_from_keys_Ok [OF assms(1)] obtain n bits where f: "0 < n" "8 * n \<le> usize_max" "length bits = n"
    "bits = foldl (\<lambda>bits key. set_key_bits (8 * n) (probe_count b) key bits) (replicate n 0) keys"
    "f = \<lparr>bf_encoded = bits @ [probe_count b], bf_bit_count = 8 * n\<rparr>" by metis
  have "bit_at bits c" if "c \<in> set (probe_bits key (8 * n) (probe_count b))" for c
    using bit_at_fold_keys [of "replicate n 0" "8 * n" c "probe_count b" keys] that f assms(2)
      probe_bits_bound [OF _ that] by auto
  then have "bf_may_contain f key" using f(5) by (simp add: bf_may_contain_def key_bits_are_set_iff)
  moreover have "bf_decode (bf_encoded f) = Ok f"
    using f(1-3,5) probe_count_range [of b]
    by (auto simp: bf_decode_def checked_bit_count_def checked_mul_usize_def Let_def mult.commute)
  ultimately show ?thesis by simp
qed

text \<open>
  C28. The filter has no false negatives, also after it was stored and read back: for every filter
  built from keys, decoding its bytes gives the same filter, and it answers \<open>true\<close> for every
  one of the keys.
\<close>

theorem bloom_no_false_negatives:
  assumes "bf_from_keys keys b = Ok f" "key \<in> set keys"
  shows "bf_decode (bf_encoded f) = Ok f \<and> bf_may_contain f key"
  using bf_from_keys_sound [OF assms] .

theorem bloom_no_false_negatives_witness:
  "bf_decode (bf_encoded (expect (bf_from_keys [[97], [98, 0]] 10))) = Ok (expect (bf_from_keys [[97], [98, 0]] 10)) \<and>
    bf_may_contain (expect (bf_from_keys [[97], [98, 0]] 10)) [98, 0]"
  by (rule bloom_no_false_negatives [where keys = "[[97], [98, 0]]" and b = 10])
    (simp_all add: bf_from_keys_def checked_mul_usize_def checked_add_usize_def usize_max_def Let_def
      MINIMUM_FILTER_BITS_def)

text \<open>
  C29. The filter does not depend on the order of the keys: two key lists with the same elements,
  counted with multiplicity, give the same bytes.
\<close>

theorem bloom_order_independent:
  assumes "mset keys = mset keys'"
  shows "bf_from_keys keys b = bf_from_keys keys' b"
proof -
  have len: "length keys = length keys'" and set: "set keys = set keys'"
    using assms by (auto dest: mset_eq_length mset_eq_setD)
  let ?fold = "\<lambda>n p keys. foldl (\<lambda>bits key. set_key_bits (n * 8) p key bits) (replicate n 0) keys"
  have "?fold n p keys = ?fold n p keys'" if "0 < n" for n p
    using that bit_at_fold_keys [of "replicate n 0" "n * 8" _ p keys]
      bit_at_fold_keys [of "replicate n 0" "n * 8" _ p keys'] set
    by (intro bit_array_eqI) (auto simp: mult.commute)
  moreover have "0 < (max m MINIMUM_FILTER_BITS + 7) div 8" for m
    using max.cobounded2 [of MINIMUM_FILTER_BITS m] by (simp add: MINIMUM_FILTER_BITS_def div_greater_zero_iff)
  ultimately show ?thesis
    by (auto simp: bf_from_keys_def len checked_add_usize_def checked_mul_usize_def Let_def
        intro!: arg_cong2 [where f = rbind])
qed

theorem bloom_order_independent_witness:
  "bf_from_keys [[97], [98]] 10 = bf_from_keys [[98], [97]] 10"
  by (rule bloom_order_independent) simp

end
