(* ===== verification/Sst_Format.thy ===== *)
theory Sst_Format
  imports Log_Framing
begin

text \<open>
  The primitive encodings of SSTable files (\<open>sstable/format.rs\<close>): unsigned varints, block
  handles and the checksummed envelope of a stored block.  The lemmas show that varints and
  handles have exactly one encoding and that a stored block is recovered from its envelope.
\<close>

section \<open>Definitions\<close>

definition BLOCK_TRAILER_BYTES :: usize where "BLOCK_TRAILER_BYTES = 5"
definition NO_COMPRESSION :: u8 where "NO_COMPRESSION = 0"
definition SNAPPY_COMPRESSION :: u8 where "SNAPPY_COMPRESSION = 1"
definition SSTABLE_FORMAT_VERSION :: u32 where "SSTABLE_FORMAT_VERSION = 2"
definition SSTABLE_MAGIC :: bytes where "SSTABLE_MAGIC = [0x4d, 0x45, 0x54, 0x45, 0x4f, 0x52, 0x30, 0x31]"
definition SSTABLE_FOOTER_BYTES :: usize where "SSTABLE_FOOTER_BYTES = 72"

record block_handle =
  bh_offset :: u64
  bh_size :: u64

lemma unat_drop_bit_less: "0x80 \<le> v \<Longrightarrow> unat (drop_bit 7 v) < unat (v :: u64)"
proof -
  assume "0x80 \<le> v"
  then have "0 < unat v" by (simp add: word_le_nat_alt)
  moreover have "unat (drop_bit 7 v) = unat v div 2 ^ 7"
    unfolding unat_drop_bit_eq by (rule drop_bit_eq_div)
  ultimately show ?thesis by simp
qed

function put_varint :: "bytes \<Rightarrow> u64 \<Rightarrow> bytes" where
  "put_varint encoded v =
    (if v \<ge> 0x80 then put_varint (encoded @ [ucast v OR 0x80]) (drop_bit 7 v)
     else encoded @ [ucast v])"
  by pat_completeness auto

termination
  by (relation "measure (\<lambda>(encoded, v). unat v)")
    (auto intro: unat_drop_bit_less)

declare put_varint.simps [simp del]

text \<open>The \<open>for\<close> loop of \<open>read_varint\<close>; the error text of the source is dropped.\<close>

function read_varint_loop :: "bytes \<Rightarrow> usize \<Rightarrow> nat \<Rightarrow> u64 \<Rightarrow> (u64 \<times> usize) option" where
  "read_varint_loop encoded start index v =
    (if index < 10 then
       (case checked_add_usize start index of
          None \<Rightarrow> None
        | Some position \<Rightarrow>
            if position < length encoded then
              let byte = encoded ! position in
              if index = 9 \<and> byte > 1 then None
              else
                let v = v OR push_bit (index * 7) (ucast (byte AND 0x7f)) in
                if byte AND 0x80 = 0 then
                  if index > 0 \<and> byte = 0 then None else Some (v, index + 1)
                else read_varint_loop encoded start (index + 1) v
            else None)
     else None)"
  by pat_completeness auto

termination
  by (relation "measure (\<lambda>(encoded, start, index, v). 10 - index)") auto

declare read_varint_loop.simps [simp del]

definition read_varint :: "bytes \<Rightarrow> usize \<Rightarrow> (u64 \<times> usize) option" where
  "read_varint encoded start = read_varint_loop encoded start 0 0"

definition bh_encode :: "block_handle \<Rightarrow> bytes" where
  "bh_encode h = put_varint (put_varint [] (bh_offset h)) (bh_size h)"

definition bh_decode :: "bytes \<Rightarrow> (block_handle \<times> usize) result" where
  "bh_decode encoded =
    rbind (ok_or (read_varint encoded 0) (Corruption BlockHandleCtx)) (\<lambda>(offset, offset_bytes).
    rbind (ok_or (read_varint encoded offset_bytes) (Corruption BlockHandleCtx)) (\<lambda>(size, size_bytes).
    rbind (ok_or (checked_add_usize offset_bytes size_bytes) (Corruption BlockHandleCtx)) (\<lambda>consumed.
    rbind (ok_or (checked_add_u64 offset size) (Corruption BlockHandleCtx)) (\<lambda>_.
    Ok (\<lparr>bh_offset = offset, bh_size = size\<rparr>, consumed)))))"

definition validate_compression :: "u8 \<Rightarrow> bool" where
  "validate_compression c \<longleftrightarrow> c = NO_COMPRESSION \<or> c = SNAPPY_COMPRESSION"

definition block_checksum :: "crc_lib \<Rightarrow> bytes \<Rightarrow> u8 \<Rightarrow> u32" where
  "block_checksum lib payload c = crc32c_append lib (crc32c lib payload) [c]"

definition block_masked_checksum :: "crc_lib \<Rightarrow> bytes \<Rightarrow> u8 \<Rightarrow> u32" where
  "block_masked_checksum lib payload c =
    word_rotr 15 (block_checksum lib payload c) + CHECKSUM_MASK_DELTA"

definition encode_stored_block :: "crc_lib \<Rightarrow> bytes \<Rightarrow> u8 \<Rightarrow> bytes result" where
  "encode_stored_block lib payload c =
    (if \<not> validate_compression c then Err InvalidArgument
     else rbind (ok_or (checked_add_usize (length payload) BLOCK_TRAILER_BYTES) InvalidArgument) (\<lambda>_.
       Ok (payload @ [c] @ u32_to_le (block_masked_checksum lib payload c))))"

definition decode_stored_block :: "crc_lib \<Rightarrow> bytes \<Rightarrow> (bytes \<times> u8) result" where
  "decode_stored_block lib encoded =
    (if length encoded < BLOCK_TRAILER_BYTES then Err (Corruption StoredBlockCtx)
     else
       let payload_end = length encoded - BLOCK_TRAILER_BYTES;
           payload = take payload_end encoded;
           c = encoded ! payload_end
       in if \<not> validate_compression c then Err (Corruption StoredBlockCtx)
          else
            let stored = u32_from_le (drop (payload_end + 1) encoded) in
            if unmask_checksum stored \<noteq> block_checksum lib payload c then Err (Corruption StoredBlockCtx)
            else Ok (payload, c))"

section \<open>Varints\<close>

text \<open>The bytes of a varint on their own.\<close>

definition varint :: "u64 \<Rightarrow> bytes" where
  "varint v = put_varint [] v"

lemma put_varint_prefix: "put_varint (pre @ acc) v = pre @ put_varint acc v"
proof (induction acc v rule: put_varint.induct)
  case (1 acc v)
  then show ?case
    by (simp add: put_varint.simps [of "pre @ acc" v] put_varint.simps [of acc v])
qed

lemma put_varint_append: "put_varint acc v = acc @ varint v"
  using put_varint_prefix [of acc "[]" v] by (simp add: varint_def)

lemma varint_simps:
  "v < 0x80 \<Longrightarrow> varint v = [ucast v]"
  "0x80 \<le> v \<Longrightarrow> varint v = (ucast v OR 0x80) # varint (drop_bit 7 v)"
  using put_varint.simps [of "[]" v] put_varint_append [of "[ucast v OR 0x80]" "drop_bit 7 v"]
  by (simp_all add: varint_def flip: not_le)

lemma varint_not_Nil [simp]: "varint v \<noteq> []"
  by (cases "v < 0x80") (auto simp: varint_simps not_less)

text \<open>Groups of seven bits: what one byte adds to the value read so far.\<close>

lemma take_bit_group:
  "take_bit (7 * i) v OR push_bit (7 * i) (take_bit 7 (drop_bit (7 * i) v)) =
    take_bit (7 * Suc i) (v :: u64)"
  by (rule bit_word_eqI) (auto simp: bit_simps)

lemma bit_0x7f: "bit (0x7f :: 'a :: len word) n \<longleftrightarrow> n < 7 \<and> n < LENGTH('a)"
proof -
  have "(0x7f :: 'a word) = mask 7" by (simp add: mask_eq_exp_minus_1)
  then have "bit (0x7f :: 'a word) n = bit (mask 7 :: 'a word) n" by (rule arg_cong)
  also have "\<dots> \<longleftrightarrow> n < 7 \<and> n < LENGTH('a)" unfolding bit_mask_iff by auto
  finally show ?thesis .
qed

lemma bit_0x80: "bit (0x80 :: 'a :: len word) n \<longleftrightarrow> n = 7 \<and> n < LENGTH('a)"
proof -
  have "(0x80 :: 'a word) = 2 ^ 7" by simp
  then have "bit (0x80 :: 'a word) n = bit (2 ^ 7 :: 'a word) n" by (rule arg_cong)
  also have "\<dots> \<longleftrightarrow> n = 7 \<and> n < LENGTH('a)" unfolding bit_exp_iff by auto
  finally show ?thesis .
qed

lemmas bit_bytes = bit_and_iff bit_or_iff bit_unsigned_iff bit_take_bit_iff bit_0x7f bit_0x80
  bit_0_eq

lemma low_bits_cont: "(ucast ((ucast w OR 0x80 :: u8) AND 0x7f) :: u64) = take_bit 7 w"
  by (rule bit_word_eqI) (simp only: bit_bytes, auto)

lemma low_bits: "(ucast ((ucast w :: u8) AND 0x7f) :: u64) = take_bit 7 w"
  by (rule bit_word_eqI) (simp only: bit_bytes, auto)

lemma less_0x80_iff: "w < 0x80 \<longleftrightarrow> take_bit 7 w = (w :: u64)"
proof -
  have "take_bit 7 w = w \<longleftrightarrow> take_bit 7 (unat w) = unat w"
    by (simp add: word_unat_eq_iff unsigned_take_bit_eq)
  also have "\<dots> \<longleftrightarrow> w < 0x80" by (simp add: take_bit_nat_eq_self_iff word_less_nat_alt)
  finally show ?thesis by simp
qed

lemma cont_bit: "(ucast (w :: u64) OR 0x80 :: u8) AND 0x80 \<noteq> 0"
proof
  assume "(ucast w OR 0x80 :: u8) AND 0x80 = 0"
  then have "bit ((ucast w OR 0x80 :: u8) AND 0x80) 7 = bit (0 :: u8) 7" by (rule arg_cong)
  then show False by (simp only: bit_bytes) simp
qed

lemma final_bit: "w < 0x80 \<Longrightarrow> (ucast (w :: u64) :: u8) AND 0x80 = 0"
proof -
  assume "w < 0x80"
  then have "ucast w = (ucast (take_bit 7 w) :: u8)" by (simp add: less_0x80_iff)
  then show ?thesis by (simp only:) (rule bit_word_eqI, simp only: bit_bytes, auto)
qed

lemma ucast_u8_eq_0: "w < 0x80 \<Longrightarrow> (ucast (w :: u64) :: u8) = 0 \<longleftrightarrow> w = 0"
proof
  assume "w < 0x80" and "(ucast w :: u8) = 0"
  then have "take_bit 7 w = 0" using low_bits [of w] by simp
  with \<open>w < 0x80\<close> show "w = 0" by (simp add: less_0x80_iff)
qed simp

text \<open>The tenth group holds one bit only.\<close>

lemma tenth_group: "unat (drop_bit 63 (v :: u64)) \<le> 1"
proof -
  have "unat (drop_bit 63 v) = unat v div 2 ^ 63"
    unfolding unat_drop_bit_eq by (rule drop_bit_eq_div)
  then show ?thesis using unat_lt2p [of v] by simp
qed

lemma group_bound: "0x80 \<le> drop_bit (7 * i) (v :: u64) \<Longrightarrow> i < 9"
proof (rule ccontr)
  assume big: "0x80 \<le> drop_bit (7 * i) v" and i: "\<not> i < 9"
  have "unat v < 2 ^ 7 * 2 ^ (7 * i)"
    using unat_lt2p [of v] power_increasing [of 63 "7 * i" "2 :: nat"] i by simp
  then have "unat v div 2 ^ (7 * i) < 2 ^ 7" by (simp add: less_mult_imp_div_less)
  moreover have "unat (drop_bit (7 * i) v) = unat v div 2 ^ (7 * i)"
    unfolding unat_drop_bit_eq by (rule drop_bit_eq_div)
  ultimately show False using big by (simp add: word_le_nat_alt)
qed

lemma drop_bit_next: "drop_bit 7 (drop_bit (7 * i) v) = drop_bit (7 * Suc i) (v :: u64)"
  by (simp add: drop_bit_drop_bit add.commute)

lemma drop_bit_7_eq_0: "drop_bit 7 (w :: u64) = 0 \<longleftrightarrow> w < 0x80"
proof -
  have "unat (drop_bit 7 w) = unat w div 2 ^ 7" unfolding unat_drop_bit_eq by (rule drop_bit_eq_div)
  then show ?thesis by (simp add: word_unat_eq_iff word_less_nat_alt div_eq_0_iff)
qed

lemma last_group:
  "take_bit (7 * i) v OR push_bit (7 * i) (drop_bit (7 * i) v) = (v :: u64)"
proof (rule bit_word_eqI)
  fix n assume "n < LENGTH(64)"
  then show "bit (take_bit (7 * i) v OR push_bit (7 * i) (drop_bit (7 * i) v)) n = bit v n"
    by (cases "n < 7 * i") (simp_all add: bit_simps)
qed

lemma word_le_1: "w \<le> 1 \<Longrightarrow> w = 0 \<or> w = (1 :: 'a :: len word)"
  by (auto simp: word_le_nat_alt word_unat_eq_iff le_Suc_eq)

lemma ucast_le_1: "w \<le> 1 \<Longrightarrow> (ucast (w :: u64) :: u8) \<le> 1"
  by (auto dest: word_le_1)

lemma read_varint_loop_varint:
  assumes "enc = pre @ varint (drop_bit (7 * i) v) @ post" "length pre = start + i"
    and "i \<le> 9" "i > 0 \<longrightarrow> drop_bit (7 * i) v \<noteq> 0" "length enc \<le> usize_max"
  shows "read_varint_loop enc start i (take_bit (7 * i) v) =
    Some (v, i + length (varint (drop_bit (7 * i) v)))"
  using assms
proof (induction "9 - i" arbitrary: i pre rule: less_induct)
  case less
  let ?w = "drop_bit (7 * i) v"
  have pos: "checked_add_usize start i = Some (start + i)" "start + i < length enc"
    using less.prems by (auto simp: checked_add_usize_def)
  show ?case
  proof (cases "?w < 0x80")
    case True
    then have enc: "enc ! (start + i) = ucast ?w" "varint ?w = [ucast ?w]"
      using less.prems by (simp_all add: varint_simps nth_append)
    have le1: "ucast ?w \<le> (1 :: u8)" if "i = 9"
      using that tenth_group [of v] by (intro ucast_le_1) (simp add: word_le_nat_alt)
    have v: "take_bit (7 * i) v OR push_bit (i * 7) (ucast ((ucast ?w :: u8) AND 0x7f)) = v"
      using last_group [of i v] True by (simp add: low_bits less_0x80_iff mult.commute)
    show ?thesis
      using pos enc less.prems(3,4) le1 v final_bit [OF True] ucast_u8_eq_0 [OF True]
      by (auto simp: read_varint_loop.simps [of enc start i] Let_def not_less)
  next
    case False
    then have big: "0x80 \<le> ?w" by simp
    then have i: "i < 9" by (rule group_bound)
    have enc: "enc ! (start + i) = ucast ?w OR 0x80"
      using less.prems by (simp add: varint_simps(2) [OF big] nth_append)
    have v: "take_bit (7 * i) v OR push_bit (i * 7) (ucast ((ucast ?w OR 0x80 :: u8) AND 0x7f)) =
        take_bit (7 * Suc i) v"
      using take_bit_group [of i v] by (simp only: low_bits_cont mult.commute)
    have "read_varint_loop enc start (Suc i) (take_bit (7 * Suc i) v) =
        Some (v, Suc i + length (varint (drop_bit (7 * Suc i) v)))"
    proof (rule less.hyps)
      show "enc = (pre @ [ucast ?w OR 0x80]) @ varint (drop_bit (7 * Suc i) v) @ post"
        using less.prems(1) by (simp add: varint_simps(2) [OF big] drop_bit_next)
      show "0 < Suc i \<longrightarrow> drop_bit (7 * Suc i) v \<noteq> 0"
        using drop_bit_7_eq_0 [of ?w] False by (simp add: drop_bit_next)
    qed (use i less.prems in auto)
    with v i enc pos cont_bit [of ?w] show ?thesis
      by (simp add: read_varint_loop.simps [of enc start i] Let_def varint_simps(2) [OF big] drop_bit_next)
  qed
qed

text \<open>The converse: every varint the reader accepts is the encoding of the value it returns.\<close>

lemma byte_groups:
  fixes acc :: u64 and b :: u8 and i :: nat
  defines "x \<equiv> acc OR push_bit (7 * i) (ucast (b AND 0x7f))"
  assumes acc: "take_bit (7 * i) acc = acc"
  shows "take_bit (7 * i) x = acc" "take_bit (7 * Suc i) x = x"
proof -
  have high: "n < 7 * i" if "bit acc n" for n
    using that acc by (metis bit_take_bit_iff)
  show "take_bit (7 * i) x = acc"
    by (rule bit_word_eqI) (simp only: x_def bit_bytes bit_push_bit_iff, auto intro: trans_less_add2 high)
  show "take_bit (7 * Suc i) x = x"
    by (rule bit_word_eqI) (simp only: x_def bit_bytes bit_push_bit_iff, auto intro: trans_less_add2 high)
qed

lemma bit_7_iff: "bit (b :: u8) 7 \<longleftrightarrow> b AND 0x80 \<noteq> 0"
proof -
  have "b AND 0x80 = 0 \<longleftrightarrow> \<not> bit b 7"
  proof
    assume "b AND 0x80 = 0"
    then have "bit (b AND 0x80) 7 = bit (0 :: u8) 7" by (rule arg_cong)
    then show "\<not> bit b 7" by (simp only: bit_bytes) simp
  next
    assume "\<not> bit b 7"
    then show "b AND 0x80 = 0" by (intro bit_word_eqI) (simp only: bit_bytes, auto)
  qed
  then show ?thesis by simp
qed

lemma cont_byte:
  fixes w :: u64
  assumes "b AND 0x80 \<noteq> (0 :: u8)" "take_bit 7 w = ucast (b AND 0x7f)"
  shows "ucast w OR 0x80 = b"
proof (rule bit_word_eqI)
  fix n assume n: "n < LENGTH(8)"
  have "bit w n = bit b n" if "n < 7"
    using that arg_cong [OF assms(2), of "\<lambda>x. bit x n"] by (simp only: bit_bytes) auto
  with n assms(1) show "bit (ucast w OR 0x80 :: u8) n = bit b n"
    unfolding bit_7_iff [symmetric] by (cases "n = 7") (simp_all only: bit_bytes, auto)
qed

lemma drop_group:
  assumes acc: "take_bit (7 * i) acc = acc" and b: "i = 9 \<longrightarrow> b \<le> 1" "i \<le> 9"
  shows "drop_bit (7 * i) (acc OR push_bit (7 * i) (ucast (b AND 0x7f))) = (ucast (b AND 0x7f :: u8) :: u64)"
proof (rule bit_word_eqI)
  fix n assume n: "n < LENGTH(64)"
  have "\<not> bit acc (7 * i + n)" using acc by (metis bit_take_bit_iff not_add_less1)
  moreover have "7 * i + n < 64" if "bit b n" "n < 7"
  proof (cases "i = 9")
    case True
    then have "b = 0 \<or> b = 1" using b(1) by (auto dest: word_le_1)
    with that have "n = 0" by (auto simp: bit_1_iff)
    with True show ?thesis by simp
  qed (use b that in simp)
  ultimately show "bit (drop_bit (7 * i) (acc OR push_bit (7 * i) (ucast (b AND 0x7f)))) n =
      bit (ucast (b AND 0x7f) :: u64) n"
    using n by (simp only: bit_drop_bit_eq o_def bit_bytes bit_push_bit_iff) auto
qed

lemma ucast_u8_u64: "(ucast (ucast b :: u64) :: u8) = b"
  by (rule bit_word_eqI) (simp only: bit_bytes, auto)

lemma final_byte:
  assumes "b AND 0x80 = (0 :: u8)"
  shows "b AND 0x7f = b" "(ucast b :: u64) < 0x80"
proof -
  have low: "n < 7" if "bit b n" for n
  proof -
    have "n < 8" using that by (auto dest: bit_imp_le_length)
    moreover have "n \<noteq> 7" using that assms by (metis bit_7_iff)
    ultimately show ?thesis by simp
  qed
  then show "b AND 0x7f = b" by (intro bit_word_eqI) (simp only: bit_bytes, auto)
  show "(ucast b :: u64) < 0x80"
    unfolding less_0x80_iff by (rule bit_word_eqI) (simp only: bit_bytes, auto dest: low)
qed

lemma read_varint_loop_Some:
  assumes "read_varint_loop enc start i acc = Some (v, n)" "take_bit (7 * i) acc = acc"
  shows "take_bit (7 * i) v = acc \<and> i < n \<and> n \<le> 10 \<and> start + n \<le> length enc \<and>
    (i > 0 \<longrightarrow> drop_bit (7 * i) v \<noteq> 0) \<and>
    take (n - i) (drop (start + i) enc) = varint (drop_bit (7 * i) v)"
  using assms
proof (induction enc start i acc rule: read_varint_loop.induct)
  case (1 enc start i acc)
  let ?b = "enc ! (start + i)"
  let ?x = "acc OR push_bit (7 * i) (ucast (?b AND 0x7f))"
  have loop: "i < 10" "checked_add_usize start i = Some (start + i)" "start + i < length enc"
    "i = 9 \<longrightarrow> ?b \<le> 1"
    using 1(2) by (auto simp: read_varint_loop.simps [of enc start i] checked_add_usize_def Let_def not_less split: if_splits)
  have byte: "drop (start + i) enc = ?b # drop (start + Suc i) enc"
    using loop(3) by (simp add: Cons_nth_drop_Suc)
  note x = byte_groups [OF 1(3), of ?b]
  show ?case
  proof (cases "?b AND 0x80 = 0")
    case True
    then have v: "v = ?x" "n = Suc i" "i > 0 \<longrightarrow> ?b \<noteq> 0"
      using 1(2) loop by (auto simp: read_varint_loop.simps [of enc start i] Let_def mult.commute split: if_splits)
    have w: "drop_bit (7 * i) v = ucast ?b"
      using drop_group [OF 1(3) loop(4)] loop(1) v final_byte(1) [OF True] by simp
    have "varint (ucast ?b) = [?b]" using final_byte(2) [OF True] by (simp add: varint_simps ucast_u8_u64)
    moreover have "i > 0 \<longrightarrow> (ucast ?b :: u64) \<noteq> 0" using v(3) ucast_u8_u64 [of ?b] by auto
    ultimately show ?thesis using w v(1,2) x(1) loop byte by (simp add: take_Cons')
  next
    case False
    have "i \<noteq> 9" using loop(4) False by (auto dest: word_le_1)
    with loop(1) have i: "i < 9" by simp
    have rec: "read_varint_loop enc start (Suc i) ?x = Some (v, n)"
      using 1(2) loop False by (auto simp: read_varint_loop.simps [of enc start i] Let_def mult.commute split: if_splits)
    have IH: "take_bit (7 * Suc i) v = ?x \<and> Suc i < n \<and> n \<le> 10 \<and> start + n \<le> length enc \<and>
      drop_bit (7 * Suc i) v \<noteq> 0 \<and>
      take (n - Suc i) (drop (start + Suc i) enc) = varint (drop_bit (7 * Suc i) v)"
      using 1(1) [OF loop(1,2,3) refl _ refl False] loop(4) rec x(2) by (simp add: mult.commute not_less)
    let ?w = "drop_bit (7 * i) v"
    have "take_bit (7 * i) (take_bit (7 * Suc i) v) = take_bit (7 * i) ?x" using IH by simp
    then have low: "take_bit (7 * i) v = acc" using x(1) by simp
    have "drop_bit (7 * i) (take_bit (7 * Suc i) v) = drop_bit (7 * i) ?x" using IH by simp
    then have "take_bit 7 ?w = ucast (?b AND 0x7f)"
      using drop_group [OF 1(3) loop(4)] i by (simp add: drop_bit_take_bit)
    then have "ucast ?w OR 0x80 = ?b" by (rule cont_byte [OF False])
    moreover have "0x80 \<le> ?w" using IH drop_bit_7_eq_0 [of ?w] by (simp add: drop_bit_next not_less)
    ultimately have "varint ?w = ?b # varint (drop_bit (7 * Suc i) v)"
      by (simp add: varint_simps drop_bit_next)
    with IH low byte \<open>0x80 \<le> ?w\<close> show ?thesis by (auto simp: take_Cons' Suc_diff_Suc)
  qed
qed

text \<open>The reader and the writer of varints are inverse to each other.\<close>

lemma read_varint_varint:
  assumes "length (pre @ varint v @ post) \<le> usize_max"
  shows "read_varint (pre @ varint v @ post) (length pre) = Some (v, length (varint v))"
  using read_varint_loop_varint [of "pre @ varint v @ post" pre 0 v post "length pre"] assms
  by (simp add: read_varint_def)

lemma read_varint_Some:
  assumes "read_varint enc start = Some (v, n)"
  shows "start + n \<le> length enc" "n = length (varint v)" "take n (drop start enc) = varint v"
    "0 < n" "n \<le> 10"
proof -
  note r = read_varint_loop_Some [OF assms [unfolded read_varint_def]]
  then show t: "take n (drop start enc) = varint v" and l: "start + n \<le> length enc" and "0 < n" "n \<le> 10"
    by simp_all
  from arg_cong [OF t, of length] l show "n = length (varint v)" by simp
qed

lemma length_varint_le: "unat v < 2 ^ (7 * Suc k) \<Longrightarrow> length (varint v) \<le> Suc k"
proof (induction k arbitrary: v)
  case 0
  then have "v < 0x80" by (simp add: word_less_nat_alt)
  then show ?case by (simp add: varint_simps)
next
  case (Suc k)
  have "unat (drop_bit 7 v) = unat v div 2 ^ 7" unfolding unat_drop_bit_eq by (rule drop_bit_eq_div)
  moreover have "unat v div 2 ^ 7 < 2 ^ (7 * Suc k)"
    using Suc.prems by (intro less_mult_imp_div_less) (simp add: power_add mult.commute)
  ultimately have "length (varint (drop_bit 7 v)) \<le> Suc k" using Suc.IH by simp
  then show ?case by (cases "v < 0x80") (simp_all add: varint_simps not_less)
qed

lemma length_varint: "0 < length (varint v)" "length (varint v) \<le> 10"
  using length_varint_le [of v 9] unat_lt2p [of v] by simp_all

section \<open>Block handles and stored blocks\<close>

lemma bh_encode_varints: "bh_encode h = varint (bh_offset h) @ varint (bh_size h)"
  by (simp add: bh_encode_def put_varint_append)

lemma bh_decode_encode:
  assumes "length (bh_encode h @ post) \<le> usize_max" "unat (bh_offset h) + unat (bh_size h) < 2 ^ 64"
  shows "bh_decode (bh_encode h @ post) = Ok (h, length (bh_encode h))"
  using read_varint_varint [of "[]" "bh_offset h" "varint (bh_size h) @ post"]
    read_varint_varint [of "varint (bh_offset h)" "bh_size h" post] assms
  by (simp add: bh_decode_def bh_encode_varints checked_add_usize_def checked_add_u64_def)

lemma bh_decode_Ok:
  assumes "bh_decode enc = Ok (h, n)"
  shows "take n enc = bh_encode h" "n = length (bh_encode h)" "n \<le> length enc"
    "unat (bh_offset h) + unat (bh_size h) < 2 ^ 64"
proof -
  from assms obtain off i j where r: "read_varint enc 0 = Some (bh_offset h, i)"
    "read_varint enc i = Some (bh_size h, j)" "n = i + j"
    "unat (bh_offset h) + unat (bh_size h) < 2 ^ 64"
    by (auto simp: bh_decode_def result_iffs arith_defs split: if_splits prod.splits)
  have "take n enc = take i enc @ take j (drop i enc)" using r(3) by (simp add: take_add)
  with read_varint_Some [OF r(1)] read_varint_Some [OF r(2)] r
  show "take n enc = bh_encode h" "n = length (bh_encode h)" "n \<le> length enc"
    "unat (bh_offset h) + unat (bh_size h) < 2 ^ 64"
    by (simp_all add: bh_encode_varints)
qed

text \<open>
  C18. A block handle has exactly one encoding: decoding accepts a byte string if and only if it
  starts with the encoding of a handle whose end does not overflow, and returns that handle with
  the number of bytes it occupies.  Truncated, overlong and overflowing varints are refused.
\<close>

theorem block_handle_iff:
  assumes "length encoded \<le> usize_max"
  shows "bh_decode encoded = Ok (h, n) \<longleftrightarrow>
    unat (bh_offset h) + unat (bh_size h) < 2 ^ 64 \<and>
    n = length (bh_encode h) \<and> (\<exists>rest. encoded = bh_encode h @ rest)"
proof
  assume "bh_decode encoded = Ok (h, n)"
  from bh_decode_Ok [OF this]
  show "unat (bh_offset h) + unat (bh_size h) < 2 ^ 64 \<and>
    n = length (bh_encode h) \<and> (\<exists>rest. encoded = bh_encode h @ rest)"
    by (metis append_take_drop_id)
qed (use assms bh_decode_encode in auto)

theorem block_handle_iff_witness:
  "bh_decode [0xac, 0x02, 0x07, 0x63] = Ok (\<lparr>bh_offset = 300, bh_size = 7\<rparr>, 3)"
  by (subst block_handle_iff)
    (simp_all add: usize_max_def bh_encode_varints varint_simps drop_bit_eq_div)

lemma mask_unmask: "word_rotr 15 (unmask_checksum m) + CHECKSUM_MASK_DELTA = m"
  by (simp add: unmask_checksum_def)

lemma decode_encode_stored_block:
  "encode_stored_block lib payload c = Ok encoded \<Longrightarrow> decode_stored_block lib encoded = Ok (payload, c)"
  by (auto simp: encode_stored_block_def decode_stored_block_def BLOCK_TRAILER_BYTES_def result_iffs
      block_masked_checksum_def unmask_checksum_def nth_append Let_def split: if_splits)

text \<open>
  C17. The envelope of a stored block is exact: the reader accepts a byte string as the block
  \<open>payload\<close> with marker \<open>c\<close> if and only if it is what the writer produces for them, for any
  implementation of the checksum.
\<close>

theorem stored_block_iff:
  assumes "length encoded \<le> usize_max"
  shows "decode_stored_block lib encoded = Ok (payload, c) \<longleftrightarrow>
    encode_stored_block lib payload c = Ok encoded"
proof
  assume d: "decode_stored_block lib encoded = Ok (payload, c)"
  define e where "e = length encoded - 5"
  let ?stored = "drop (Suc e) encoded"
  from d have dec: "5 \<le> length encoded" "validate_compression c" "payload = take e encoded" "c = encoded ! e"
    "unmask_checksum (u32_from_le ?stored) = block_checksum lib payload c"
    by (auto simp: decode_stored_block_def BLOCK_TRAILER_BYTES_def e_def Let_def split: if_splits)
  have "u32_to_le (block_masked_checksum lib payload c) = ?stored"
    using mask_unmask [of "u32_from_le ?stored"] dec(1,5) u32_le_canonical [of ?stored]
    by (simp add: block_masked_checksum_def e_def)
  with dec assms show "encode_stored_block lib payload c = Ok encoded"
    using id_take_nth_drop [of e encoded]
    by (simp add: encode_stored_block_def BLOCK_TRAILER_BYTES_def checked_add_usize_def e_def)
qed (rule decode_encode_stored_block)

theorem stored_block_iff_witness:
  "decode_stored_block \<lparr>crc32c = \<lambda>bs. 0, crc32c_append = \<lambda>c bs. c\<rparr> [7, 9, 0, 0xd8, 0xea, 0x82, 0xa2] = Ok ([7, 9], 0)"
  by (subst stored_block_iff)
    (simp_all add: usize_max_def encode_stored_block_def validate_compression_def NO_COMPRESSION_def
      checked_add_usize_def BLOCK_TRAILER_BYTES_def block_masked_checksum_def block_checksum_def
      CHECKSUM_MASK_DELTA_def u32_to_le_def nat_to_le_numeral)

end
