(* ===== verification/Sst_Block.thy ===== *)
theory Sst_Block
  imports Sst_Format
begin

text \<open>
  Prefix-compressed data blocks (\<open>sstable/block.rs\<close>): the builder, the validating decoder, the
  iterator and the binary search over restart points.  The lemmas relate all of them to the run of
  entries that a block encodes.
\<close>

section \<open>Definitions\<close>

definition FIXED_RESTART_BYTES :: usize where "FIXED_RESTART_BYTES = 4"

record block_builder =
  bb_restart_interval :: usize
  bb_entries_since_restart :: usize
  bb_entries :: bytes
  bb_restarts :: "u32 list"
  bb_previous_key :: bytes
  bb_entry_count :: usize

definition bb_try_new :: "usize \<Rightarrow> block_builder result" where
  "bb_try_new restart_interval =
    (if restart_interval = 0 then Err InvalidArgument
     else Ok \<lparr>bb_restart_interval = restart_interval, bb_entries_since_restart = 0, bb_entries = [],
       bb_restarts = [0], bb_previous_key = [], bb_entry_count = 0\<rparr>)"

fun shared_prefix :: "bytes \<Rightarrow> bytes \<Rightarrow> usize" where
  "shared_prefix (x # xs) (y # ys) = (if x = y then Suc (shared_prefix xs ys) else 0)"
| "shared_prefix _ _ = 0"

definition bb_add :: "block_builder \<Rightarrow> bytes \<Rightarrow> bytes \<Rightarrow> block_builder result" where
  "bb_add bb key v =
    (if bb_entry_count bb \<noteq> 0 \<and> key \<le> bb_previous_key bb then Err InvalidArgument
     else
       rbind (if bb_entries_since_restart bb = bb_restart_interval bb then
                rbind (ok_or (u32_try_from (length (bb_entries bb))) InvalidArgument) (\<lambda>offset.
                Ok (0, bb\<lparr>bb_restarts := bb_restarts bb @ [offset], bb_entries_since_restart := 0\<rparr>))
              else Ok (shared_prefix (bb_previous_key bb) key, bb)) (\<lambda>(shared, bb).
       let unshared = length key - shared in
       rbind (ok_or (u64_try_from shared) InvalidArgument) (\<lambda>shared64.
       rbind (ok_or (u64_try_from unshared) InvalidArgument) (\<lambda>unshared64.
       rbind (ok_or (u64_try_from (length v)) InvalidArgument) (\<lambda>len64.
       Ok (bb\<lparr>
         bb_entries := put_varint (put_varint (put_varint (bb_entries bb) shared64) unshared64) len64
           @ drop shared key @ v,
         bb_previous_key := key,
         bb_entries_since_restart := bb_entries_since_restart bb + 1,
         bb_entry_count := bb_entry_count bb + 1\<rparr>))))))"

definition bb_finish :: "block_builder \<Rightarrow> bytes" where
  "bb_finish bb =
    bb_entries bb @ concat (map u32_to_le (bb_restarts bb)) @ u32_to_le (word_of_nat (length (bb_restarts bb)))"

record decoded_entry =
  de_shared :: usize
  de_key :: bytes
  de_value :: bytes
  de_next :: usize

text \<open>\<open>slice.get(a..b)\<close>, and \<open>usize::try_from\<close> on a \<open>u64\<close>.\<close>

definition slice_get :: "'a list \<Rightarrow> usize \<Rightarrow> usize \<Rightarrow> 'a list option" where
  "slice_get xs a b = (if a \<le> b \<and> b \<le> length xs then Some (take (b - a) (drop a xs)) else None)"

definition usize_try_from :: "u64 \<Rightarrow> usize option" where
  "usize_try_from v = (if unat v \<le> usize_max then Some (unat v) else None)"

definition block_checked_add :: "usize \<Rightarrow> usize \<Rightarrow> usize result" where
  "block_checked_add a b = ok_or (checked_add_usize a b) (Corruption DataBlockCtx)"

definition decode_entry :: "bytes \<Rightarrow> usize \<Rightarrow> bytes \<Rightarrow> decoded_entry result" where
  "decode_entry entries start previous_key =
    rbind (ok_or (read_varint entries start) (Corruption DataBlockCtx)) (\<lambda>(shared, shared_bytes).
    rbind (block_checked_add start shared_bytes) (\<lambda>unshared_start.
    rbind (ok_or (read_varint entries unshared_start) (Corruption DataBlockCtx)) (\<lambda>(unshared, unshared_bytes).
    rbind (block_checked_add unshared_start unshared_bytes) (\<lambda>value_start.
    rbind (ok_or (read_varint entries value_start) (Corruption DataBlockCtx)) (\<lambda>(value_len, value_bytes).
    rbind (block_checked_add value_start value_bytes) (\<lambda>suffix_start.
    rbind (ok_or (usize_try_from shared) (Corruption DataBlockCtx)) (\<lambda>shared.
    rbind (ok_or (usize_try_from unshared) (Corruption DataBlockCtx)) (\<lambda>unshared.
    rbind (ok_or (usize_try_from value_len) (Corruption DataBlockCtx)) (\<lambda>value_len.
    if shared > length previous_key then Err (Corruption DataBlockCtx)
    else
      rbind (block_checked_add suffix_start unshared) (\<lambda>suffix_end.
      rbind (block_checked_add suffix_end value_len) (\<lambda>value_end.
      rbind (ok_or (slice_get entries suffix_start suffix_end) (Corruption DataBlockCtx)) (\<lambda>suffix.
      rbind (ok_or (slice_get entries suffix_end value_end) (Corruption DataBlockCtx)) (\<lambda>v.
      rbind (ok_or (checked_add_usize shared unshared) (Corruption DataBlockCtx)) (\<lambda>key_capacity.
      Ok \<lparr>de_shared = shared, de_key = take shared previous_key @ suffix, de_value = v,
        de_next = value_end\<rparr>))))))))))))))"

record block =
  blk_entries :: bytes
  blk_restarts :: "usize list"
  blk_entry_count :: usize

text \<open>
  The \<open>for\<close> loop over the restart array; its argument is the range of indices that are left.
  A slice out of range panics in the source.
\<close>

fun decode_restarts ::
  "bytes \<Rightarrow> usize \<Rightarrow> usize \<Rightarrow> usize list \<Rightarrow> usize list \<Rightarrow> usize list result" where
  "decode_restarts encoded entries_end restart_count [] restarts = Ok restarts"
| "decode_restarts encoded entries_end restart_count (index # indices) restarts =
    rbind (ok_or (checked_mul_usize index FIXED_RESTART_BYTES) (Corruption DataBlockCtx)) (\<lambda>step.
    rbind (ok_or (checked_add_usize entries_end step) (Corruption DataBlockCtx)) (\<lambda>start.
    rbind (ok_or (slice_get encoded start (start + 4)) Panic) (\<lambda>raw.
    let offset = unat (u32_from_le raw) in
    if index = 0 \<and> offset \<noteq> 0 then Err (Corruption DataBlockCtx)
    else if index > 0 \<and> offset \<le> restarts ! (index - 1) then Err (Corruption DataBlockCtx)
    else if entries_end = 0 \<and> (restart_count \<noteq> 1 \<or> offset \<noteq> 0) then Err (Corruption DataBlockCtx)
    else if entries_end \<noteq> 0 \<and> offset \<ge> entries_end then Err (Corruption DataBlockCtx)
    else decode_restarts encoded entries_end restart_count indices (restarts @ [offset]))))"

lemma slice_get_Some:
  "slice_get xs a b = Some ys \<longleftrightarrow> a \<le> b \<and> b \<le> length xs \<and> ys = take (b - a) (drop a xs)"
  by (auto simp: slice_get_def)

lemma decode_entry_next:
  assumes "decode_entry entries start prev = Ok d"
  shows "start + 3 \<le> de_next d" "start < de_next d" "de_next d \<le> length entries"
  using assms
  by (auto simp: decode_entry_def result_iffs block_checked_add_def slice_get_Some checked_add_usize_def
      split: if_splits dest!: read_varint_Some(4))

text \<open>The \<open>while\<close> loop that validates every entry.\<close>

function validate_entries ::
  "bytes \<Rightarrow> usize set \<Rightarrow> usize \<Rightarrow> bytes \<Rightarrow> usize \<Rightarrow> usize \<Rightarrow> (usize \<times> usize \<times> usize) result" where
  "validate_entries entries restart_set cursor previous_key entry_count observed_restarts =
    (if cursor < length entries then
       let observed_restarts =
         (if cursor \<in> restart_set then observed_restarts + 1 else observed_restarts)
       in rbind (decode_entry entries cursor previous_key) (\<lambda>decoded.
         if cursor \<in> restart_set \<and> de_shared decoded \<noteq> 0 then Err (Corruption DataBlockCtx)
         else if entry_count \<noteq> 0 \<and> de_key decoded \<le> previous_key then Err (Corruption DataBlockCtx)
         else validate_entries entries restart_set (de_next decoded) (de_key decoded)
           (entry_count + 1) observed_restarts)
     else Ok (cursor, entry_count, observed_restarts))"
  by pat_completeness auto

termination
  by (relation "measure (\<lambda>(entries, restart_set, cursor, previous_key, entry_count, observed).
      length entries - cursor)")
    (auto dest: decode_entry_next)

declare validate_entries.simps [simp del]

definition block_decode :: "bytes \<Rightarrow> block result" where
  "block_decode encoded =
    (if length encoded < FIXED_RESTART_BYTES * 2 then Err (Corruption DataBlockCtx)
     else
       let count_start = length encoded - FIXED_RESTART_BYTES;
           restart_count = unat (u32_from_le (drop count_start encoded))
       in
       if restart_count = 0 then Err (Corruption DataBlockCtx)
       else
         rbind (ok_or (checked_mul_usize restart_count FIXED_RESTART_BYTES) (Corruption DataBlockCtx)) (\<lambda>restart_bytes.
         rbind (ok_or (checked_sub_usize count_start restart_bytes) (Corruption DataBlockCtx)) (\<lambda>entries_end.
         rbind (decode_restarts encoded entries_end restart_count [0..<restart_count] []) (\<lambda>restarts.
         let entries = take entries_end encoded in
         rbind (validate_entries entries (set restarts) 0 [] 0 0) (\<lambda>(cursor, entry_count, observed_restarts).
         if cursor \<noteq> length entries then Err (Corruption DataBlockCtx)
         else
           let observed_restarts = (if entries = [] then 1 else observed_restarts) in
           if observed_restarts \<noteq> length restarts then Err (Corruption DataBlockCtx)
           else Ok \<lparr>blk_entries = entries, blk_restarts = restarts, blk_entry_count = entry_count\<rparr>)))))"

definition block_is_empty :: "block \<Rightarrow> bool" where
  "block_is_empty b \<longleftrightarrow> blk_entry_count b = 0"

definition block_len :: "block \<Rightarrow> usize" where
  "block_len b = blk_entry_count b"

definition key_at_restart :: "block \<Rightarrow> usize \<Rightarrow> bytes result" where
  "key_at_restart b offset = rbind (decode_entry (blk_entries b) offset []) (\<lambda>d. Ok (de_key d))"

function seek_loop :: "bytes \<Rightarrow> bytes \<Rightarrow> usize \<Rightarrow> bytes \<Rightarrow> (bytes \<times> bytes) option result" where
  "seek_loop entries target cursor previous_key =
    (if cursor < length entries then
       rbind (decode_entry entries cursor previous_key) (\<lambda>decoded.
         if de_key decoded \<ge> target then Ok (Some (de_key decoded, de_value decoded))
         else seek_loop entries target (de_next decoded) (de_key decoded))
     else Ok None)"
  by pat_completeness auto

termination
  by (relation "measure (\<lambda>(entries, target, cursor, previous_key). length entries - cursor)")
    (auto dest: decode_entry_next)

declare seek_loop.simps [simp del]

text \<open>\<open>partition_point\<close>: the binary search for the first element that fails the predicate.\<close>

function partition_point_loop :: "('a \<Rightarrow> bool) \<Rightarrow> 'a list \<Rightarrow> nat \<Rightarrow> nat \<Rightarrow> nat" where
  "partition_point_loop P xs lo hi =
    (if lo < hi then
       let mid = (lo + hi) div 2 in
       if P (xs ! mid) then partition_point_loop P xs (mid + 1) hi
       else partition_point_loop P xs lo mid
     else lo)"
  by pat_completeness auto

termination
  by (relation "measure (\<lambda>(P, xs, lo, hi). hi - lo)") auto

declare partition_point_loop.simps [simp del]

definition partition_point :: "('a \<Rightarrow> bool) \<Rightarrow> 'a list \<Rightarrow> nat" where
  "partition_point P xs = partition_point_loop P xs 0 (length xs)"

definition block_seek :: "block \<Rightarrow> bytes \<Rightarrow> (bytes \<times> bytes) option result" where
  "block_seek b target =
    (if block_is_empty b then Ok None
     else
       let first_greater = partition_point (\<lambda>offset.
             case key_at_restart b offset of Inr key \<Rightarrow> key \<le> target | Inl _ \<Rightarrow> False) (blk_restarts b);
           restart_index = first_greater - 1
       in rbind (ok_or (if restart_index < length (blk_restarts b) then Some (blk_restarts b ! restart_index) else None) Panic)
         (\<lambda>cursor. seek_loop (blk_entries b) target cursor []))"

record block_iter =
  bi_cursor :: usize
  bi_previous_key :: bytes

definition block_iter_new :: block_iter where
  "block_iter_new = \<lparr>bi_cursor = 0, bi_previous_key = []\<rparr>"

definition bi_next :: "block \<Rightarrow> block_iter \<Rightarrow> (bytes \<times> bytes) result option \<times> block_iter" where
  "bi_next b it =
    (if bi_cursor it \<ge> length (blk_entries b) then (None, it)
     else case decode_entry (blk_entries b) (bi_cursor it) (bi_previous_key it) of
       Inr decoded \<Rightarrow> (Some (Ok (de_key decoded, de_value decoded)),
         it\<lparr>bi_cursor := de_next decoded, bi_previous_key := de_key decoded\<rparr>)
     | Inl e \<Rightarrow> (Some (Err e), it\<lparr>bi_cursor := length (blk_entries b)\<rparr>))"

text \<open>Every item of the iterator, until it returns \<open>None\<close>.\<close>

function bi_collect :: "block \<Rightarrow> block_iter \<Rightarrow> (bytes \<times> bytes) result list" where
  "bi_collect b it =
    (case bi_next b it of
       (None, it') \<Rightarrow> []
     | (Some item, it') \<Rightarrow> item # bi_collect b it')"
  by pat_completeness auto

termination
  by (relation "measure (\<lambda>(b, it). length (blk_entries b) - bi_cursor it)")
    (auto simp: bi_next_def split: if_splits sum.splits dest: decode_entry_next)

declare bi_collect.simps [simp del]

definition block_items :: "block \<Rightarrow> (bytes \<times> bytes) result list" where
  "block_items b = bi_collect b block_iter_new"

section \<open>The run of entries\<close>

text \<open>
  The entries that decoding visits from a position on, each with its position.  All operations of
  a block are characterised by its run.
\<close>

function run :: "bytes \<Rightarrow> usize \<Rightarrow> bytes \<Rightarrow> (usize \<times> decoded_entry) list result" where
  "run entries cursor prev =
    (if cursor < length entries then
       rbind (decode_entry entries cursor prev) (\<lambda>d.
       rbind (run entries (de_next d) (de_key d)) (\<lambda>ds. Ok ((cursor, d) # ds)))
     else Ok [])"
  by pat_completeness auto

termination
  by (relation "measure (\<lambda>(entries, cursor, prev). length entries - cursor)")
    (auto dest: decode_entry_next)

declare run.simps [simp del]

definition run_kv :: "(usize \<times> decoded_entry) list \<Rightarrow> (bytes \<times> bytes) list" where
  "run_kv ds = map (\<lambda>(c, d). (de_key d, de_value d)) ds"

lemma run_kv_simps [simp]:
  "run_kv [] = []" "run_kv ((c, d) # ds) = (de_key d, de_value d) # run_kv ds"
  "run_kv (ds @ es) = run_kv ds @ run_kv es" "length (run_kv ds) = length ds"
  by (simp_all add: run_kv_def)

lemma run_Cons:
  assumes "run entries cursor prev = Ok (x # ds)"
  obtains d where "x = (cursor, d)" "cursor < length entries" "decode_entry entries cursor prev = Ok d"
    "run entries (de_next d) (de_key d) = Ok ds"
  using assms by (auto simp: run.simps [of entries cursor] result_iffs split: if_splits)

lemma run_Nil: "run entries cursor prev = Ok [] \<longleftrightarrow> length entries \<le> cursor"
  by (auto simp: run.simps [of entries cursor] result_iffs)

lemma run_step:
  "decode_entry entries cursor prev = Ok d \<Longrightarrow> run entries (de_next d) (de_key d) = Ok ds \<Longrightarrow>
    run entries cursor prev = Ok ((cursor, d) # ds)"
  using decode_entry_next [of entries cursor prev d] by (simp add: run.simps [of entries cursor])

lemma run_cursors:
  assumes "run entries cursor prev = Ok ds" "(c, d) \<in> set ds"
  shows "cursor \<le> c" "c + 3 \<le> de_next d" "de_next d \<le> length entries"
  using assms
  by (induction ds arbitrary: cursor prev) (auto elim!: run_Cons dest: decode_entry_next, fastforce dest: decode_entry_next)

lemma run_cursors_sorted:
  assumes "run entries cursor prev = Ok ds"
  shows "sorted_wrt (<) (map fst ds)"
  using assms
proof (induction ds arbitrary: cursor prev)
  case (Cons x ds)
  from Cons.prems obtain d where r: "x = (cursor, d)" "decode_entry entries cursor prev = Ok d"
    "run entries (de_next d) (de_key d) = Ok ds" by (rule run_Cons)
  from Cons.IH [OF r(3)] r(1,2) run_cursors(1) [OF r(3)] decode_entry_next(2) [OF r(2)]
  show ?case by fastforce
qed simp

text \<open>A run from the position of an entry that shares nothing with its predecessor.\<close>

lemma decode_entry_unshared:
  assumes "decode_entry entries c prev = Ok d" "de_shared d = 0"
  shows "decode_entry entries c prev' = Ok d"
  using assms by (auto simp: decode_entry_def result_iffs split: if_splits)

lemma run_suffix:
  assumes "run entries cursor prev = Ok (ds @ (c, d) # ds')" "de_shared d = 0"
  shows "run entries c [] = Ok ((c, d) # ds')"
  using assms
proof (induction ds arbitrary: cursor prev)
  case Nil
  then show ?case by (auto elim!: run_Cons intro!: run_step dest: decode_entry_unshared)
next
  case (Cons x ds)
  then show ?case by (auto elim!: run_Cons)
qed

section \<open>What validation establishes\<close>

lemma validate_entries_Ok:
  assumes "validate_entries entries R cursor prev n obs = Ok (c', n', obs')" "cursor \<le> length entries"
  shows "\<exists>ds. run entries cursor prev = Ok ds \<and> c' = length entries \<and> n' = n + length ds \<and>
    obs' = obs + length (filter (\<lambda>c. c \<in> R) (map fst ds)) \<and>
    (\<forall>(c, d) \<in> set ds. c \<in> R \<longrightarrow> de_shared d = 0) \<and>
    sorted_wrt (<) ((if n = 0 then [] else [prev]) @ map fst (run_kv ds))"
  using assms
proof (induction entries R cursor prev n obs rule: validate_entries.induct)
  case (1 entries R cursor prev n obs)
  show ?case
  proof (cases "cursor < length entries")
    case False
    with 1(2,3) show ?thesis
      by (intro exI [of _ "[]"]) (auto simp: validate_entries.simps [of entries R cursor] run_Nil)
  next
    case True
    from 1(2) True obtain d where d: "decode_entry entries cursor prev = Ok d"
      "\<not> (cursor \<in> R \<and> de_shared d \<noteq> 0)" "\<not> (n \<noteq> 0 \<and> de_key d \<le> prev)"
      "validate_entries entries R (de_next d) (de_key d) (n + 1)
        (if cursor \<in> R then obs + 1 else obs) = Ok (c', n', obs')"
      by (auto simp: validate_entries.simps [of entries R cursor] result_iffs Let_def split: if_splits)
    from 1(1) [OF True refl d(1-3) d(4)] decode_entry_next(3) [OF d(1)]
    obtain ds where ds: "run entries (de_next d) (de_key d) = Ok ds" "c' = length entries"
      "n' = n + 1 + length ds"
      "obs' = (if cursor \<in> R then obs + 1 else obs) + length (filter (\<lambda>c. c \<in> R) (map fst ds))"
      "\<forall>(c, d) \<in> set ds. c \<in> R \<longrightarrow> de_shared d = 0"
      "sorted_wrt (<) (de_key d # map fst (run_kv ds))" by auto
    show ?thesis
      by (rule exI [of _ "(cursor, d) # ds"]) (use d ds in \<open>auto intro: run_step less_trans\<close>)
  qed
qed

lemma validate_entries_run:
  assumes "run entries cursor prev = Ok ds" "cursor \<le> length entries"
    and "\<forall>(c, d) \<in> set ds. c \<in> R \<longrightarrow> de_shared d = 0"
    and "sorted_wrt (<) ((if n = 0 then [] else [prev]) @ map fst (run_kv ds))"
  shows "validate_entries entries R cursor prev n obs =
    Ok (length entries, n + length ds, obs + length (filter (\<lambda>c. c \<in> R) (map fst ds)))"
  using assms
proof (induction ds arbitrary: cursor prev n obs)
  case Nil
  then show ?case by (auto simp: validate_entries.simps [of entries R cursor] run_Nil)
next
  case (Cons x ds)
  from Cons.prems(1) obtain d where r: "x = (cursor, d)" "cursor < length entries"
    "decode_entry entries cursor prev = Ok d" "run entries (de_next d) (de_key d) = Ok ds" by (rule run_Cons)
  have "validate_entries entries R (de_next d) (de_key d) (n + 1) obs' =
    Ok (length entries, n + 1 + length ds, obs' + length (filter (\<lambda>c. c \<in> R) (map fst ds)))" for obs'
    using Cons.prems r decode_entry_next(3) [OF r(3)] by (intro Cons.IH) (auto split: if_splits)
  with Cons.prems r show ?case
    by (auto simp: validate_entries.simps [of entries R cursor] Let_def not_le split: if_splits)
qed

lemma sorted_snoc:
  assumes "sorted_wrt (<) xs" "xs \<noteq> [] \<longrightarrow> last xs < (y :: 'a :: order)"
  shows "sorted_wrt (<) (xs @ [y])"
proof -
  have "x < y" if "x \<in> set xs" for x
  proof -
    from that have "x = last xs \<or> x < last xs"
      using assms(1) by (cases xs rule: rev_cases) (auto simp: sorted_wrt_append)
    with that assms(2) show ?thesis by (cases "xs = []") (auto dest: less_trans)
  qed
  with assms(1) show ?thesis by (simp add: sorted_wrt_append)
qed

lemma decode_restarts_Ok:
  assumes "decode_restarts enc e rc is rs = Ok rs'" "is = [length rs..<n]"
    and "sorted_wrt (<) rs" "rs \<noteq> [] \<longrightarrow> hd rs = 0" "\<forall>r \<in> set rs. e \<noteq> 0 \<longrightarrow> r < e" "length rs \<le> n"
  shows "length rs' = n \<and> sorted_wrt (<) rs' \<and> (rs' \<noteq> [] \<longrightarrow> hd rs' = 0) \<and>
    (\<forall>r \<in> set rs'. e \<noteq> 0 \<longrightarrow> r < e)"
  using assms
proof (induction "is" arbitrary: rs)
  case Nil
  then show ?case using upt_eq_Nil_conv [of "length rs" n] by auto
next
  case (Cons i "is")
  from Cons.prems(2) [symmetric] have i: "i = length rs" "is = [Suc (length rs)..<n]" "length rs < n"
    by (auto simp: upt_eq_Cons_conv)
  from Cons.prems(1) obtain off where loop:
    "(if i = 0 \<and> off \<noteq> 0 then Err (Corruption DataBlockCtx)
      else if i > 0 \<and> off \<le> rs ! (i - 1) then Err (Corruption DataBlockCtx)
      else if e = 0 \<and> (rc \<noteq> 1 \<or> off \<noteq> 0) then Err (Corruption DataBlockCtx)
      else if e \<noteq> 0 \<and> off \<ge> e then Err (Corruption DataBlockCtx)
      else decode_restarts enc e rc is (rs @ [off])) = Ok rs'"
    by (simp only: decode_restarts.simps rbind_Ok_iff Let_def) blast
  have off: "i = 0 \<longrightarrow> off = 0" "i > 0 \<longrightarrow> rs ! (i - 1) < off" "e \<noteq> 0 \<longrightarrow> off < e"
    "decode_restarts enc e rc is (rs @ [off]) = Ok rs'"
    using loop by (auto simp: not_le split: if_splits)
  show ?case
  proof (rule Cons.IH [OF off(4)])
    show "sorted_wrt (<) (rs @ [off])"
      using Cons.prems(3) off(2) i(1) by (intro sorted_snoc) (auto simp: last_conv_nth)
  qed (use Cons.prems off i in \<open>auto simp: hd_append\<close>)
qed

text \<open>
  What a decoded block looks like: its entries form a run with increasing keys, and its restarts
  are positions of the run, the first one included, at which nothing is shared.
\<close>

definition block_run :: "block \<Rightarrow> (usize \<times> decoded_entry) list \<Rightarrow> bool" where
  "block_run b ds \<longleftrightarrow> run (blk_entries b) 0 [] = Ok ds \<and> blk_entry_count b = length ds \<and>
    sorted_wrt (<) (map fst (run_kv ds)) \<and> sorted_wrt (<) (blk_restarts b) \<and> blk_restarts b \<noteq> [] \<and>
    hd (blk_restarts b) = 0 \<and>
    (ds \<noteq> [] \<longrightarrow> set (blk_restarts b) \<subseteq> fst ` set ds) \<and>
    (\<forall>(c, d) \<in> set ds. c \<in> set (blk_restarts b) \<longrightarrow> de_shared d = 0)"

lemma filter_all_members:
  assumes "distinct xs" "distinct rs" "length (filter (\<lambda>c. c \<in> set rs) xs) = length rs"
  shows "set rs \<subseteq> set xs"
proof -
  have "card (set (filter (\<lambda>c. c \<in> set rs) xs)) = card (set rs)"
    using assms by (simp add: distinct_card del: set_filter)
  then have "set (filter (\<lambda>c. c \<in> set rs) xs) = set rs"
    by (intro card_subset_eq) auto
  then show ?thesis by auto
qed

lemma filter_members_length:
  assumes "distinct xs" "distinct rs" "set rs \<subseteq> set xs"
  shows "length (filter (\<lambda>c. c \<in> set rs) xs) = length rs"
proof -
  have "set (filter (\<lambda>c. c \<in> set rs) xs) = set rs" using assms(3) by auto
  then show ?thesis using assms(1,2) by (metis distinct_card distinct_filter)
qed

lemma strict_sorted_distinct: "sorted_wrt (<) xs \<Longrightarrow> distinct (xs :: 'a :: linorder list)"
  by (simp add: strict_sorted_iff)

lemma block_decode_run:
  assumes "block_decode enc = Ok b"
  shows "\<exists>ds. block_run b ds"
proof -
  let ?n = "unat (u32_from_le (drop (length enc - 4) enc))"
  from assms obtain e rs c n obs where d: "decode_restarts enc e ?n [0..<?n] [] = Ok rs" "?n \<noteq> 0"
    "validate_entries (take e enc) (set rs) 0 [] 0 0 = Ok (c, n, obs)"
    "(if take e enc = [] then 1 else obs) = length rs" "c = length (take e enc)"
    "b = \<lparr>blk_entries = take e enc, blk_restarts = rs, blk_entry_count = n\<rparr>"
    by (auto simp: block_decode_def result_iffs Let_def FIXED_RESTART_BYTES_def split: if_splits)
  have R: "length rs = ?n \<and> sorted_wrt (<) rs \<and> (rs \<noteq> [] \<longrightarrow> hd rs = 0) \<and>
      (\<forall>r \<in> set rs. e \<noteq> 0 \<longrightarrow> r < e)"
    by (rule decode_restarts_Ok [OF d(1)]) simp_all
  then have "rs \<noteq> []" using d(2) by force
  with R have rs: "sorted_wrt (<) rs" "rs \<noteq> []" "hd rs = 0" by blast+
  from validate_entries_Ok [OF d(3)] obtain ds where ds: "run (take e enc) 0 [] = Ok ds"
    "n = length ds" "obs = length (filter (\<lambda>c. c \<in> set rs) (map fst ds))"
    "\<forall>(c, d) \<in> set ds. c \<in> set rs \<longrightarrow> de_shared d = 0" "sorted_wrt (<) (map fst (run_kv ds))"
    by auto
  have "set rs \<subseteq> set (map fst ds)" if "ds \<noteq> []"
  proof (rule filter_all_members)
    have "take e enc \<noteq> []" using that ds(1) by (auto simp: run.simps split: if_splits)
    then show "length (filter (\<lambda>c. c \<in> set rs) (map fst ds)) = length rs" using ds(3) d(4) by simp
  qed (use rs ds(1) run_cursors_sorted in \<open>auto intro: strict_sorted_distinct\<close>)
  with ds rs d(6) show ?thesis by (auto simp: block_run_def)
qed

section \<open>Iteration and search\<close>

lemma bi_collect_run:
  assumes "run (blk_entries b) c prev = Ok ds"
  shows "bi_collect b \<lparr>bi_cursor = c, bi_previous_key = prev\<rparr> = map Ok (run_kv ds)"
  using assms
proof (induction ds arbitrary: c prev)
  case Nil
  then show ?case by (simp add: bi_collect.simps bi_next_def run_Nil)
next
  case (Cons x ds)
  then show ?case by (elim run_Cons) (simp add: bi_collect.simps [of b "\<lparr>bi_cursor = c, bi_previous_key = prev\<rparr>"] bi_next_def)
qed

lemma seek_loop_run:
  assumes "run entries c prev = Ok ds"
  shows "seek_loop entries target c prev = Ok (find (\<lambda>kv. target \<le> fst kv) (run_kv ds))"
  using assms
proof (induction ds arbitrary: c prev)
  case Nil
  then show ?case by (simp add: seek_loop.simps run_Nil)
next
  case (Cons x ds)
  then show ?case by (elim run_Cons) (simp add: seek_loop.simps [of entries target c])
qed

lemma partition_point_loop_correct:
  assumes "lo \<le> k" "k \<le> hi" "hi \<le> length xs"
    and "\<forall>i < k. P (xs ! i)" "\<forall>i < length xs. k \<le> i \<longrightarrow> \<not> P (xs ! i)"
  shows "partition_point_loop P xs lo hi = k"
  using assms
proof (induction P xs lo hi rule: partition_point_loop.induct)
  case (1 P xs lo hi)
  show ?case
  proof (cases "lo < hi")
    case True
    let ?mid = "(lo + hi) div 2"
    have mid: "lo \<le> ?mid" "?mid < hi" using True by auto
    show ?thesis
    proof (cases "P (xs ! ?mid)")
      case P: True
      then have "?mid < k" using 1(5,7) mid by (meson le_less_trans less_le_trans not_le)
      with 1(1) [OF True refl P] 1(3-7) True P show ?thesis
        by (simp add: partition_point_loop.simps [of P xs lo])
    next
      case P: False
      then have "k \<le> ?mid" using 1(6) by (meson not_le)
      with 1(2) [OF True refl P] 1(3-7) True P mid show ?thesis
        by (simp add: partition_point_loop.simps [of P xs lo])
    qed
  next
    case False
    with 1(3,4) show ?thesis by (simp add: partition_point_loop.simps)
  qed
qed

lemma takeWhile_at: "i < length (takeWhile P xs) \<Longrightarrow> P (xs ! i)"
  by (metis nth_mem set_takeWhileD takeWhile_nth)

lemma partition_point_correct:
  assumes "\<And>i j. i < j \<Longrightarrow> j < length xs \<Longrightarrow> P (xs ! j) \<Longrightarrow> P (xs ! i)"
  shows "partition_point P xs = length (takeWhile P xs)"
  unfolding partition_point_def
proof (rule partition_point_loop_correct)
  show "\<forall>i < length (takeWhile P xs). P (xs ! i)"
    by (simp add: takeWhile_at)
  show "\<forall>i < length xs. length (takeWhile P xs) \<le> i \<longrightarrow> \<not> P (xs ! i)"
    using assms nth_length_takeWhile [of P xs] by (metis le_less_trans nat_less_le)
qed (simp_all add: length_takeWhile_le)

lemma find_skip: "\<forall>x \<in> set xs. \<not> P x \<Longrightarrow> find P (xs @ ys) = find P ys"
  by (induction xs) auto

lemma run_mono:
  assumes "sorted_wrt (<) (map fst ds)" "sorted_wrt (<) (map fst (run_kv ds))"
    and "(c, d) \<in> set ds" "(c', d') \<in> set ds" "c < c'"
  shows "de_key d < de_key d'"
proof -
  obtain i j where ij: "i < length ds" "ds ! i = (c, d)" "j < length ds" "ds ! j = (c', d')"
    using assms(3,4) by (auto simp: in_set_conv_nth)
  have "i < j"
  proof (rule ccontr)
    assume "\<not> i < j"
    then consider "i = j" | "j < i" by linarith
    then show False
    proof cases
      case 1
      with ij assms(5) show False by simp
    next
      case 2
      with ij assms(5) sorted_wrt_nth_less [OF assms(1), of j i] show False by simp
    qed
  qed
  with ij sorted_wrt_nth_less [OF assms(2), of i j] show ?thesis by (simp add: run_kv_def)
qed

lemma key_at_restart_run:
  assumes "block_run b ds" "(c, d) \<in> set ds" "c \<in> set (blk_restarts b)"
  shows "key_at_restart b c = Ok (de_key d)"
proof -
  obtain pre post where "ds = pre @ (c, d) # post" using assms(2) by (meson split_list)
  moreover have "de_shared d = 0" using assms by (auto simp: block_run_def)
  ultimately have "run (blk_entries b) c [] = Ok ((c, d) # post)"
    using assms(1) by (auto simp: block_run_def intro: run_suffix)
  then show ?thesis by (auto simp: key_at_restart_def elim: run_Cons)
qed

lemma block_seek_run:
  assumes b: "block_run b ds"
  shows "block_seek b target = Ok (find (\<lambda>kv. target \<le> fst kv) (run_kv ds))"
proof (cases "ds = []")
  case True
  with b show ?thesis by (simp add: block_seek_def block_is_empty_def block_run_def)
next
  case False
  let ?P = "\<lambda>r. case key_at_restart b r of Inr key \<Rightarrow> key \<le> target | Inl _ \<Rightarrow> False"
  let ?rs = "blk_restarts b"
  define k where "k = partition_point ?P ?rs"
  have ds: "run (blk_entries b) 0 [] = Ok ds" "sorted_wrt (<) (map fst (run_kv ds))" "sorted_wrt (<) ?rs"
    "?rs \<noteq> []" "hd ?rs = 0" "set ?rs \<subseteq> fst ` set ds" "\<forall>(c, d) \<in> set ds. c \<in> set ?rs \<longrightarrow> de_shared d = 0"
    using b False by (auto simp: block_run_def)
  note cs = run_cursors_sorted [OF ds(1)]
  have P: "?P r \<longleftrightarrow> de_key d \<le> target" if "(r, d) \<in> set ds" "r \<in> set ?rs" for r d
    using key_at_restart_run [OF b that] by simp
  have "?P (?rs ! i)" if ij: "i < j" "j < length ?rs" "?P (?rs ! j)" for i j
  proof -
    from ij have "?rs ! i \<in> set ?rs" "?rs ! j \<in> set ?rs" by auto
    moreover from this obtain d d' where dd: "(?rs ! i, d) \<in> set ds" "(?rs ! j, d') \<in> set ds"
      using ds(6) by fastforce
    ultimately show ?thesis
      using P run_mono [OF cs ds(2) dd] sorted_wrt_nth_less [OF ds(3) ij(1,2)] ij(3)
      by (metis less_imp_le order_trans)
  qed
  then have k: "k = length (takeWhile ?P ?rs)" unfolding k_def by (rule partition_point_correct)
  then have idx: "k - 1 < length ?rs" using ds(4) length_takeWhile_le [of ?P ?rs] by (cases ?rs) auto
  define c where "c = ?rs ! (k - 1)"
  have c: "c \<in> set ?rs" using idx by (simp add: c_def)
  then obtain d pre post where split: "ds = pre @ (c, d) # post"
    using ds(6) by (metis image_iff prod.collapse split_list subsetD)
  have before: "\<not> target \<le> fst kv" if "kv \<in> set (run_kv pre)" for kv
  proof -
    from that obtain c0 d0 where e: "(c0, d0) \<in> set pre" "fst kv = de_key d0" by (auto simp: run_kv_def)
    then have "c0 < c" using cs split by (auto simp: sorted_wrt_append)
    then have "k \<noteq> 0" using ds(4,5) by (auto simp: c_def hd_conv_nth)
    with k have "k - 1 < length (takeWhile ?P ?rs)" by linarith
    then have "?P c" unfolding c_def by (rule takeWhile_at)
    then have "de_key d \<le> target" using P [of c d] c split by simp
    moreover have "de_key d0 < de_key d"
      using run_mono [OF cs ds(2) _ _ \<open>c0 < c\<close>] e(1) split by auto
    ultimately show ?thesis using e(2) by simp
  qed
  have "run (blk_entries b) c [] = Ok ((c, d) # post)"
    using run_suffix [of "blk_entries b" 0 "[]" pre c d post] ds(1,7) c split by auto
  from seek_loop_run [OF this, of target]
  have "seek_loop (blk_entries b) target c [] = Ok (find (\<lambda>kv. target \<le> fst kv) (run_kv ds))"
    using before split by (simp add: find_skip)
  with b False idx show ?thesis
    by (auto simp: block_seek_def block_is_empty_def block_run_def Let_def c_def k_def)
qed

lemma block_decode_map:
  assumes "block_decode encoded = Ok b"
  shows "\<exists>kvs. block_items b = map Ok kvs \<and> length kvs = block_len b \<and> sorted_wrt (<) (map fst kvs) \<and>
    (\<forall>target. block_seek b target = Ok (find (\<lambda>kv. target \<le> fst kv) kvs))"
proof -
  from block_decode_run [OF assms] obtain ds where ds: "block_run b ds" ..
  then have "block_items b = map Ok (run_kv ds)"
    by (simp add: block_items_def block_iter_new_def bi_collect_run block_run_def)
  with ds block_seek_run [OF ds] show ?thesis
    by (intro exI [of _ "run_kv ds"]) (simp add: block_run_def block_len_def)
qed

text \<open>
  C14. Every block the decoder accepts is a sorted map, whoever wrote it: iteration yields, without
  an error, \<open>len\<close> entries with strictly increasing keys, and \<open>seek\<close> (binary search
  over the restarts and a bounded scan) returns the first of them whose key is not below the target.
\<close>

theorem block_seek_correct:
  assumes "block_decode encoded = Ok b"
  shows "\<exists>kvs. block_items b = map Ok kvs \<and> length kvs = block_len b \<and> sorted_wrt (<) (map fst kvs) \<and>
    (\<forall>target. block_seek b target = Ok (find (\<lambda>kv. target \<le> fst kv) kvs))"
  by (rule block_decode_map [OF assms])

lemma find_sorted:
  "sorted_wrt (<) (map fst kvs) \<Longrightarrow> (k, v) \<in> set kvs \<Longrightarrow>
    find (\<lambda>kv. k \<le> fst kv) kvs = Some (k :: bytes, v)"
  by (induction kvs) fastforce+

section \<open>Errors\<close>

lemma decode_restarts_Err:
  assumes "decode_restarts enc e rc is rs = Err x" "\<forall>i \<in> set is. e + i * 4 + 4 \<le> length enc"
  shows "x = Corruption DataBlockCtx"
  using assms
proof (induction "is" arbitrary: rs)
  case (Cons i "is")
  then show ?case
    by (auto simp: rbind_Err_iff ok_or_Ok_iff ok_or_Err_iff arith_defs slice_get_def FIXED_RESTART_BYTES_def Let_def
        split: if_splits)
qed simp

lemma decode_entry_Err: "decode_entry entries c prev = Err x \<Longrightarrow> x = Corruption DataBlockCtx"
  by (auto simp: decode_entry_def rbind_Err_iff ok_or_Err_iff block_checked_add_def split: if_splits)

lemma validate_entries_Err:
  "validate_entries entries R c prev n obs = Err x \<Longrightarrow> x = Corruption DataBlockCtx"
proof (induction entries R c prev n obs rule: validate_entries.induct)
  case (1 entries R c prev n obs)
  then show ?case
    by (auto simp: validate_entries.simps [of entries R c] Let_def rbind_Err_iff split: if_splits
        dest: decode_entry_Err)
qed

lemma block_decode_Err:
  assumes "block_decode encoded = Err e"
  shows "e = Corruption DataBlockCtx"
proof -
  define n where "n = unat (u32_from_le (drop (length encoded - 4) encoded))"
  have "e = Corruption DataBlockCtx"
    if "decode_restarts encoded (length encoded - 4 - n * 4) n [0..<n] [] = Err e" "n * 4 \<le> length encoded - 4"
      "8 \<le> length encoded"
    using that by (intro decode_restarts_Err) auto
  with assms show ?thesis
    by (auto simp: block_decode_def Let_def rbind_Err_iff ok_or_Ok_iff ok_or_Err_iff arith_defs
        FIXED_RESTART_BYTES_def not_less n_def [symmetric] split: if_splits dest: validate_entries_Err)
qed


section \<open>The builder\<close>

fun bb_adds :: "block_builder \<Rightarrow> (bytes \<times> bytes) list \<Rightarrow> block_builder result" where
  "bb_adds bb [] = Ok bb"
| "bb_adds bb ((k, v) # kvs) = rbind (bb_add bb k v) (\<lambda>bb. bb_adds bb kvs)"

lemma bb_adds_snoc:
  "bb_adds bb (kvs @ [(k, v)]) = rbind (bb_adds bb kvs) (\<lambda>bb. bb_add bb k v)"
proof (induction bb kvs rule: bb_adds.induct)
  case (1 bb)
  then show ?case by (cases "bb_add bb k v") auto
next
  case (2 bb k' v' kvs)
  then show ?case by (cases "bb_add bb k' v'") auto
qed

lemma shared_prefix_le: "shared_prefix xs ys \<le> length xs" "shared_prefix xs ys \<le> length ys"
  by (induction xs ys rule: shared_prefix.induct) auto

lemma take_shared_prefix: "take (shared_prefix xs ys) xs = take (shared_prefix xs ys) ys"
  by (induction xs ys rule: shared_prefix.induct) auto

lemma read_varint_append:
  assumes "read_varint enc start = Some (v, n)" "length (enc @ xs) \<le> usize_max"
  shows "read_varint (enc @ xs) start = Some (v, n)"
proof -
  note r = read_varint_Some [OF assms(1)]
  have "enc = take start enc @ varint v @ drop (start + n) enc"
    using r(3) append_take_drop_id [of n "drop start enc"] append_take_drop_id [of start enc]
    by (simp add: add.commute)
  from arg_cong [OF this, of "\<lambda>y. y @ xs"]
  have e: "enc @ xs = take start enc @ varint v @ drop (start + n) enc @ xs" by (simp only: append_assoc)
  have "length (take start enc) = start" using r(1) by simp
  then show ?thesis
    using read_varint_varint [of "take start enc" v "drop (start + n) enc @ xs"] assms(2) r(2)
    unfolding e [symmetric] by simp
qed

lemma usize_try_from_eq [simp]: "usize_try_from v = Some (unat v)"
  using unat_lt2p [of v] by (simp add: usize_try_from_def usize_max_def)

lemma decode_entry_append:
  assumes "decode_entry es c prev = Ok d" "length (es @ xs) \<le> usize_max"
  shows "decode_entry (es @ xs) c prev = Ok d"
  using assms
  by (auto simp: decode_entry_def result_iffs read_varint_append [OF _ assms(2)] slice_get_Some split: if_splits)

lemma run_append:
  assumes "run es c prev = Ok ds" "length (es @ xs) \<le> usize_max" "c \<le> length es"
    and "run (es @ xs) (length es) (if ds = [] then prev else de_key (snd (last ds))) = Ok ds'"
  shows "run (es @ xs) c prev = Ok (ds @ ds')"
  using assms
proof (induction ds arbitrary: c prev)
  case Nil
  then show ?case by (simp add: run_Nil)
next
  case (Cons x ds)
  from Cons.prems(1) obtain d where r: "x = (c, d)" "decode_entry es c prev = Ok d"
    "run es (de_next d) (de_key d) = Ok ds" by (rule run_Cons)
  have "run (es @ xs) (de_next d) (de_key d) = Ok (ds @ ds')"
    using r(1) Cons.prems decode_entry_next(3) [OF r(2)] by (intro Cons.IH [OF r(3)]) (auto split: if_splits)
  with decode_entry_append [OF r(2) Cons.prems(2)] r(1) show ?case by (auto intro: run_step)
qed

lemma decode_entry_encode:
  assumes "enc = pre @ varint s @ varint u @ varint l @ sfx @ v" "length enc \<le> usize_max"
    and "unat u = length sfx" "unat l = length v" "unat s \<le> length prev"
    and "unat s + length sfx \<le> usize_max"
  shows "decode_entry enc (length pre) prev =
    Ok \<lparr>de_shared = unat s, de_key = take (unat s) prev @ sfx, de_value = v, de_next = length enc\<rparr>"
proof -
  let ?a = "length pre + length (varint s)"
  let ?b = "?a + length (varint u)"
  let ?c = "?b + length (varint l)"
  have r: "read_varint enc (length pre) = Some (s, length (varint s))"
    "read_varint enc ?a = Some (u, length (varint u))"
    "read_varint enc ?b = Some (l, length (varint l))"
    using read_varint_varint [of pre s "varint u @ varint l @ sfx @ v"]
      read_varint_varint [of "pre @ varint s" u "varint l @ sfx @ v"]
      read_varint_varint [of "pre @ varint s @ varint u" l "sfx @ v"] assms(1,2) by (simp_all add: add.assoc)
  have "slice_get enc ?c (?c + length sfx) = Some sfx"
    "slice_get enc (?c + length sfx) (?c + length sfx + length v) = Some v"
    using assms(1) by (simp_all add: slice_get_def)
  moreover have "?c + length sfx + length v = length enc" using assms(1) by simp
  ultimately show ?thesis
    using r assms(2-6) by (simp add: decode_entry_def block_checked_add_def checked_add_usize_def)
qed

text \<open>The state of a builder after adding \<open>kvs\<close>: its bytes are a run of them.\<close>

definition bb_inv :: "block_builder \<Rightarrow> (usize \<times> decoded_entry) list \<Rightarrow> bool" where
  "bb_inv bb ds \<longleftrightarrow>
    run (bb_entries bb) 0 [] = Ok ds \<and> bb_entry_count bb = length ds \<and>
    sorted_wrt (<) (map fst (run_kv ds)) \<and> 0 < bb_restart_interval bb \<and>
    bb_previous_key bb = (if ds = [] then [] else de_key (snd (last ds))) \<and>
    (if ds = [] then bb_restarts bb = [0] \<and> bb_entries_since_restart bb = 0 \<and> bb_entries bb = []
     else set (map unat (bb_restarts bb)) \<subseteq> fst ` set ds) \<and>
    sorted_wrt (<) (map unat (bb_restarts bb)) \<and> bb_restarts bb \<noteq> [] \<and> hd (bb_restarts bb) = 0 \<and>
    2 * length (bb_restarts bb) \<le> unat (last (bb_restarts bb)) + 2 \<and>
    (\<forall>(c, d) \<in> set ds. c \<in> set (map unat (bb_restarts bb)) \<longrightarrow> de_shared d = 0)"

lemma bb_inv_new: "bb_try_new n = Ok bb \<Longrightarrow> bb_inv bb []"
  by (auto simp: bb_try_new_def bb_inv_def run_Nil split: if_splits)

lemma bb_add_cases:
  assumes "bb_add bb k v = Ok bb'"
  obtains sh rs where
    "bb_entry_count bb \<noteq> 0 \<longrightarrow> bb_previous_key bb < k"
    "sh \<le> length (bb_previous_key bb)" "sh \<le> length k" "take sh (bb_previous_key bb) = take sh k"
    "rs = bb_restarts bb \<or> (sh = 0 \<and> bb_entries_since_restart bb = bb_restart_interval bb \<and>
      length (bb_entries bb) < 2 ^ 32 \<and> rs = bb_restarts bb @ [word_of_nat (length (bb_entries bb))])"
    "sh < 2 ^ 64" "length k - sh < 2 ^ 64" "length v < 2 ^ 64"
    "bb_entries bb' = bb_entries bb @ varint (word_of_nat sh) @ varint (word_of_nat (length k - sh)) @
      varint (word_of_nat (length v)) @ drop sh k @ v"
    "bb_restarts bb' = rs" "bb_previous_key bb' = k" "bb_entry_count bb' = Suc (bb_entry_count bb)"
    "bb_restart_interval bb' = bb_restart_interval bb"
proof (cases "bb_entries_since_restart bb = bb_restart_interval bb")
  case True
  with assms show ?thesis
    by (intro that [of 0 "bb_restarts bb @ [word_of_nat (length (bb_entries bb))]"])
      (auto simp: bb_add_def result_iffs arith_defs put_varint_append not_le Let_def split: if_splits)
next
  case False
  let ?sh = "shared_prefix (bb_previous_key bb) k"
  from False assms show ?thesis
    by (intro that [of ?sh "bb_restarts bb"])
      (auto simp: bb_add_def result_iffs arith_defs put_varint_append not_le Let_def
        shared_prefix_le take_shared_prefix split: if_splits)
qed

lemma run_end:
  assumes "run es c prev = Ok ds" "r \<in> fst ` set ds"
  shows "r + 3 \<le> length es"
  using assms(2) run_cursors(2,3) [OF assms(1)] by fastforce

text \<open>One more entry at offset \<open>n\<close>, possibly with a restart, after entries at offsets \<open>C\<close>.\<close>

lemma restarts_step:
  fixes rs0 :: "u32 list"
  assumes old: "2 * length rs0 \<le> unat (last rs0) + 2" "rs0 \<noteq> []" "sorted_wrt (<) (map unat rs0)" "hd rs0 = 0"
    "unat ` set rs0 \<subseteq> C" "\<forall>c \<in> C. c + 3 \<le> n"
    and rs: "rs = rs0 \<or> (sh = 0 \<and> n < 2 ^ 32 \<and> rs = rs0 @ [word_of_nat n])"
  shows "sorted_wrt (<) (map unat rs) \<and> rs \<noteq> [] \<and> hd rs = 0 \<and> 2 * length rs \<le> unat (last rs) + 2 \<and>
    unat ` set rs \<subseteq> insert n C \<and> (n \<in> unat ` set rs \<longrightarrow> sh = (0 :: nat)) \<and>
    C \<inter> unat ` set rs \<subseteq> unat ` set rs0"
proof (cases "rs = rs0")
  case True
  moreover have "n \<notin> C" using old(6) by auto
  ultimately show ?thesis using old by auto
next
  case False
  then have r: "rs = rs0 @ [word_of_nat n]" "sh = 0" "n < 2 ^ 32" using rs by auto
  have u: "unat (word_of_nat n :: u32) = n" using r(3) by (intro unat_of_nat_eq) simp
  have last: "unat (last rs0) + 3 \<le> n" using old(2,5,6) by (meson image_subset_iff last_in_set)
  then have "sorted_wrt (<) (map unat rs0 @ [n])"
    using old(2,3) by (intro sorted_snoc) (auto simp: last_map)
  moreover have "n \<notin> C" using old(6) by auto
  ultimately show ?thesis using r u old(1,2,4,5) last by (auto simp: hd_append)
qed

lemma bb_inv_add:
  assumes inv: "bb_inv bb ds" and add: "bb_add bb k v = Ok bb'"
    and len: "length (bb_entries bb') \<le> usize_max" "length k \<le> usize_max"
  shows "\<exists>d. bb_inv bb' (ds @ [(length (bb_entries bb), d)]) \<and> de_key d = k \<and> de_value d = v"
  using add
proof (rule bb_add_cases)
  fix sh rs
  assume a: "bb_entry_count bb \<noteq> 0 \<longrightarrow> bb_previous_key bb < k"
    "sh \<le> length (bb_previous_key bb)" "sh \<le> length k" "take sh (bb_previous_key bb) = take sh k"
    and rs: "rs = bb_restarts bb \<or> (sh = 0 \<and> bb_entries_since_restart bb = bb_restart_interval bb \<and>
      length (bb_entries bb) < 2 ^ 32 \<and> rs = bb_restarts bb @ [word_of_nat (length (bb_entries bb))])"
    and b: "sh < 2 ^ 64" "length k - sh < 2 ^ 64" "length v < 2 ^ 64"
    and es: "bb_entries bb' = bb_entries bb @ varint (word_of_nat sh) @ varint (word_of_nat (length k - sh)) @
      varint (word_of_nat (length v)) @ drop sh k @ v"
    and f: "bb_restarts bb' = rs" "bb_previous_key bb' = k" "bb_entry_count bb' = Suc (bb_entry_count bb)"
    "bb_restart_interval bb' = bb_restart_interval bb"
  let ?es = "bb_entries bb" and ?rs0 = "bb_restarts bb" and ?C = "fst ` set ds"
  define d where "d = \<lparr>de_shared = sh, de_key = k, de_value = v, de_next = length (bb_entries bb')\<rparr>"
  let ?ds = "ds @ [(length ?es, d)]"
  have "decode_entry (bb_entries bb') (length ?es) (bb_previous_key bb) = Ok d"
    using decode_entry_encode [OF es len(1), of "bb_previous_key bb"] a(2-4) b len(2)
    by (simp add: unat_of_nat_eq d_def del: of_nat_diff)
  then have "run (bb_entries bb') (length ?es) (bb_previous_key bb) = Ok [(length ?es, d)]"
    by (rule run_step) (simp add: run_Nil d_def)
  then have run: "run (bb_entries bb') 0 [] = Ok ?ds"
    using inv len(1) unfolding es by (intro run_append) (auto simp: bb_inv_def)
  have rs': "sorted_wrt (<) (map unat rs) \<and> rs \<noteq> [] \<and> hd rs = 0 \<and> 2 * length rs \<le> unat (last rs) + 2 \<and>
      unat ` set rs \<subseteq> insert (length ?es) ?C \<and> (length ?es \<in> unat ` set rs \<longrightarrow> sh = 0) \<and>
      ?C \<inter> unat ` set rs \<subseteq> unat ` set ?rs0"
  proof (cases "ds = []")
    case True
    then show ?thesis using inv rs a(2) by (auto simp: bb_inv_def)
  next
    case False
    then show ?thesis
      using inv rs run_end [of ?es 0 "[]" ds] by (intro restarts_step) (auto simp: bb_inv_def)
  qed
  have "de_shared e = 0" if e: "(c, e) \<in> set ?ds" "c \<in> unat ` set rs" for c e
  proof (cases "(c, e) \<in> set ds")
    case True
    then have "c \<in> ?C" by force
    with e(2) rs' have "c \<in> unat ` set ?rs0" by blast
    with True inv show ?thesis by (auto simp: bb_inv_def)
  qed (use e rs' in \<open>auto simp: d_def\<close>)
  moreover have "sorted_wrt (<) (map fst (run_kv ds) @ [k])"
    using inv a(1) by (intro sorted_snoc) (auto simp: bb_inv_def run_kv_def last_map split_beta)
  ultimately have "bb_inv bb' ?ds"
    using inv run f rs' by (simp add: bb_inv_def d_def) blast
  then show ?thesis by (intro exI [of _ d]) (simp add: d_def)
qed

lemma bb_add_entries:
  assumes "bb_add bb k v = Ok bb'"
  shows "length (bb_entries bb) \<le> length (bb_entries bb')"
  using assms by (rule bb_add_cases) simp

lemma bb_inv_adds:
  assumes "bb_try_new n = Ok bb0" "bb_adds bb0 kvs = Ok bb" "length (bb_entries bb) \<le> usize_max"
    and "\<forall>(k, v) \<in> set kvs. length k \<le> usize_max"
  shows "\<exists>ds. bb_inv bb ds \<and> run_kv ds = kvs"
  using assms(2-4)
proof (induction kvs arbitrary: bb rule: rev_induct)
  case Nil
  then show ?case using bb_inv_new [OF assms(1)] by auto
next
  case (snoc kv kvs)
  obtain k v where kv: "kv = (k, v)" by fastforce
  from snoc.prems(1) kv obtain bb1 where bb1: "bb_adds bb0 kvs = Ok bb1" "bb_add bb1 k v = Ok bb"
    by (auto simp: bb_adds_snoc rbind_Ok_iff)
  from snoc.IH [OF bb1(1)] snoc.prems bb_add_entries [OF bb1(2)]
  obtain ds where "bb_inv bb1 ds" "run_kv ds = kvs" by auto
  with bb_inv_add [OF _ bb1(2) snoc.prems(2), of ds] snoc.prems(3) kv show ?case by fastforce
qed

lemma drop_concat_u32:
  "i < length rs \<Longrightarrow> take 4 (drop (i * 4) (concat (map u32_to_le rs) @ zs)) = u32_to_le (rs ! i)"
proof (induction rs arbitrary: i)
  case (Cons r rs)
  then show ?case by (cases i) simp_all
qed simp

lemma length_concat_u32 [simp]: "length (concat (map u32_to_le rs)) = length rs * 4"
  by (induction rs) simp_all

lemma decode_restarts_encode:
  assumes enc: "enc = es @ concat (map u32_to_le rs) @ zs" "length enc \<le> usize_max"
    and rs: "sorted_wrt (<) (map unat rs)" "rs \<noteq> []" "hd rs = 0"
      "\<forall>r \<in> set rs. es \<noteq> [] \<longrightarrow> unat r < length es" "es = [] \<longrightarrow> rs = [0]"
    and "k \<le> length rs"
  shows "decode_restarts enc (length es) (length rs) [k..<length rs] (map unat (take k rs)) = Ok (map unat rs)"
  using assms(8)
proof (induction "length rs - k" arbitrary: k)
  case 0
  then show ?case by simp
next
  case (Suc m)
  then have k: "k < length rs" "[k..<length rs] = k # [Suc k..<length rs]" by (auto simp: upt_conv_Cons)
  have raw: "slice_get enc (length es + k * 4) (length es + k * 4 + 4) = Some (u32_to_le (rs ! k))"
    using k(1) drop_concat_u32 [OF k(1), of zs] enc(1) by (simp add: slice_get_def)
  have arith: "k * 4 \<le> usize_max" "length es + k * 4 \<le> usize_max" using k(1) enc by auto
  have first: "k = 0 \<longrightarrow> unat (rs ! k) = 0" using rs(2,3) by (simp add: hd_conv_nth)
  have mono: "k > 0 \<longrightarrow> map unat (take k rs) ! (k - 1) < unat (rs ! k)"
    using sorted_wrt_nth_less [OF rs(1), of "k - 1" k] k(1) by simp
  have range: "es \<noteq> [] \<longrightarrow> unat (rs ! k) < length es" using rs(4) k(1) by simp
  have empty: "es = [] \<longrightarrow> length rs = 1 \<and> unat (rs ! k) = 0" using rs(5) k(1) by auto
  have "decode_restarts enc (length es) (length rs) [Suc k..<length rs] (map unat (take k rs) @ [unat (rs ! k)])
      = Ok (map unat rs)"
    using Suc.hyps(1) [of "Suc k"] Suc.hyps(2) k(1) by (simp add: take_Suc_conv_app_nth)
  with raw arith first mono range empty show ?case
    by (auto simp: k(2) checked_mul_usize_def checked_add_usize_def FIXED_RESTART_BYTES_def Let_def)
qed

lemma block_decode_finish:
  assumes inv: "bb_inv bb ds" and len: "length (bb_finish bb) \<le> usize_max"
  shows "\<exists>b. block_decode (bb_finish bb) = Ok b \<and> block_run b ds"
proof -
  let ?es = "bb_entries bb" and ?rs = "bb_restarts bb" and ?enc = "bb_finish bb"
  let ?n = "length ?rs" and ?R = "map unat (bb_restarts bb)"
  have enc: "?enc = ?es @ concat (map u32_to_le ?rs) @ u32_to_le (word_of_nat ?n)"
    by (simp add: bb_finish_def)
  have cs: "c < length ?es" if "c \<in> fst ` set ds" for c
    using run_end [of ?es 0 "[]" ds c] that inv by (simp add: bb_inv_def)
  have "unat (last ?rs) < 2 ^ 32" using unat_lt2p [of "last ?rs"] by simp
  then have n: "?n \<noteq> 0" "unat (word_of_nat ?n :: u32) = ?n"
    using inv by (auto simp: bb_inv_def unat_of_nat_eq)
  have nil: "?es = [] \<longleftrightarrow> ds = []"
    using inv by (auto simp: bb_inv_def run.simps [of "[]"] split: if_splits)
  have "unat r < length ?es" if "r \<in> set ?rs" "?es \<noteq> []" for r
  proof (rule cs)
    from inv nil that have "unat ` set ?rs \<subseteq> fst ` set ds" by (simp add: bb_inv_def)
    with that show "unat r \<in> fst ` set ds" by blast
  qed
  then have restarts: "decode_restarts ?enc (length ?es) ?n [0..<?n] [] = Ok ?R"
    using decode_restarts_encode [OF enc len, of 0] inv nil by (auto simp: bb_inv_def split: if_splits)
  have "set ?R \<subseteq> set (map fst ds)" if "ds \<noteq> []" using inv that by (auto simp: bb_inv_def)
  then have "length (filter (\<lambda>c. c \<in> set ?R) (map fst ds)) = length ?R" if "ds \<noteq> []"
    using that inv run_cursors_sorted [of ?es 0 "[]" ds]
    by (intro filter_members_length) (auto simp: bb_inv_def intro: strict_sorted_distinct)
  moreover have "validate_entries ?es (set ?R) 0 [] 0 0 =
      Ok (length ?es, length ds, length (filter (\<lambda>c. c \<in> set ?R) (map fst ds)))"
    using validate_entries_run [of ?es 0 "[]" ds "set ?R" 0 0] inv by (simp add: bb_inv_def)
  moreover have "length ?enc = length ?es + ?n * 4 + 4" "take (length ?es) ?enc = ?es"
    "drop (length ?es + ?n * 4) ?enc = u32_to_le (word_of_nat ?n)" by (simp_all add: bb_finish_def)
  ultimately have "block_decode ?enc = Ok \<lparr>blk_entries = ?es, blk_restarts = ?R, blk_entry_count = length ds\<rparr>"
    using n restarts len nil inv
    by (auto simp: block_decode_def FIXED_RESTART_BYTES_def Let_def checked_mul_usize_def checked_sub_usize_def bb_inv_def)
      (cases ?rs; simp)
  moreover have "block_run \<lparr>blk_entries = ?es, blk_restarts = ?R, blk_entry_count = length ds\<rparr> ds"
    using inv by (simp add: block_run_def bb_inv_def hd_map split: if_splits)
  ultimately show ?thesis by blast
qed

text \<open>
  C15. What is built is what is read: for every restart interval and every list of entries the
  builder accepts, the finished bytes decode, iteration yields exactly the entries, and seeking a
  stored key finds its value.
\<close>

theorem block_roundtrip:
  assumes "bb_try_new restart_interval = Ok bb0" "bb_adds bb0 kvs = Ok bb"
    and "length (bb_finish bb) \<le> usize_max" "\<forall>(k, v) \<in> set kvs. length k \<le> usize_max"
  shows "\<exists>b. block_decode (bb_finish bb) = Ok b \<and> block_items b = map Ok kvs \<and>
    (\<forall>(k, v) \<in> set kvs. block_seek b k = Ok (Some (k, v)))"
proof -
  have "length (bb_entries bb) \<le> usize_max" using assms(3) by (simp add: bb_finish_def)
  from bb_inv_adds [OF assms(1,2) this assms(4)] obtain ds where ds: "bb_inv bb ds" "run_kv ds = kvs" by blast
  from block_decode_finish [OF ds(1) assms(3)] obtain b where
    b: "block_decode (bb_finish bb) = Ok b" "block_run b ds" by blast
  have "block_items b = map Ok kvs"
    using b(2) ds(2) by (simp add: block_items_def block_iter_new_def bi_collect_run block_run_def)
  moreover have "block_seek b k = Ok (Some (k, v))" if "(k, v) \<in> set kvs" for k v
    using block_seek_run [OF b(2), of k] that ds b(2) by (simp add: find_sorted block_run_def)
  ultimately show ?thesis using b(1) by blast
qed

text \<open>Three entries at restart interval two, so that the second restart is in the block.\<close>

definition sample_kvs :: "(bytes \<times> bytes) list" where
  "sample_kvs = [([1, 2], [10]), ([1, 3], [11]), ([2], [])]"

definition sample_builder :: block_builder where
  "sample_builder = \<lparr>bb_restart_interval = 2, bb_entries_since_restart = 1,
    bb_entries = [0, 2, 1, 1, 2, 10, 1, 1, 1, 3, 11, 0, 1, 0, 2], bb_restarts = [0, 11],
    bb_previous_key = [2], bb_entry_count = 3\<rparr>"

definition sample_block_bytes :: bytes where
  "sample_block_bytes = [0, 2, 1, 1, 2, 10, 1, 1, 1, 3, 11, 0, 1, 0, 2, 0, 0, 0, 0, 11, 0, 0, 0, 2, 0, 0, 0]"

lemma sample_builder_adds: "bb_adds (expect (bb_try_new 2)) sample_kvs = Ok sample_builder"
  by (simp add: sample_kvs_def sample_builder_def bb_try_new_def bb_add_def arith_defs put_varint_append
      varint_simps Let_def)

lemma sample_builder_finish: "bb_finish sample_builder = sample_block_bytes"
  by (simp add: bb_finish_def sample_builder_def sample_block_bytes_def u32_to_le_def nat_to_le_numeral)

theorem block_roundtrip_witness:
  "\<exists>b. block_decode (bb_finish sample_builder) = Ok b \<and> block_items b = map Ok sample_kvs \<and>
    (\<forall>(k, v) \<in> set sample_kvs. block_seek b k = Ok (Some (k, v)))"
  by (rule block_roundtrip [OF _ sample_builder_adds, of 2])
    (simp_all add: bb_try_new_def sample_builder_finish sample_block_bytes_def usize_max_def sample_kvs_def)

theorem block_seek_correct_witness:
  "\<exists>kvs. block_items (expect (block_decode sample_block_bytes)) = map Ok kvs \<and>
    length kvs = block_len (expect (block_decode sample_block_bytes)) \<and> sorted_wrt (<) (map fst kvs) \<and>
    (\<forall>target. block_seek (expect (block_decode sample_block_bytes)) target =
      Ok (find (\<lambda>kv. target \<le> fst kv) kvs))"
proof (rule block_seek_correct)
  have len: "length (bb_finish sample_builder) \<le> usize_max"
    by (simp add: sample_builder_finish sample_block_bytes_def usize_max_def)
  have "\<exists>ds. bb_inv sample_builder ds \<and> run_kv ds = sample_kvs"
    using bb_inv_adds [OF _ sample_builder_adds, of 2] len
    by (simp add: bb_try_new_def bb_finish_def sample_kvs_def usize_max_def)
  then obtain b where "block_decode sample_block_bytes = Ok b"
    using block_decode_finish [OF _ len] sample_builder_finish by metis
  then show "block_decode sample_block_bytes = Ok (expect (block_decode sample_block_bytes))" by simp
qed


end
