(* ===== verification/Sst_Builder.thy ===== *)
theory Sst_Builder
  imports Sst_Block Bloom_Filter Configuration Mvcc
begin

text \<open>
  The SSTable builder (\<open>sstable/builder.rs\<close>): entries are grouped into blocks, each block is
  stored with its checksum, and \<open>finish\<close> adds the Bloom filter, the index, the properties
  and the footer and synchronizes the file.  The Snappy codec is a parameter.
\<close>

section \<open>Definitions\<close>

text \<open>
  The codec of the \<open>snap\<close> crate: \<open>compress_vec\<close>, \<open>decompress_len\<close> and
  \<open>decompress_vec\<close>, with \<open>None\<close> for an error.
\<close>

record snap_lib =
  snap_compress :: "bytes \<Rightarrow> bytes option"
  snap_decompress_len :: "bytes \<Rightarrow> usize option"
  snap_decompress :: "bytes \<Rightarrow> bytes option"

text \<open>
  What the crate documents: decompression undoes compression, the header holds the length, and
  the output is at most \<open>max_compress_len\<close> bytes.
\<close>

definition snap_lossless :: "snap_lib \<Rightarrow> bool" where
  "snap_lossless snap \<longleftrightarrow> (\<forall>payload c. snap_compress snap payload = Some c \<longrightarrow>
    snap_decompress snap c = Some payload \<and> snap_decompress_len snap c = Some (length payload) \<and>
    length c \<le> 32 + length payload + length payload div 6)"

definition FOOTER_HANDLE_BYTES :: usize where "FOOTER_HANDLE_BYTES = 20"

record table_properties =
  tp_file_number :: u64
  tp_entries :: u64
  tp_data_blocks :: u64
  tp_compression :: compression
  tp_smallest :: internal_key
  tp_largest :: internal_key
  tp_max_data_block_bytes :: u64
  tp_engine_value_encoding :: bool

record table_build_result =
  tbr_file_number :: u64
  tbr_file_size :: u64
  tbr_smallest :: internal_key
  tbr_largest :: internal_key
  tbr_entries :: u64

record data_block_meta =
  dbm_first :: bytes
  dbm_last :: bytes
  dbm_handle :: block_handle

record table_builder =
  tb_path :: path
  tb_file_number :: u64
  tb_offset :: u64
  tb_block_bytes :: usize
  tb_restart_interval :: usize
  tb_bloom_bits_per_key :: u8
  tb_compression :: compression
  tb_block :: "block_builder option"
  tb_pending_bytes :: usize
  tb_pending_first :: "bytes option"
  tb_pending_last :: "bytes option"
  tb_previous_key :: "bytes option"
  tb_filter_keys :: "bytes list"
  tb_data_blocks :: "data_block_meta list"
  tb_entries :: u64
  tb_smallest :: "internal_key option"
  tb_largest :: "internal_key option"
  tb_max_data_block_bytes :: u64
  tb_engine_value_encoding :: bool

definition tb_create ::
  "path \<Rightarrow> u64 \<Rightarrow> usize \<Rightarrow> usize \<Rightarrow> u8 \<Rightarrow> compression \<Rightarrow> fs \<Rightarrow> table_builder result \<times> fs" where
  "tb_create path file_number block_bytes restart_interval bloom_bits_per_key compression fs =
    (if block_bytes = 0 then (Err InvalidArgument, fs)
     else if bloom_bits_per_key = 0 then (Err InvalidArgument, fs)
     else case bb_try_new restart_interval of
       Inl e \<Rightarrow> (Err e, fs)
     | Inr block \<Rightarrow>
         (case fs_create path fs of
            (Inl k, fs) \<Rightarrow> (Err (Io ''create SSTable'' path k), fs)
          | (Inr _, fs) \<Rightarrow>
              (Ok \<lparr>tb_path = path, tb_file_number = file_number, tb_offset = 0, tb_block_bytes = block_bytes,
                 tb_restart_interval = restart_interval, tb_bloom_bits_per_key = bloom_bits_per_key,
                 tb_compression = compression, tb_block = Some block, tb_pending_bytes = 0,
                 tb_pending_first = None, tb_pending_last = None, tb_previous_key = None,
                 tb_filter_keys = [], tb_data_blocks = [], tb_entries = 0, tb_smallest = None,
                 tb_largest = None, tb_max_data_block_bytes = 0, tb_engine_value_encoding = False\<rparr>, fs)))"

definition tb_use_engine_value_encoding :: "table_builder \<Rightarrow> table_builder" where
  "tb_use_engine_value_encoding tb = tb\<lparr>tb_engine_value_encoding := True\<rparr>"

text \<open>
  Operations on \<open>&mut self\<close> return the builder also when they fail, because the source leaves
  it partly updated.
\<close>

type_synonym 'a tb_op = "table_builder \<Rightarrow> fs \<Rightarrow> 'a result \<times> table_builder \<times> fs"

definition tb_return :: "'a result \<Rightarrow> 'a tb_op" where
  "tb_return r tb fs = (r, tb, fs)"

definition tb_bind :: "'a tb_op \<Rightarrow> ('a \<Rightarrow> 'b tb_op) \<Rightarrow> 'b tb_op" where
  "tb_bind m f tb fs =
    (case m tb fs of (Inl e, tb, fs) \<Rightarrow> (Err e, tb, fs) | (Inr x, tb, fs) \<Rightarrow> f x tb fs)"

definition tb_modify :: "(table_builder \<Rightarrow> table_builder) \<Rightarrow> unit tb_op" where
  "tb_modify f tb fs = (Ok (), f tb, fs)"

definition tb_get :: "(table_builder \<Rightarrow> 'a tb_op) \<Rightarrow> 'a tb_op" where
  "tb_get f tb fs = f tb tb fs"

definition tb_write_raw :: "bytes \<Rightarrow> unit tb_op" where
  "tb_write_raw bs tb fs =
    (case u64_try_from (length bs) of
       None \<Rightarrow> (Err InvalidArgument, tb, fs)
     | Some len \<Rightarrow>
         (case checked_add_u64 (tb_offset tb) len of
            None \<Rightarrow> (Err InvalidArgument, tb, fs)
          | Some next \<Rightarrow>
              (case fs_write_all (tb_path tb) bs fs of
                 (Inl k, fs) \<Rightarrow> (Err (Io ''write SSTable'' (tb_path tb) k), tb, fs)
               | (Inr _, fs) \<Rightarrow> (Ok (), tb\<lparr>tb_offset := next\<rparr>, fs))))"

definition stored_payload :: "snap_lib \<Rightarrow> bytes \<Rightarrow> compression \<Rightarrow> (bytes \<times> u8) result" where
  "stored_payload snap payload compression =
    (case compression of
       NoCompression \<Rightarrow> Ok (payload, NO_COMPRESSION)
     | Snappy \<Rightarrow> rbind (ok_or (snap_compress snap payload) (Corruption SstableCtx)) (\<lambda>c.
         Ok (c, SNAPPY_COMPRESSION)))"

definition tb_write_payload :: "crc_lib \<Rightarrow> snap_lib \<Rightarrow> bytes \<Rightarrow> compression \<Rightarrow> block_handle tb_op" where
  "tb_write_payload lib snap payload compression =
    tb_bind (tb_return (stored_payload snap payload compression)) (\<lambda>(stored, marker).
    tb_bind (tb_return (encode_stored_block lib stored marker)) (\<lambda>encoded.
    tb_bind (tb_return (ok_or (u64_try_from (length encoded)) InvalidArgument)) (\<lambda>size.
    tb_get (\<lambda>tb. let handle = \<lparr>bh_offset = tb_offset tb, bh_size = size\<rparr> in
    tb_bind (tb_write_raw encoded) (\<lambda>_. tb_return (Ok handle))))))"

definition tb_flush_data_block :: "crc_lib \<Rightarrow> snap_lib \<Rightarrow> unit tb_op" where
  "tb_flush_data_block lib snap =
    tb_get (\<lambda>tb.
      if tb_pending_bytes tb = 0 then tb_return (Ok ())
      else
        tb_bind (tb_return (ok_or (tb_block tb) Panic)) (\<lambda>builder.
        let block = bb_finish builder in
        tb_bind (tb_modify (\<lambda>tb. tb\<lparr>tb_block := None\<rparr>)) (\<lambda>_.
        tb_bind (tb_return (ok_or (u64_try_from (length block)) InvalidArgument)) (\<lambda>len.
        tb_bind (tb_modify (\<lambda>tb. tb\<lparr>tb_max_data_block_bytes := max (tb_max_data_block_bytes tb) len\<rparr>)) (\<lambda>_.
        tb_bind (tb_write_payload lib snap block (tb_compression tb)) (\<lambda>handle.
        tb_get (\<lambda>tb.
        tb_bind (tb_return (ok_or (tb_pending_first tb) Panic)) (\<lambda>first.
        tb_bind (tb_return (ok_or (tb_pending_last tb) Panic)) (\<lambda>last.
        tb_bind (tb_modify (\<lambda>tb. tb\<lparr>tb_pending_first := None, tb_pending_last := None,
          tb_data_blocks := tb_data_blocks tb @ [\<lparr>dbm_first = first, dbm_last = last, dbm_handle = handle\<rparr>]\<rparr>)) (\<lambda>_.
        tb_bind (tb_return (bb_try_new (tb_restart_interval tb))) (\<lambda>block.
        tb_modify (\<lambda>tb. tb\<lparr>tb_block := Some block, tb_pending_bytes := 0\<rparr>))))))))))))"

text \<open>The part of \<open>add\<close> after a full block has been flushed.\<close>

definition tb_add_pending :: "internal_key \<Rightarrow> bytes \<Rightarrow> usize \<Rightarrow> usize \<Rightarrow> unit tb_op" where
  "tb_add_pending key v entry_bytes next_bytes =
    tb_get (\<lambda>tb.
    tb_bind (tb_return (rbind (ok_or (tb_block tb) Panic) (\<lambda>block. bb_add block (ik_encoded key) v))) (\<lambda>block.
    tb_bind (tb_modify (\<lambda>tb. tb\<lparr>tb_block := Some block,
      tb_pending_bytes := (if tb_pending_bytes tb = 0 then entry_bytes else next_bytes),
      tb_pending_first := (case tb_pending_first tb of None \<Rightarrow> Some (ik_encoded key) | Some first \<Rightarrow> Some first),
      tb_pending_last := Some (ik_encoded key),
      tb_previous_key := Some (ik_encoded key),
      tb_filter_keys := tb_filter_keys tb @ [ik_user_key key]\<rparr>)) (\<lambda>_.
    tb_bind (tb_return (ok_or (checked_add_u64 (tb_entries tb) 1) InvalidArgument)) (\<lambda>entries.
    tb_modify (\<lambda>tb. tb\<lparr>tb_entries := entries,
      tb_smallest := (case tb_smallest tb of None \<Rightarrow> Some key | Some smallest \<Rightarrow> Some smallest),
      tb_largest := Some key\<rparr>)))))"

definition tb_add :: "crc_lib \<Rightarrow> snap_lib \<Rightarrow> internal_key \<Rightarrow> bytes \<Rightarrow> unit tb_op" where
  "tb_add lib snap key v =
    tb_get (\<lambda>tb.
      if (case tb_previous_key tb of None \<Rightarrow> False | Some previous \<Rightarrow> ik_encoded key \<le> previous)
      then tb_return (Err InvalidArgument)
      else
        tb_bind (tb_return (ok_or (checked_add_usize (length (ik_encoded key)) (length v)) InvalidArgument)) (\<lambda>entry_bytes.
        tb_bind (tb_return (ok_or (checked_add_usize (tb_pending_bytes tb) entry_bytes) InvalidArgument)) (\<lambda>next_bytes.
        tb_bind (if tb_pending_bytes tb \<noteq> 0 \<and> next_bytes > tb_block_bytes tb
                 then tb_flush_data_block lib snap else tb_return (Ok ())) (\<lambda>_.
        tb_add_pending key v entry_bytes next_bytes))))"

definition shortest_separator :: "bytes \<Rightarrow> bytes \<Rightarrow> bytes" where
  "shortest_separator start limit =
    (let shared = shared_prefix start limit in
     if shared < length start \<and> shared < length limit \<and>
        start ! shared < 0xff \<and> start ! shared + 1 < limit ! shared
     then take shared start @ [start ! shared + 1]
     else start)"

text \<open>The loop that fills the index: separators between neighbours, the last key at the end.\<close>

fun add_index_entries :: "block_builder \<Rightarrow> data_block_meta list \<Rightarrow> block_builder result" where
  "add_index_entries index [] = Ok index"
| "add_index_entries index (m # metas) =
    (let separator = (case metas of [] \<Rightarrow> dbm_last m | next # _ \<Rightarrow> shortest_separator (dbm_last m) (dbm_first next))
     in rbind (bb_add index separator (bh_encode (dbm_handle m))) (\<lambda>index. add_index_entries index metas))"

definition footer_slot :: "block_handle \<Rightarrow> bytes" where
  "footer_slot h = bh_encode h @ replicate (FOOTER_HANDLE_BYTES - length (bh_encode h)) 0"

definition encode_footer :: "block_handle \<Rightarrow> block_handle \<Rightarrow> block_handle \<Rightarrow> bytes" where
  "encode_footer index_handle filter_handle properties_handle =
    footer_slot index_handle @ footer_slot filter_handle @ footer_slot properties_handle @
    u32_to_le SSTABLE_FORMAT_VERSION @ SSTABLE_MAGIC"

definition put_property_key :: "bytes \<Rightarrow> internal_key \<Rightarrow> bytes result" where
  "put_property_key encoded key =
    rbind (ok_or (u64_try_from (length (ik_encoded key))) InvalidArgument) (\<lambda>len.
    Ok (put_varint encoded len @ ik_encoded key))"

definition compression_marker :: "compression \<Rightarrow> u8" where
  "compression_marker c = (case c of NoCompression \<Rightarrow> NO_COMPRESSION | Snappy \<Rightarrow> SNAPPY_COMPRESSION)"

definition encode_properties :: "table_properties \<Rightarrow> bytes result" where
  "encode_properties p =
    (let encoded = put_varint (put_varint (put_varint [] (tp_file_number p)) (tp_entries p)) (tp_data_blocks p);
         encoded = encoded @ [compression_marker (tp_compression p)];
         encoded = put_varint encoded (tp_max_data_block_bytes p)
     in rbind (put_property_key encoded (tp_smallest p)) (\<lambda>encoded.
        rbind (put_property_key encoded (tp_largest p)) (\<lambda>encoded.
        Ok (if tp_engine_value_encoding p then encoded @ [0xe1, 1] else encoded))))"

definition tb_sync :: "unit tb_op" where
  "tb_sync tb fs =
    (case fs_sync_all (tb_path tb) fs of
       (Inl k, fs) \<Rightarrow> (Err (Io ''sync SSTable'' (tb_path tb) k), tb, fs)
     | (Inr _, fs) \<Rightarrow> (Ok (), tb, fs))"

definition tb_finish :: "crc_lib \<Rightarrow> snap_lib \<Rightarrow> table_build_result tb_op" where
  "tb_finish lib snap =
    tb_get (\<lambda>tb.
      if tb_entries tb = 0 then tb_return (Err InvalidArgument)
      else
        tb_bind (tb_flush_data_block lib snap) (\<lambda>_.
        tb_get (\<lambda>tb.
        tb_bind (tb_return (bf_from_keys (tb_filter_keys tb) (tb_bloom_bits_per_key tb))) (\<lambda>bloom.
        tb_bind (tb_write_payload lib snap (bf_encoded bloom) NoCompression) (\<lambda>filter_handle.
        tb_bind (tb_return (bb_try_new (tb_restart_interval tb))) (\<lambda>index.
        tb_bind (tb_return (add_index_entries index (tb_data_blocks tb))) (\<lambda>index.
        tb_bind (tb_write_payload lib snap (bb_finish index) NoCompression) (\<lambda>index_handle.
        tb_bind (tb_return (ok_or (u64_try_from (length (tb_data_blocks tb))) InvalidArgument)) (\<lambda>data_blocks.
        tb_bind (tb_return (ok_or (tb_smallest tb) Panic)) (\<lambda>smallest.
        tb_bind (tb_return (ok_or (tb_largest tb) Panic)) (\<lambda>largest.
        let properties = \<lparr>tp_file_number = tb_file_number tb, tp_entries = tb_entries tb,
              tp_data_blocks = data_blocks, tp_compression = tb_compression tb, tp_smallest = smallest,
              tp_largest = largest, tp_max_data_block_bytes = tb_max_data_block_bytes tb,
              tp_engine_value_encoding = tb_engine_value_encoding tb\<rparr> in
        tb_bind (tb_return (encode_properties properties)) (\<lambda>encoded.
        tb_bind (tb_write_payload lib snap encoded NoCompression) (\<lambda>properties_handle.
        tb_bind (tb_write_raw (encode_footer index_handle filter_handle properties_handle)) (\<lambda>_.
        tb_bind tb_sync (\<lambda>_.
        tb_get (\<lambda>tb.
        tb_return (Ok \<lparr>tbr_file_number = tb_file_number tb, tbr_file_size = tb_offset tb,
          tbr_smallest = smallest, tbr_largest = largest, tbr_entries = tb_entries tb\<rparr>)))))))))))))))))"

section \<open>Running the builder\<close>

lemma tb_bind_Ok:
  "tb_bind m f tb fs = (Inr x, tb', fs') \<longleftrightarrow>
    (\<exists>y tb1 fs1. m tb fs = (Inr y, tb1, fs1) \<and> f y tb1 fs1 = (Inr x, tb', fs'))"
  by (auto simp: tb_bind_def split: prod.splits sum.splits)

lemma tb_return_Ok: "tb_return r tb fs = (Inr x, tb', fs') \<longleftrightarrow> r = Inr x \<and> tb' = tb \<and> fs' = fs"
  by (auto simp: tb_return_def)

lemma tb_modify_Ok: "tb_modify f tb fs = (Inr x, tb', fs') \<longleftrightarrow> tb' = f tb \<and> fs' = fs"
  by (auto simp: tb_modify_def)

lemmas tb_iffs = tb_bind_Ok tb_return_Ok tb_modify_Ok tb_get_def rbind_Ok_iff ok_or_Ok_iff

text \<open>The file under construction: its bytes, and the offset that agrees with their number.\<close>

definition tb_file :: "table_builder \<Rightarrow> fs \<Rightarrow> bytes \<Rightarrow> bool" where
  "tb_file tb fs c \<longleftrightarrow> os_files fs (tb_path tb) = Some c \<and> unat (tb_offset tb) = length c"

lemma fs_write_all_os:
  assumes "fs_write_all p bs s = (Inr u, s')" "os_files s p = Some c"
  shows "os_files s' p = Some (c @ bs)"
proof -
  from assms(1) obtain s1 where o: "observe WriteOp p s = (Inr (), s1)"
    by (auto simp: fs_write_all_def split: prod.splits sum.splits)
  with assms observe_Inr [OF o] show ?thesis by (auto simp: fs_write_all_def record_write_def Let_def)
qed

lemma tb_write_raw_Ok:
  assumes "tb_write_raw bs tb fs = (Inr u, tb', fs')" "tb_file tb fs c"
  shows "\<exists>off. tb' = tb\<lparr>tb_offset := off\<rparr>" "tb_file tb' fs' (c @ bs)"
proof -
  from assms(1) obtain len nxt where w: "u64_try_from (length bs) = Some len"
    "checked_add_u64 (tb_offset tb) len = Some nxt" "fs_write_all (tb_path tb) bs fs = (Inr (), fs')"
    "tb' = tb\<lparr>tb_offset := nxt\<rparr>"
    by (auto simp: tb_write_raw_def split: option.splits prod.splits sum.splits)
  then show "\<exists>off. tb' = tb\<lparr>tb_offset := off\<rparr>" by blast
  have "unat len = length bs" using w(1) by (auto simp: u64_try_from_def unat_of_nat_eq split: if_splits)
  with w checked_add_u64_Some [OF w(2)] fs_write_all_os [OF w(3)] assms(2)
  show "tb_file tb' fs' (c @ bs)" by (simp add: tb_file_def)
qed

text \<open>A stored block at a handle of the file.\<close>

definition stored_at :: "crc_lib \<Rightarrow> bytes \<Rightarrow> block_handle \<Rightarrow> bytes \<Rightarrow> u8 \<Rightarrow> bool" where
  "stored_at lib c h stored marker \<longleftrightarrow>
    unat (bh_offset h) + unat (bh_size h) \<le> length c \<and>
    encode_stored_block lib stored marker = Ok (take (unat (bh_size h)) (drop (unat (bh_offset h)) c))"

lemma stored_at_append: "stored_at lib c h st m \<Longrightarrow> stored_at lib (c @ xs) h st m"
  by (auto simp: stored_at_def)

lemma encode_stored_block_length:
  "encode_stored_block lib st m = Inr enc \<Longrightarrow> length enc = length st + 5"
  by (auto simp: encode_stored_block_def result_iffs split: if_splits)

lemma tb_write_payload_Ok:
  assumes "tb_write_payload lib snap payload cmp tb fs = (Inr h, tb', fs')" "tb_file tb fs c"
  obtains st m enc off where "stored_payload snap payload cmp = Inr (st, m)"
    "tb' = tb\<lparr>tb_offset := off\<rparr>" "tb_file tb' fs' (c @ enc)" "stored_at lib (c @ enc) h st m"
    "unat (bh_offset h) = length c" "unat (bh_size h) = length enc" "length enc = length st + 5"
proof -
  from assms(1) obtain st m enc size where w: "stored_payload snap payload cmp = Inr (st, m)"
    "encode_stored_block lib st m = Inr enc" "u64_try_from (length enc) = Some size"
    "tb_write_raw enc tb fs = (Inr (), tb', fs')" "h = \<lparr>bh_offset = tb_offset tb, bh_size = size\<rparr>"
    by (auto simp: tb_write_payload_def tb_iffs Let_def split: prod.splits)
  have "unat size = length enc" using w(3) by (auto simp: u64_try_from_def unat_of_nat_eq split: if_splits)
  moreover obtain off where "tb' = tb\<lparr>tb_offset := off\<rparr>" using tb_write_raw_Ok(1) [OF w(4) assms(2)] by blast
  ultimately show ?thesis
    using w assms(2) tb_write_raw_Ok(2) [OF w(4) assms(2)] encode_stored_block_length [OF w(2)]
    by (intro that [of st m off enc]) (auto simp: stored_at_def tb_file_def)
qed

text \<open>Separators lie between the blocks they separate.\<close>

lemma shared_prefix_split:
  assumes "shared_prefix xs ys < length xs" "shared_prefix xs ys < length ys"
  shows "xs ! shared_prefix xs ys \<noteq> ys ! shared_prefix xs ys"
  using assms by (induction xs ys rule: shared_prefix.induct) auto

lemma shortest_separator_between:
  assumes "start < limit"
  shows "start \<le> shortest_separator start limit" "shortest_separator start limit < limit"
proof -
  let ?n = "shared_prefix start limit"
  have "start \<le> shortest_separator start limit \<and> shortest_separator start limit < limit"
  proof (cases "?n < length start \<and> ?n < length limit \<and> start ! ?n < 0xff \<and> start ! ?n + 1 < limit ! ?n")
    case True
    let ?p = "take ?n start"
    have s: "start = ?p @ start ! ?n # drop (Suc ?n) start" "limit = ?p @ limit ! ?n # drop (Suc ?n) limit"
      using True id_take_nth_drop [of ?n start] id_take_nth_drop [of ?n limit] take_shared_prefix [of start limit]
      by simp_all
    have "start ! ?n < start ! ?n + 1"
      using True by (simp add: word_less_nat_alt unat_word_ariths)
    then have "?p @ start ! ?n # drop (Suc ?n) start < ?p @ [start ! ?n + 1]"
      "?p @ [start ! ?n + 1] < ?p @ limit ! ?n # drop (Suc ?n) limit"
      using True by (simp_all add: less_append_left)
    with s True show ?thesis by (simp add: shortest_separator_def Let_def)
  next
    case False
    then show ?thesis using assms by (auto simp: shortest_separator_def Let_def)
  qed
  then show "start \<le> shortest_separator start limit" "shortest_separator start limit < limit" by blast+
qed

section \<open>The state of a builder\<close>

text \<open>What a block payload holds, for every reader of blocks.\<close>

definition block_holds :: "bytes \<Rightarrow> (bytes \<times> bytes) list \<Rightarrow> bool" where
  "block_holds payload kvs \<longleftrightarrow> (\<exists>b. block_decode payload = Ok b \<and> block_items b = map Ok kvs \<and>
    block_len b = length kvs \<and> sorted_wrt (<) (map fst kvs) \<and>
    (\<forall>target. block_seek b target = Ok (find (\<lambda>kv. target \<le> fst kv) kvs)))"

lemma block_holds_built:
  assumes "bb_try_new n = Ok bb0" "bb_adds bb0 kvs = Ok bb"
    and "length (bb_finish bb) \<le> usize_max" "\<forall>(k, v) \<in> set kvs. length k \<le> usize_max"
  shows "block_holds (bb_finish bb) kvs"
proof -
  have "length (bb_entries bb) \<le> usize_max" using assms(3) by (simp add: bb_finish_def)
  from bb_inv_adds [OF assms(1,2) this assms(4)] obtain ds where ds: "bb_inv bb ds" "run_kv ds = kvs" by blast
  from block_decode_finish [OF ds(1) assms(3)] obtain b where
    b: "block_decode (bb_finish bb) = Ok b" "block_run b ds" by blast
  have "block_items b = map Ok kvs"
    using b(2) ds(2) by (simp add: block_items_def block_iter_new_def bi_collect_run block_run_def)
  with b ds(2) block_seek_run [OF b(2)] show ?thesis
    by (auto simp: block_holds_def block_run_def block_len_def)
qed

definition meta_ok ::
  "crc_lib \<Rightarrow> snap_lib \<Rightarrow> compression \<Rightarrow> u64 \<Rightarrow> bytes \<Rightarrow> data_block_meta \<Rightarrow> (bytes \<times> bytes) list \<Rightarrow> bool" where
  "meta_ok lib snap cmp mx c m kvs \<longleftrightarrow>
    kvs \<noteq> [] \<and> dbm_first m = fst (hd kvs) \<and> dbm_last m = fst (last kvs) \<and>
    (\<exists>payload st. stored_payload snap payload cmp = Ok (st, compression_marker cmp) \<and>
      stored_at lib c (dbm_handle m) st (compression_marker cmp) \<and> block_holds payload kvs \<and>
      length payload \<le> unat mx)"

lemma meta_ok_mono:
  "meta_ok lib snap cmp mx c m kvs \<Longrightarrow> mx \<le> mx' \<Longrightarrow> meta_ok lib snap cmp mx' (c @ xs) m kvs"
  unfolding meta_ok_def using stored_at_append word_le_nat_alt order_trans by metis

fun handle_chain :: "nat \<Rightarrow> block_handle list \<Rightarrow> nat \<Rightarrow> bool" where
  "handle_chain n [] e \<longleftrightarrow> n = e"
| "handle_chain n (h # hs) e \<longleftrightarrow> unat (bh_offset h) = n \<and> bh_size h \<noteq> 0 \<and> handle_chain (n + unat (bh_size h)) hs e"

lemma handle_chain_snoc:
  "handle_chain n (hs @ [h]) e \<longleftrightarrow>
    (\<exists>m. handle_chain n hs m \<and> unat (bh_offset h) = m \<and> bh_size h \<noteq> 0 \<and> e = m + unat (bh_size h))"
  by (induction hs arbitrary: n) auto

type_synonym raw_entry = "internal_key \<times> bytes"

definition raw_kvs :: "raw_entry list \<Rightarrow> (bytes \<times> bytes) list" where
  "raw_kvs es = map (\<lambda>(k, v). (ik_encoded k, v)) es"

definition raw_ok :: "raw_entry list \<Rightarrow> bool" where
  "raw_ok es \<longleftrightarrow> sorted_wrt (<) (map (\<lambda>e. ik_encoded (fst e)) es) \<and>
    (\<forall>(k, v) \<in> set es. wf_key k \<and> length (ik_encoded k) \<le> usize_max)"

definition tb_inv ::
  "crc_lib \<Rightarrow> snap_lib \<Rightarrow> table_builder \<Rightarrow> fs \<Rightarrow> bytes \<Rightarrow> (bytes \<times> bytes) list list \<Rightarrow> (bytes \<times> bytes) list \<Rightarrow>
    raw_entry list \<Rightarrow> bool" where
  "tb_inv lib snap tb fs c blocks pend es \<longleftrightarrow>
    tb_file tb fs c \<and>
    list_all2 (meta_ok lib snap (tb_compression tb) (tb_max_data_block_bytes tb) c) (tb_data_blocks tb) blocks \<and>
    handle_chain 0 (map dbm_handle (tb_data_blocks tb)) (length c) \<and>
    (\<exists>bb0 bb. bb_try_new (tb_restart_interval tb) = Ok bb0 \<and> bb_adds bb0 pend = Ok bb \<and> tb_block tb = Some bb) \<and>
    (tb_pending_bytes tb = 0 \<longleftrightarrow> pend = []) \<and>
    tb_pending_first tb = (if pend = [] then None else Some (fst (hd pend))) \<and>
    tb_pending_last tb = (if pend = [] then None else Some (fst (last pend))) \<and>
    tb_previous_key tb = (if es = [] then None else Some (ik_encoded (fst (last es)))) \<and>
    tb_filter_keys tb = map (\<lambda>e. ik_user_key (fst e)) es \<and> unat (tb_entries tb) = length es \<and>
    tb_smallest tb = (if es = [] then None else Some (fst (hd es))) \<and>
    tb_largest tb = (if es = [] then None else Some (fst (last es))) \<and>
    concat blocks @ pend = raw_kvs es \<and> raw_ok es"

text \<open>What no operation on a builder changes.\<close>

definition tb_config :: "table_builder \<Rightarrow> path \<times> u64 \<times> usize \<times> usize \<times> u8 \<times> compression \<times> bool" where
  "tb_config tb = (tb_path tb, tb_file_number tb, tb_block_bytes tb, tb_restart_interval tb,
    tb_bloom_bits_per_key tb, tb_compression tb, tb_engine_value_encoding tb)"

lemma tb_create_inv:
  assumes "tb_create path n bytes ri bits cmp fs = (Inr tb, fs')"
  shows "tb_inv lib snap tb fs' [] [] [] []" and "tb_config tb = (path, n, bytes, ri, bits, cmp, False)"
  using assms
  by (auto simp: tb_create_def tb_inv_def tb_file_def fs_create_def track_new_file_def raw_kvs_def raw_ok_def Let_def
      tb_config_def split: if_splits prod.splits sum.splits)

lemma raw_keys_small: "raw_ok es \<Longrightarrow> (k, v) \<in> set (raw_kvs es) \<Longrightarrow> length k \<le> usize_max"
  by (auto simp: raw_kvs_def raw_ok_def)

lemma stored_payload_marker: "stored_payload snap payload cmp = Inr (st, m) \<Longrightarrow> m = compression_marker cmp"
  by (auto simp: stored_payload_def compression_marker_def result_iffs split: compression.splits)

lemma tb_flush_data_block_Ok:
  assumes flush: "tb_flush_data_block lib snap tb fs = (Inr u, tb', fs')" and inv: "tb_inv lib snap tb fs c blocks pend es"
  shows "\<exists>c'. tb_inv lib snap tb' fs' c' (if pend = [] then blocks else blocks @ [pend]) [] es \<and> tb_config tb' = tb_config tb"
proof (cases "pend = []")
  case True
  then have "tb_pending_bytes tb = 0" using inv by (simp add: tb_inv_def)
  with assms True show ?thesis by (auto simp: tb_flush_data_block_def tb_iffs)
next
  case False
  then have nz: "tb_pending_bytes tb \<noteq> 0" "tb_pending_first tb = Some (fst (hd pend))" "tb_pending_last tb = Some (fst (last pend))"
    using inv by (auto simp: tb_inv_def)
  obtain bb0 bb where bb: "bb_try_new (tb_restart_interval tb) = Ok bb0" "bb_adds bb0 pend = Ok bb" "tb_block tb = Some bb"
    using inv by (auto simp: tb_inv_def)
  define tb1 where "tb1 len = tb\<lparr>tb_block := None, tb_max_data_block_bytes := max (tb_max_data_block_bytes tb) len\<rparr>" for len
  from flush nz(1) bb obtain len tb2 h first last bb1 where f: "u64_try_from (length (bb_finish bb)) = Some len"
    "tb_write_payload lib snap (bb_finish bb) (tb_compression tb) (tb1 len) fs = (Inr h, tb2, fs')"
    "tb_pending_first tb2 = Some first" "tb_pending_last tb2 = Some last"
    "bb_try_new (tb_restart_interval tb2) = Ok bb1"
    "tb' = tb2\<lparr>tb_pending_first := None, tb_pending_last := None,
        tb_data_blocks := tb_data_blocks tb2 @ [\<lparr>dbm_first = first, dbm_last = last, dbm_handle = h\<rparr>],
        tb_block := Some bb1, tb_pending_bytes := 0\<rparr>"
    by (auto simp: tb_flush_data_block_def tb_iffs Let_def tb1_def)
  have file1: "tb_file (tb1 len) fs c" using inv by (simp add: tb_inv_def tb_file_def tb1_def)
  obtain st m enc off where w: "stored_payload snap (bb_finish bb) (tb_compression tb) = Inr (st, m)"
    "tb2 = (tb1 len)\<lparr>tb_offset := off\<rparr>" "tb_file tb2 fs' (c @ enc)" "stored_at lib (c @ enc) h st m"
    "unat (bh_offset h) = length c" "unat (bh_size h) = length enc" "length enc = length st + 5"
    by (rule tb_write_payload_Ok [OF f(2) file1])
  have len: "length (bb_finish bb) \<le> usize_max" "unat len = length (bb_finish bb)"
    using f(1) by (auto simp: u64_try_from_def usize_max_def unat_of_nat_eq split: if_splits)
  have es: "concat blocks @ pend = raw_kvs es" "raw_ok es" using inv by (auto simp: tb_inv_def)
  then have "set pend \<subseteq> set (raw_kvs es)" by (metis set_append sup_ge2)
  then have keys: "\<forall>(k, v) \<in> set pend. length k \<le> usize_max" using raw_keys_small [OF es(2)] by auto
  have "length (bb_finish bb) \<le> unat (max (tb_max_data_block_bytes tb) len)"
    using len(2) by (simp add: max_def word_le_nat_alt)
  moreover have "block_holds (bb_finish bb) pend" by (rule block_holds_built [OF bb(1,2) len(1) keys])
  ultimately have new: "meta_ok lib snap (tb_compression tb) (max (tb_max_data_block_bytes tb) len) (c @ enc)
      \<lparr>dbm_first = fst (hd pend), dbm_last = fst (List.last pend), dbm_handle = h\<rparr> pend"
    using False w(1,4) stored_payload_marker [OF w(1)] by (auto simp: meta_ok_def)
  have "list_all2 (meta_ok lib snap (tb_compression tb) (tb_max_data_block_bytes tb) c) (tb_data_blocks tb) blocks"
    using inv by (simp add: tb_inv_def)
  then have "list_all2 (meta_ok lib snap (tb_compression tb) (max (tb_max_data_block_bytes tb) len) (c @ enc))
      (tb_data_blocks tb) blocks"
    by (rule list_all2_mono) (auto intro: meta_ok_mono)
  with new have metas: "list_all2 (meta_ok lib snap (tb_compression tb) (max (tb_max_data_block_bytes tb) len) (c @ enc))
      (tb_data_blocks tb @ [\<lparr>dbm_first = fst (hd pend), dbm_last = fst (List.last pend), dbm_handle = h\<rparr>]) (blocks @ [pend])"
    by (intro list_all2_appendI) simp_all
  have chain: "handle_chain 0 (map dbm_handle (tb_data_blocks tb) @ [h]) (length (c @ enc))"
    using inv w(5-7) by (auto simp: handle_chain_snoc tb_inv_def)
  have tb': "tb' = tb\<lparr>tb_offset := off, tb_max_data_block_bytes := max (tb_max_data_block_bytes tb) len,
      tb_pending_first := None, tb_pending_last := None,
      tb_data_blocks := tb_data_blocks tb @ [\<lparr>dbm_first = fst (hd pend), dbm_last = fst (List.last pend), dbm_handle = h\<rparr>],
      tb_block := Some bb0, tb_pending_bytes := 0\<rparr>"
    using f w(2) nz bb(1) by (simp add: tb1_def)
  have "tb_inv lib snap tb' fs' (c @ enc) (blocks @ [pend]) [] es"
    using inv w(2,3) metas chain bb(1) es by (simp add: tb_inv_def tb' tb_file_def tb1_def)
  then show ?thesis using False by (auto simp: tb' tb_config_def)
qed

lemma wf_key_nonempty: "wf_key k \<Longrightarrow> ik_encoded k \<noteq> []"
  using wf_key_encoded(1) [of k] by simp

lemma sorted_keys_snoc:
  assumes "sorted_wrt (<) (map f xs)" "xs \<noteq> [] \<longrightarrow> f (last xs) < (f x :: bytes)"
  shows "sorted_wrt (<) (map f (xs @ [x]))"
  using sorted_snoc [of "map f xs" "f x"] assms by (simp add: last_map)

lemma tb_add_Ok:
  assumes add: "tb_add lib snap key v tb fs = (Inr u, tb', fs')"
    and inv: "tb_inv lib snap tb fs c blocks pend es" and key: "wf_key key"
  shows "\<exists>c' blocks' pend'. tb_inv lib snap tb' fs' c' blocks' pend' (es @ [(key, v)]) \<and> tb_config tb' = tb_config tb"
proof -
  have prev: "(case tb_previous_key tb of None \<Rightarrow> False | Some previous \<Rightarrow> ik_encoded key \<le> previous) = False"
    using add by (simp add: tb_add_def tb_get_def tb_return_Ok split: if_splits)
  from add obtain eb nb tb1 fs1 where
    eb: "checked_add_usize (length (ik_encoded key)) (length v) = Some eb"
    and nb: "checked_add_usize (tb_pending_bytes tb) eb = Some nb"
    and fl: "(if tb_pending_bytes tb \<noteq> 0 \<and> nb > tb_block_bytes tb then tb_flush_data_block lib snap
        else tb_return (Ok ())) tb fs = (Inr (), tb1, fs1)"
    and "tb_add_pending key v eb nb tb1 fs1 = (Inr u, tb', fs')"
    unfolding tb_add_def tb_get_def prev if_False tb_bind_Ok tb_return_Ok ok_or_Ok_iff by auto
  then obtain bb bb' n where bb: "tb_block tb1 = Some bb" "bb_add bb (ik_encoded key) v = Ok bb'"
    "checked_add_u64 (tb_entries tb1) 1 = Some n" "fs' = fs1"
    "tb' = tb1\<lparr>tb_block := Some bb', tb_pending_bytes := (if tb_pending_bytes tb1 = 0 then eb else nb),
          tb_pending_first := (case tb_pending_first tb1 of None \<Rightarrow> Some (ik_encoded key) | Some first \<Rightarrow> Some first),
          tb_pending_last := Some (ik_encoded key), tb_previous_key := Some (ik_encoded key),
          tb_filter_keys := tb_filter_keys tb1 @ [ik_user_key key], tb_entries := n,
          tb_smallest := (case tb_smallest tb1 of None \<Rightarrow> Some key | Some smallest \<Rightarrow> Some smallest),
          tb_largest := Some key\<rparr>"
    by (auto simp: tb_iffs tb_add_pending_def)
  have "\<exists>c1 blocks1 pend1. tb_inv lib snap tb1 fs1 c1 blocks1 pend1 es \<and> tb_config tb1 = tb_config tb"
    using fl inv tb_flush_data_block_Ok [of lib snap tb fs "()" tb1 fs1 c blocks pend es]
    by (auto simp: tb_return_Ok split: if_splits)
  then obtain c1 blocks1 pend1 where inv1: "tb_inv lib snap tb1 fs1 c1 blocks1 pend1 es"
    and cfg: "tb_config tb1 = tb_config tb" by blast
  have pos: "0 < eb" "0 < nb" "length (ik_encoded key) \<le> usize_max"
    using eb nb wf_key_nonempty [OF key] by (auto simp: checked_add_usize_def split: if_splits)
  have "es \<noteq> [] \<longrightarrow> ik_encoded (fst (last es)) < ik_encoded key"
    using prev inv by (auto simp: tb_inv_def not_le)
  then have "raw_ok (es @ [(key, v)])"
    using inv1 key pos(3) sorted_keys_snoc [of "\<lambda>e. ik_encoded (fst e)" es "(key, v)"]
    by (auto simp: tb_inv_def raw_ok_def)
  moreover obtain bb0 where "bb_try_new (tb_restart_interval tb1) = Ok bb0" "bb_adds bb0 pend1 = Ok bb"
    using inv1 bb(1) by (auto simp: tb_inv_def)
  moreover from this bb(2) have "bb_adds bb0 (pend1 @ [(ik_encoded key, v)]) = Ok bb'"
    by (simp add: bb_adds_snoc)
  ultimately have "tb_inv lib snap tb' fs' c1 blocks1 (pend1 @ [(ik_encoded key, v)]) (es @ [(key, v)])"
    using inv1 bb pos(1,2) checked_add_u64_Some [OF bb(3)]
    by (auto simp: tb_inv_def tb_file_def raw_kvs_def hd_append)
  moreover have "tb_config tb' = tb_config tb" using cfg bb(5) by (simp add: tb_config_def)
  ultimately show ?thesis by blast
qed

fun tb_adds :: "crc_lib \<Rightarrow> snap_lib \<Rightarrow> raw_entry list \<Rightarrow> unit tb_op" where
  "tb_adds lib snap [] = tb_return (Ok ())"
| "tb_adds lib snap ((k, v) # es) = tb_bind (tb_add lib snap k v) (\<lambda>_. tb_adds lib snap es)"

lemma tb_adds_Ok:
  assumes "tb_adds lib snap es tb fs = (Inr u, tb', fs')" "tb_inv lib snap tb fs c blocks pend es0"
    and "\<forall>(k, v) \<in> set es. wf_key k"
  shows "\<exists>c' blocks' pend'. tb_inv lib snap tb' fs' c' blocks' pend' (es0 @ es) \<and> tb_config tb' = tb_config tb"
  using assms
proof (induction es arbitrary: tb fs c blocks pend es0)
  case Nil
  then show ?case by (auto simp: tb_return_Ok)
next
  case (Cons e es)
  obtain k v where e: "e = (k, v)" by fastforce
  from Cons.prems(1) e obtain tb1 fs1 where a: "tb_add lib snap k v tb fs = (Inr (), tb1, fs1)"
    "tb_adds lib snap es tb1 fs1 = (Inr u, tb', fs')" by (auto simp: tb_bind_Ok)
  from tb_add_Ok [OF a(1) Cons.prems(2)] Cons.prems(3) e obtain c1 blocks1 pend1 where
    "tb_inv lib snap tb1 fs1 c1 blocks1 pend1 (es0 @ [(k, v)])" "tb_config tb1 = tb_config tb" by auto
  with Cons.IH [OF a(2)] Cons.prems(3) e show ?case by fastforce
qed

section \<open>The finished file\<close>

fun index_kvs :: "data_block_meta list \<Rightarrow> (bytes \<times> bytes) list" where
  "index_kvs [] = []"
| "index_kvs (m # metas) =
    ((case metas of [] \<Rightarrow> dbm_last m | next # _ \<Rightarrow> shortest_separator (dbm_last m) (dbm_first next)),
      bh_encode (dbm_handle m)) # index_kvs metas"

lemma add_index_entries_adds: "add_index_entries idx metas = bb_adds idx (index_kvs metas)"
  by (induction metas arbitrary: idx) (simp_all add: Let_def)

record table_layout =
  tl_metas :: "data_block_meta list"
  tl_blocks :: "(bytes \<times> bytes) list list"
  tl_entries :: "raw_entry list"
  tl_bloom :: bloom_filter
  tl_filter :: block_handle
  tl_index :: block_handle
  tl_properties_handle :: block_handle
  tl_properties :: table_properties

text \<open>The parts of a complete file and where they are.\<close>

definition table_file :: "crc_lib \<Rightarrow> snap_lib \<Rightarrow> bytes \<Rightarrow> table_layout \<Rightarrow> bool" where
  "table_file lib snap C L \<longleftrightarrow>
    length C < 2 ^ 64 \<and> tl_entries L \<noteq> [] \<and> raw_ok (tl_entries L) \<and> concat (tl_blocks L) = raw_kvs (tl_entries L) \<and>
    list_all2 (meta_ok lib snap (tp_compression (tl_properties L)) (tp_max_data_block_bytes (tl_properties L)) C)
      (tl_metas L) (tl_blocks L) \<and>
    handle_chain 0 (map dbm_handle (tl_metas L) @ [tl_filter L, tl_index L, tl_properties_handle L]) (length C - 72) \<and>
    72 \<le> length C \<and> drop (length C - 72) C = encode_footer (tl_index L) (tl_filter L) (tl_properties_handle L) \<and>
    (\<exists>bits. bf_from_keys (map (\<lambda>e. ik_user_key (fst e)) (tl_entries L)) bits = Ok (tl_bloom L)) \<and>
    stored_at lib C (tl_filter L) (bf_encoded (tl_bloom L)) NO_COMPRESSION \<and>
    (\<exists>index. block_holds index (index_kvs (tl_metas L)) \<and> stored_at lib C (tl_index L) index NO_COMPRESSION) \<and>
    (\<exists>props. encode_properties (tl_properties L) = Ok props \<and> stored_at lib C (tl_properties_handle L) props NO_COMPRESSION) \<and>
    unat (tp_entries (tl_properties L)) = length (tl_entries L) \<and>
    unat (tp_data_blocks (tl_properties L)) = length (tl_metas L) \<and>
    tp_smallest (tl_properties L) = fst (hd (tl_entries L)) \<and> tp_largest (tl_properties L) = fst (last (tl_entries L))"

lemma length_footer_slot [simp]: "length (footer_slot h) = 20"
  using length_varint(2) [of "bh_offset h"] length_varint(2) [of "bh_size h"]
  by (simp add: footer_slot_def FOOTER_HANDLE_BYTES_def bh_encode_varints)

lemma length_encode_footer [simp]: "length (encode_footer i f p) = 72"
  by (simp add: encode_footer_def SSTABLE_MAGIC_def)

lemma fs_sync_all_os:
  assumes "fs_sync_all p s = (Inr u, s')"
  shows "os_files s' = os_files s"
proof -
  from assms obtain s1 where o: "observe FileSync p s = (Inr (), s1)" and s': "s' = record_file_sync p s1"
    by (auto simp: fs_sync_all_def split: prod.splits sum.splits)
  from s' observe_Inr [OF o] show ?thesis by (simp add: record_file_sync_def Let_def split: option.splits)
qed

lemma tb_finish_steps:
  assumes "tb_finish lib snap tb fs = (Inr r, tb', fs')"
  obtains tb1 fs1 bloom tb2 fs2 fh idx0 idx tb3 fs3 ih nblocks smallest largest props tb4 fs4 ph tb5 fs5 where
    "tb_flush_data_block lib snap tb fs = (Inr (), tb1, fs1)"
    "bf_from_keys (tb_filter_keys tb1) (tb_bloom_bits_per_key tb1) = Ok bloom"
    "tb_write_payload lib snap (bf_encoded bloom) NoCompression tb1 fs1 = (Inr fh, tb2, fs2)"
    "bb_try_new (tb_restart_interval tb1) = Ok idx0" "add_index_entries idx0 (tb_data_blocks tb1) = Ok idx"
    "tb_write_payload lib snap (bb_finish idx) NoCompression tb2 fs2 = (Inr ih, tb3, fs3)"
    "u64_try_from (length (tb_data_blocks tb1)) = Some nblocks"
    "tb_smallest tb1 = Some smallest" "tb_largest tb1 = Some largest"
    "encode_properties \<lparr>tp_file_number = tb_file_number tb1, tp_entries = tb_entries tb1,
              tp_data_blocks = nblocks, tp_compression = tb_compression tb1, tp_smallest = smallest,
              tp_largest = largest, tp_max_data_block_bytes = tb_max_data_block_bytes tb1,
              tp_engine_value_encoding = tb_engine_value_encoding tb1\<rparr> = Ok props"
    "tb_write_payload lib snap props NoCompression tb3 fs3 = (Inr ph, tb4, fs4)"
    "tb_write_raw (encode_footer ih fh ph) tb4 fs4 = (Inr (), tb5, fs5)"
    "tb_sync tb5 fs5 = (Inr (), tb', fs')"
    "r = \<lparr>tbr_file_number = tb_file_number tb', tbr_file_size = tb_offset tb',
          tbr_smallest = smallest, tbr_largest = largest, tbr_entries = tb_entries tb'\<rparr>" "tb_entries tb \<noteq> 0"
proof -
  have "tb_entries tb \<noteq> 0" using assms by (auto simp: tb_finish_def tb_iffs)
  with assms that show ?thesis by (auto simp: tb_finish_def tb_iffs Let_def)
qed

lemma tb_write_plain_Ok:
  assumes "tb_write_payload lib snap payload NoCompression tb fs = (Inr h, tb', fs')" "tb_file tb fs c"
  obtains enc off where "tb' = tb\<lparr>tb_offset := off\<rparr>" "tb_file tb' fs' (c @ enc)"
    "stored_at lib (c @ enc) h payload NO_COMPRESSION" "handle_chain (length c) [h] (length (c @ enc))"
    "length payload \<le> usize_max"
proof -
  from tb_write_payload_Ok [OF assms] obtain st m enc off where
    w: "stored_payload snap payload NoCompression = Inr (st, m)" "tb' = tb\<lparr>tb_offset := off\<rparr>"
    "tb_file tb' fs' (c @ enc)" "stored_at lib (c @ enc) h st m" "unat (bh_offset h) = length c"
    "unat (bh_size h) = length enc" "length enc = length st + 5" .
  have st: "st = payload" "m = NO_COMPRESSION" using w(1) by (auto simp: stored_payload_def)
  have "length enc < 2 ^ 64" using w(6) unat_lt2p [of "bh_size h"] by simp
  with st w show ?thesis by (intro that [OF w(2,3)]) (auto simp: usize_max_def)
qed

lemma handle_chain_append:
  "handle_chain n (hs @ hs') e \<longleftrightarrow> (\<exists>m. handle_chain n hs m \<and> handle_chain m hs' e)"
  by (induction hs arbitrary: n) auto

lemma index_keys_small:
  assumes "list_all2 (meta_ok lib snap cmp mx c) metas blocks" "\<forall>(k, v) \<in> set (concat blocks). length k \<le> usize_max"
  shows "\<forall>(k, v) \<in> set (index_kvs metas). length k \<le> usize_max"
  using assms
proof (induction metas blocks rule: list_all2_induct)
  case Nil
  then show ?case by simp
next
  case (Cons m ms kvs bs)
  have "length (shortest_separator a b) \<le> length a" for a b
    by (simp add: shortest_separator_def Let_def min_def)
  moreover have "last kvs \<in> set (concat (kvs # bs))" "dbm_last m = fst (last kvs)"
    using Cons.hyps(1) by (simp_all add: meta_ok_def)
  then have "length (dbm_last m) \<le> usize_max" using Cons.prems by (metis (mono_tags, lifting) case_prodD prod.collapse)
  ultimately show ?case using Cons.IH Cons.prems
    by (auto split: list.splits intro: order_trans)
qed

text \<open>The data blocks of a builder followed by the three metadata blocks and the footer.\<close>

lemma table_file_assemble:
  assumes inv: "tb_inv lib snap tb fs c B [] es" and ne: "es \<noteq> []"
    and bloom: "bf_from_keys (tb_filter_keys tb) bits = Ok bloom"
    and at: "stored_at lib M fh (bf_encoded bloom) NO_COMPRESSION" "stored_at lib M ih index NO_COMPRESSION"
      "stored_at lib M ph props NO_COMPRESSION"
    and chain: "handle_chain (length c) [fh, ih, ph] (length M)" and M: "M = c @ rest"
    and index: "block_holds index (index_kvs (tb_data_blocks tb))" and pr: "encode_properties P = Ok props"
    and P: "tp_compression P = tb_compression tb" "tp_max_data_block_bytes P = tb_max_data_block_bytes tb"
      "tp_entries P = tb_entries tb" "unat (tp_data_blocks P) = length (tb_data_blocks tb)"
      "tp_smallest P = fst (hd es)" "tp_largest P = fst (last es)"
    and small: "length M + 72 < 2 ^ 64"
  shows "table_file lib snap (M @ encode_footer ih fh ph)
    \<lparr>tl_metas = tb_data_blocks tb, tl_blocks = B, tl_entries = es, tl_bloom = bloom, tl_filter = fh,
     tl_index = ih, tl_properties_handle = ph, tl_properties = P\<rparr>"
proof -
  have metas: "list_all2 (meta_ok lib snap (tb_compression tb) (tb_max_data_block_bytes tb) (M @ encode_footer ih fh ph))
    (tb_data_blocks tb) B"
    using inv unfolding M append_assoc tb_inv_def by (elim conjE list_all2_mono) (erule meta_ok_mono, simp)
  have "handle_chain 0 (map dbm_handle (tb_data_blocks tb) @ [fh, ih, ph]) (length M)"
    using inv chain by (auto simp: handle_chain_append tb_inv_def simp del: handle_chain.simps)
  moreover note metas at [THEN stored_at_append, of "encode_footer ih fh ph"]
  moreover have "tb_filter_keys tb = map (\<lambda>e. ik_user_key (fst e)) es" "unat (tb_entries tb) = length es"
    "concat B = raw_kvs es" "raw_ok es"
    using inv by (simp_all add: tb_inv_def)
  ultimately show ?thesis
    using ne bloom index pr P small unfolding table_file_def by auto
qed

lemma tb_finish_Ok:
  assumes fin: "tb_finish lib snap tb fs = (Inr r, tb', fs')" and inv: "tb_inv lib snap tb fs c blocks pend es"
  shows "\<exists>C L. table_file lib snap C L \<and> os_files fs' (tb_path tb) = Some C \<and> tl_entries L = es \<and>
    tl_metas L = tb_data_blocks tb' \<and> tl_properties L = \<lparr>tp_file_number = tb_file_number tb, tp_entries = tb_entries tb,
      tp_data_blocks = tp_data_blocks (tl_properties L), tp_compression = tb_compression tb,
      tp_smallest = fst (hd es), tp_largest = fst (last es), tp_max_data_block_bytes = tb_max_data_block_bytes tb',
      tp_engine_value_encoding = tb_engine_value_encoding tb\<rparr> \<and>
    r = \<lparr>tbr_file_number = tb_file_number tb, tbr_file_size = word_of_nat (length C), tbr_smallest = fst (hd es),
      tbr_largest = fst (last es), tbr_entries = tb_entries tb\<rparr>"
  using fin
proof (rule tb_finish_steps)
  fix tb1 fs1 bloom tb2 fs2 fh idx0 idx tb3 fs3 ih nblocks smallest largest props tb4 fs4 ph tb5 fs5
  assume st: "tb_flush_data_block lib snap tb fs = (Inr (), tb1, fs1)"
    "bf_from_keys (tb_filter_keys tb1) (tb_bloom_bits_per_key tb1) = Ok bloom"
    and w1: "tb_write_payload lib snap (bf_encoded bloom) NoCompression tb1 fs1 = (Inr fh, tb2, fs2)"
    and ix: "bb_try_new (tb_restart_interval tb1) = Ok idx0" "add_index_entries idx0 (tb_data_blocks tb1) = Ok idx"
    and w2: "tb_write_payload lib snap (bb_finish idx) NoCompression tb2 fs2 = (Inr ih, tb3, fs3)"
    and nb: "u64_try_from (length (tb_data_blocks tb1)) = Some nblocks"
    and sl: "tb_smallest tb1 = Some smallest" "tb_largest tb1 = Some largest"
    and pr: "encode_properties \<lparr>tp_file_number = tb_file_number tb1, tp_entries = tb_entries tb1,
              tp_data_blocks = nblocks, tp_compression = tb_compression tb1, tp_smallest = smallest,
              tp_largest = largest, tp_max_data_block_bytes = tb_max_data_block_bytes tb1,
              tp_engine_value_encoding = tb_engine_value_encoding tb1\<rparr> = Ok props"
    and w3: "tb_write_payload lib snap props NoCompression tb3 fs3 = (Inr ph, tb4, fs4)"
    and w4: "tb_write_raw (encode_footer ih fh ph) tb4 fs4 = (Inr (), tb5, fs5)"
    and sy: "tb_sync tb5 fs5 = (Inr (), tb', fs')"
    and r: "r = \<lparr>tbr_file_number = tb_file_number tb', tbr_file_size = tb_offset tb',
          tbr_smallest = smallest, tbr_largest = largest, tbr_entries = tb_entries tb'\<rparr>"
    and ne: "tb_entries tb \<noteq> 0"
  from tb_flush_data_block_Ok [OF st(1) inv] obtain c1 B where
    inv1: "tb_inv lib snap tb1 fs1 c1 B [] es" and cfg: "tb_config tb1 = tb_config tb" by blast
  have file1: "tb_file tb1 fs1 c1" using inv1 by (simp add: tb_inv_def)
  obtain e1 o1 where p1: "tb2 = tb1\<lparr>tb_offset := o1\<rparr>" "tb_file tb2 fs2 (c1 @ e1)"
    "stored_at lib (c1 @ e1) fh (bf_encoded bloom) NO_COMPRESSION" "handle_chain (length c1) [fh] (length (c1 @ e1))"
    by (rule tb_write_plain_Ok [OF w1 file1])
  obtain e2 o2 where p2: "tb3 = tb2\<lparr>tb_offset := o2\<rparr>" "tb_file tb3 fs3 ((c1 @ e1) @ e2)"
    "stored_at lib ((c1 @ e1) @ e2) ih (bb_finish idx) NO_COMPRESSION"
    "handle_chain (length (c1 @ e1)) [ih] (length ((c1 @ e1) @ e2))" "length (bb_finish idx) \<le> usize_max"
    by (rule tb_write_plain_Ok [OF w2 p1(2)])
  obtain e3 o3 where p3: "tb4 = tb3\<lparr>tb_offset := o3\<rparr>" "tb_file tb4 fs4 (((c1 @ e1) @ e2) @ e3)"
    "stored_at lib (((c1 @ e1) @ e2) @ e3) ph props NO_COMPRESSION"
    "handle_chain (length ((c1 @ e1) @ e2)) [ph] (length (((c1 @ e1) @ e2) @ e3))"
    by (rule tb_write_plain_Ok [OF w3 p2(2)])
  define M where "M = ((c1 @ e1) @ e2) @ e3"
  define P where "P = \<lparr>tp_file_number = tb_file_number tb1, tp_entries = tb_entries tb1,
      tp_data_blocks = nblocks, tp_compression = tb_compression tb1, tp_smallest = smallest,
      tp_largest = largest, tp_max_data_block_bytes = tb_max_data_block_bytes tb1,
      tp_engine_value_encoding = tb_engine_value_encoding tb1\<rparr>"
  obtain o5 where tb5: "tb5 = tb4\<lparr>tb_offset := o5\<rparr>" "tb_file tb5 fs5 (M @ encode_footer ih fh ph)"
    using tb_write_raw_Ok [OF w4 p3(2)] unfolding M_def by blast
  have tb': "tb' = tb5" "os_files fs' = os_files fs5"
    using sy fs_sync_all_os by (auto simp: tb_sync_def split: prod.splits sum.splits)
  have es: "es \<noteq> []" "smallest = fst (hd es)" "largest = fst (last es)"
    using sl inv1 by (auto simp: tb_inv_def split: if_splits)
  have ents: "tb_entries tb1 = tb_entries tb"
    using inv inv1 by (simp add: tb_inv_def word_unat_eq_iff)
  have keys: "\<forall>(k, v) \<in> set (concat B). length k \<le> usize_max"
    using inv1 raw_keys_small by (auto simp: tb_inv_def)
  have holds: "block_holds (bb_finish idx) (index_kvs (tb_data_blocks tb1))"
  proof (rule block_holds_built [OF ix(1) ix(2) [unfolded add_index_entries_adds] p2(5)])
    show "\<forall>(k, v) \<in> set (index_kvs (tb_data_blocks tb1)). length k \<le> usize_max"
      using inv1 keys index_keys_small unfolding tb_inv_def by blast
  qed
  have "table_file lib snap (M @ encode_footer ih fh ph)
    \<lparr>tl_metas = tb_data_blocks tb1, tl_blocks = B, tl_entries = es, tl_bloom = bloom, tl_filter = fh,
     tl_index = ih, tl_properties_handle = ph, tl_properties = P\<rparr>"
  proof (rule table_file_assemble [OF inv1 es(1) st(2) _ _ _ _ _ holds pr [folded P_def]])
    show "stored_at lib M fh (bf_encoded bloom) NO_COMPRESSION" unfolding M_def by (intro stored_at_append p1(3))
    show "stored_at lib M ih (bb_finish idx) NO_COMPRESSION" unfolding M_def by (intro stored_at_append p2(3))
    show "stored_at lib M ph props NO_COMPRESSION" using p3(3) by (simp add: M_def)
    show "handle_chain (length c1) [fh, ih, ph] (length M)" using p1(4) p2(4) p3(4) by (simp add: M_def)
    show "M = c1 @ (e1 @ e2 @ e3)" by (simp add: M_def)
    show "length M + 72 < 2 ^ 64"
      using tb5(2) unat_lt2p [of "tb_offset tb5"] by (simp add: tb_file_def)
    show "unat (tp_data_blocks P) = length (tb_data_blocks tb1)"
      using nb by (auto simp: P_def u64_try_from_def unat_of_nat_eq split: if_splits)
  qed (simp_all add: P_def es)
  moreover have "tb_offset tb5 = word_of_nat (length (M @ encode_footer ih fh ph))"
    using tb5(2) unfolding tb_file_def by (metis of_nat_unat ucast_id)
  moreover have "os_files fs5 (tb_path tb) = Some (M @ encode_footer ih fh ph)"
    using tb5 p1(1) p2(1) p3(1) cfg by (simp add: tb_file_def tb_config_def)
  ultimately show ?thesis
    using tb' tb5(1) p1(1) p2(1) p3(1) cfg r es ents
    by (intro exI [of _ "M @ encode_footer ih fh ph"] exI conjI) (auto simp: P_def tb_config_def)
qed

end
