(* ===== verification/Block_Cache.thy ===== *)
theory Block_Cache
  imports Meteor_Prelude "HOL-Library.Product_Lexorder" "HOL-Library.Multiset"
begin

text \<open>
  The block cache (\<open>cache.rs\<close>): two independently budgeted partitions whose entries carry
  recency stamps.  A \<open>HashMap\<close> is the list of its entries in key order; nothing in the source
  depends on its iteration order.  The lemmas show that a partition is a least-recently-used list
  within its byte budget, also across the renumbering of stamps when the counter is exhausted.
\<close>

section \<open>Definitions\<close>

datatype cache_partition = MetadataPartition | DataPartition

datatype block_kind = FilterBlock | IndexBlock | DataBlock

fun bk_partition :: "block_kind \<Rightarrow> cache_partition" where
  "bk_partition FilterBlock = MetadataPartition"
| "bk_partition IndexBlock = MetadataPartition"
| "bk_partition DataBlock = DataPartition"

text \<open>The derived orders of both enumerations.\<close>

fun partition_rank :: "cache_partition \<Rightarrow> nat" where
  "partition_rank MetadataPartition = 0"
| "partition_rank DataPartition = 1"

fun kind_rank :: "block_kind \<Rightarrow> nat" where
  "kind_rank FilterBlock = 0"
| "kind_rank IndexBlock = 1"
| "kind_rank DataBlock = 2"

lemma partition_rank_inj [simp]: "partition_rank p = partition_rank q \<longleftrightarrow> p = q"
  by (cases p; cases q) auto

lemma kind_rank_inj [simp]: "kind_rank p = kind_rank q \<longleftrightarrow> p = q"
  by (cases p; cases q) auto

instantiation cache_partition :: linorder
begin

definition "p \<le> q \<longleftrightarrow> partition_rank p \<le> partition_rank q"
definition "p < q \<longleftrightarrow> partition_rank p < partition_rank q"

instance
  by standard (auto simp: less_eq_cache_partition_def less_cache_partition_def)

end

instantiation block_kind :: linorder
begin

definition "p \<le> q \<longleftrightarrow> kind_rank p \<le> kind_rank q"
definition "p < q \<longleftrightarrow> kind_rank p < kind_rank q"

instance
  by standard (auto simp: less_eq_block_kind_def less_block_kind_def)

end

text \<open>\<open>CacheKey\<close>: file number, block offset and kind, in the order of the fields.\<close>

type_synonym cache_key = "u64 \<times> u64 \<times> block_kind"

record cache_entry =
  ce_value :: bytes
  ce_stamp :: u64

record partition_state =
  ps_capacity_bytes :: usize
  ps_usage_bytes :: usize
  ps_entries :: "(cache_key \<times> cache_entry) list"
  ps_hits :: u64
  ps_misses :: u64
  ps_admissions :: u64
  ps_evictions :: u64

record block_cache =
  bc_metadata :: partition_state
  bc_data :: partition_state
  bc_next_stamp :: u64

definition ps_new :: "usize \<Rightarrow> partition_state" where
  "ps_new capacity_bytes = \<lparr>ps_capacity_bytes = capacity_bytes, ps_usage_bytes = 0, ps_entries = [],
    ps_hits = 0, ps_misses = 0, ps_admissions = 0, ps_evictions = 0\<rparr>"

definition bc_new :: "usize \<Rightarrow> block_cache result" where
  "bc_new total_bytes =
    (if total_bytes = 0 then Err InvalidArgument
     else let metadata_bytes = total_bytes div 5 in
       Ok \<lparr>bc_metadata = ps_new metadata_bytes, bc_data = ps_new (total_bytes - metadata_bytes),
         bc_next_stamp = 0\<rparr>)"

fun bc_partition :: "cache_partition \<Rightarrow> block_cache \<Rightarrow> partition_state" where
  "bc_partition MetadataPartition c = bc_metadata c"
| "bc_partition DataPartition c = bc_data c"

fun bc_set_partition :: "cache_partition \<Rightarrow> partition_state \<Rightarrow> block_cache \<Rightarrow> block_cache" where
  "bc_set_partition MetadataPartition p c = c\<lparr>bc_metadata := p\<rparr>"
| "bc_set_partition DataPartition p c = c\<lparr>bc_data := p\<rparr>"

text \<open>\<open>get_mut(&key)\<close> followed by an assignment of the stamp.\<close>

definition ps_set_stamp :: "cache_key \<Rightarrow> u64 \<Rightarrow> partition_state \<Rightarrow> partition_state" where
  "ps_set_stamp key stamp p =
    p\<lparr>ps_entries := map (\<lambda>(k, e). if k = key then (k, e\<lparr>ce_stamp := stamp\<rparr>) else (k, e)) (ps_entries p)\<rparr>"

definition rank_entries :: "cache_partition \<Rightarrow> partition_state \<Rightarrow> (u64 \<times> cache_partition \<times> cache_key) list" where
  "rank_entries which p = map (\<lambda>(k, e). (ce_stamp e, which, k)) (ps_entries p)"

definition u64_saturating_from :: "usize \<Rightarrow> u64" where
  "u64_saturating_from n = (case u64_try_from n of Some w \<Rightarrow> w | None \<Rightarrow> u64_max)"

fun assign_stamps :: "nat \<Rightarrow> (u64 \<times> cache_partition \<times> cache_key) list \<Rightarrow> block_cache \<Rightarrow> block_cache" where
  "assign_stamps n [] c = c"
| "assign_stamps n ((old, which, key) # ordered) c =
    assign_stamps (Suc n) ordered
      (bc_set_partition which (ps_set_stamp key (u64_saturating_from n) (bc_partition which c)) c)"

definition renormalize_stamps :: "block_cache \<Rightarrow> block_cache" where
  "renormalize_stamps c =
    (let ordered = sort (rank_entries MetadataPartition (bc_metadata c) @ rank_entries DataPartition (bc_data c));
         c = assign_stamps 0 ordered c
     in c\<lparr>bc_next_stamp := u64_saturating_from
       (saturating_add_usize (length (ps_entries (bc_metadata c))) (length (ps_entries (bc_data c))))\<rparr>)"

definition bump_stamp :: "block_cache \<Rightarrow> u64 \<times> block_cache" where
  "bump_stamp c =
    (let c = (if bc_next_stamp c = u64_max then renormalize_stamps c else c) in
     (bc_next_stamp c, c\<lparr>bc_next_stamp := saturating_add_u64 (bc_next_stamp c) 1\<rparr>))"

definition bc_get :: "u64 \<Rightarrow> u64 \<Rightarrow> block_kind \<Rightarrow> block_cache \<Rightarrow> bytes option \<times> block_cache" where
  "bc_get file_number block_offset kind c =
    (let (stamp, c) = bump_stamp c;
         key = (file_number, block_offset, kind);
         which = bk_partition kind;
         p = bc_partition which c
     in case bt_get (\<lambda>k. k) key (ps_entries p) of
          Some e \<Rightarrow> (Some (ce_value e), bc_set_partition which
            ((ps_set_stamp key stamp p)\<lparr>ps_hits := saturating_add_u64 (ps_hits p) 1\<rparr>) c)
        | None \<Rightarrow> (None, bc_set_partition which (p\<lparr>ps_misses := saturating_add_u64 (ps_misses p) 1\<rparr>) c))"

definition fits_in_budget :: "usize \<Rightarrow> usize \<Rightarrow> usize \<Rightarrow> bool" where
  "fits_in_budget usage_bytes entry_bytes capacity_bytes \<longleftrightarrow> entry_bytes \<le> capacity_bytes - usage_bytes"

fun min_by_key :: "('a \<Rightarrow> 'b :: linorder) \<Rightarrow> 'a list \<Rightarrow> 'a option" where
  "min_by_key f [] = None"
| "min_by_key f (x # xs) =
    (case min_by_key f xs of None \<Rightarrow> Some x | Some y \<Rightarrow> if f y < f x then Some y else Some x)"

definition evict_oldest :: "partition_state \<Rightarrow> partition_state result" where
  "evict_oldest p =
    rbind (ok_or (min_by_key (\<lambda>(key, e). (ce_stamp e, key)) (ps_entries p)) Panic) (\<lambda>(oldest, removed).
    rbind (ok_or (checked_sub_usize (ps_usage_bytes p) (length (ce_value removed))) Panic) (\<lambda>usage.
    Ok (p\<lparr>ps_entries := bt_remove (\<lambda>k. k) oldest (ps_entries p), ps_usage_bytes := usage\<rparr>)))"

lemma min_by_key_mem: "min_by_key f xs = Some x \<Longrightarrow> x \<in> set xs"
  by (induction xs arbitrary: x) (auto split: option.splits if_splits)

lemma bt_remove_length: "(k, v) \<in> set m \<Longrightarrow> length (bt_remove (\<lambda>k. k) k m) < length m"
  by (induction m) auto

lemma evict_oldest_length:
  "evict_oldest p = Ok p' \<Longrightarrow> length (ps_entries p') < length (ps_entries p)"
  by (auto simp: evict_oldest_def result_iffs dest!: min_by_key_mem intro: bt_remove_length)

function evict_loop :: "usize \<Rightarrow> partition_state \<Rightarrow> partition_state result" where
  "evict_loop entry_bytes p =
    (if \<not> fits_in_budget (ps_usage_bytes p) entry_bytes (ps_capacity_bytes p) then
       rbind (evict_oldest p) (\<lambda>p.
         evict_loop entry_bytes (p\<lparr>ps_evictions := saturating_add_u64 (ps_evictions p) 1\<rparr>))
     else Ok p)"
  by pat_completeness auto

termination
  by (relation "measure (\<lambda>(n, p). length (ps_entries p))") (auto dest: evict_oldest_length)

declare evict_loop.simps [simp del]

definition bc_insert ::
  "u64 \<Rightarrow> u64 \<Rightarrow> block_kind \<Rightarrow> bytes \<Rightarrow> block_cache \<Rightarrow> bool result \<times> block_cache" where
  "bc_insert file_number block_offset kind v c =
    (let key = (file_number, block_offset, kind);
         which = bk_partition kind
     in if length v > ps_capacity_bytes (bc_partition which c) then (Ok False, c)
        else
          let (stamp, c) = bump_stamp c;
              p = bc_partition which c
          in case (case bt_get (\<lambda>k. k) key (ps_entries p) of
                     None \<Rightarrow> Ok p
                   | Some replaced \<Rightarrow>
                       rbind (ok_or (checked_sub_usize (ps_usage_bytes p) (length (ce_value replaced))) Panic) (\<lambda>usage.
                       Ok (p\<lparr>ps_entries := bt_remove (\<lambda>k. k) key (ps_entries p), ps_usage_bytes := usage\<rparr>))) of
               Inl e \<Rightarrow> (Err e, c)
             | Inr p \<Rightarrow>
                 case evict_loop (length v) p of
                   Inl e \<Rightarrow> (Err e, c)
                 | Inr p \<Rightarrow>
                     case checked_add_usize (ps_usage_bytes p) (length v) of
                       None \<Rightarrow> (Err Panic, c)
                     | Some usage \<Rightarrow>
                         (Ok True, bc_set_partition which (p\<lparr>ps_usage_bytes := usage,
                            ps_entries := bt_insert (\<lambda>k. k) key \<lparr>ce_value = v, ce_stamp = stamp\<rparr> (ps_entries p),
                            ps_admissions := saturating_add_u64 (ps_admissions p) 1\<rparr>) c))"

section \<open>The least-recently-used list\<close>

text \<open>
  The contract of a partition: its blocks from the least to the most recently used one.  A lookup
  moves the block to the end; an admission drops blocks from the front until the new one fits.
\<close>

type_synonym lru = "(cache_key \<times> bytes) list"

definition lru_bytes :: "lru \<Rightarrow> nat" where
  "lru_bytes xs = sum_list (map (\<lambda>(k, v). length v) xs)"

definition lru_get :: "cache_key \<Rightarrow> lru \<Rightarrow> bytes option \<times> lru" where
  "lru_get key xs =
    (case map_of xs key of
       None \<Rightarrow> (None, xs)
     | Some v \<Rightarrow> (Some v, filter (\<lambda>x. fst x \<noteq> key) xs @ [(key, v)]))"

fun lru_fit :: "nat \<Rightarrow> nat \<Rightarrow> lru \<Rightarrow> lru" where
  "lru_fit capacity n [] = []"
| "lru_fit capacity n (x # xs) =
    (if lru_bytes (x # xs) + n \<le> capacity then x # xs else lru_fit capacity n xs)"

definition lru_insert :: "nat \<Rightarrow> cache_key \<Rightarrow> bytes \<Rightarrow> lru \<Rightarrow> bool \<times> lru" where
  "lru_insert capacity key v xs =
    (if length v > capacity then (False, xs)
     else (True, lru_fit capacity (length v) (filter (\<lambda>x. fst x \<noteq> key) xs) @ [(key, v)]))"

abbreviation entry_stamp :: "cache_key \<times> cache_entry \<Rightarrow> u64" where
  "entry_stamp \<equiv> \<lambda>x. ce_stamp (snd x)"

definition by_recency :: "(cache_key \<times> cache_entry) list \<Rightarrow> (cache_key \<times> cache_entry) list" where
  "by_recency es = sort_key entry_stamp es"

definition entry_blocks :: "(cache_key \<times> cache_entry) list \<Rightarrow> lru" where
  "entry_blocks es = map (\<lambda>(k, e). (k, ce_value e)) es"

definition recency :: "partition_state \<Rightarrow> lru" where
  "recency p = entry_blocks (by_recency (ps_entries p))"

definition ps_inv :: "u64 \<Rightarrow> partition_state \<Rightarrow> bool" where
  "ps_inv next p \<longleftrightarrow> bt_sorted (\<lambda>k. k) (ps_entries p) \<and>
    ps_usage_bytes p = lru_bytes (entry_blocks (ps_entries p)) \<and>
    ps_usage_bytes p \<le> ps_capacity_bytes p \<and> ps_capacity_bytes p \<le> usize_max \<and>
    distinct (map entry_stamp (ps_entries p)) \<and> (\<forall>x \<in> set (ps_entries p). entry_stamp x < next)"

definition bc_inv :: "block_cache \<Rightarrow> bool" where
  "bc_inv c \<longleftrightarrow> ps_inv (bc_next_stamp c) (bc_metadata c) \<and> ps_inv (bc_next_stamp c) (bc_data c)"

definition bc_count :: "block_cache \<Rightarrow> nat" where
  "bc_count c = length (ps_entries (bc_metadata c)) + length (ps_entries (bc_data c))"

lemma by_recency_unique:
  assumes "distinct (map entry_stamp es)" "set xs = set es"
    and "sorted_wrt (\<lambda>a b. entry_stamp a < entry_stamp b) xs"
  shows "by_recency es = xs"
proof -
  have sx: "sorted_wrt (<) (map entry_stamp xs)" using assms(3) by (simp add: sorted_wrt_map)
  have "distinct (map entry_stamp (by_recency es))"
    using assms(1) by (simp add: by_recency_def distinct_map distinct_sort)
  then have sr: "sorted_wrt (<) (map entry_stamp (by_recency es))"
    by (simp add: by_recency_def strict_sorted_iff)
  have "set (map entry_stamp (by_recency es)) = set (map entry_stamp xs)"
    using assms(2) by (simp add: by_recency_def)
  then have "map entry_stamp (by_recency es) = map entry_stamp xs"
    using sr sx by (simp add: strict_sorted_equal)
  moreover have "inj_on entry_stamp (set (by_recency es) \<union> set xs)"
    using assms(1,2) by (simp add: by_recency_def distinct_map)
  ultimately show ?thesis by (metis map_inj_on)
qed

lemma by_recency_facts:
  assumes "distinct (map entry_stamp es)"
  shows "set (by_recency es) = set es" "sorted_wrt (\<lambda>a b. entry_stamp a < entry_stamp b) (by_recency es)"
    "mset (by_recency es) = mset es"
proof -
  have "distinct (map entry_stamp (by_recency es))"
    using assms by (simp add: by_recency_def distinct_map distinct_sort)
  then have "sorted_wrt (<) (map entry_stamp (by_recency es))"
    by (simp add: by_recency_def strict_sorted_iff)
  then show "sorted_wrt (\<lambda>a b. entry_stamp a < entry_stamp b) (by_recency es)"
    by (simp add: sorted_wrt_map)
qed (simp_all add: by_recency_def)

lemma bt_remove_filter:
  "bt_sorted (\<lambda>k. k) m \<Longrightarrow> bt_remove (\<lambda>k. k) key m = filter (\<lambda>x. fst x \<noteq> key) m"
proof (induction m)
  case (Cons e m)
  then have "fst e = key \<Longrightarrow> filter (\<lambda>x. fst x \<noteq> key) m = m" by (intro filter_True) auto
  with Cons show ?case by auto
qed simp

lemma by_recency_filter: "by_recency (filter P es) = filter P (by_recency es)"
  by (simp add: by_recency_def filter_sort)

lemma entry_blocks_filter:
  "entry_blocks (filter (\<lambda>x. fst x \<noteq> key) es) = filter (\<lambda>x. fst x \<noteq> key) (entry_blocks es)"
  by (induction es) (auto simp: entry_blocks_def)

lemma lru_bytes_recency: "lru_bytes (entry_blocks (by_recency es)) = lru_bytes (entry_blocks es)"
proof -
  have "mset (map (\<lambda>(k, v). length v) (entry_blocks (by_recency es))) =
      mset (map (\<lambda>(k, v). length v) (entry_blocks es))"
    by (simp add: entry_blocks_def by_recency_def)
  then show ?thesis unfolding lru_bytes_def by (metis sum_mset_sum_list)
qed

lemma bt_sorted_distinct: "bt_sorted (\<lambda>k. k) m \<Longrightarrow> distinct (map fst m)"
  by (induction m) fastforce+

lemma map_of_recency:
  assumes "bt_sorted (\<lambda>k. k) es"
  shows "map_of (entry_blocks (by_recency es)) key = map_option ce_value (bt_get (\<lambda>k. k) key es)"
proof -
  have "map fst (entry_blocks (by_recency es)) = map fst (by_recency es)"
    by (simp add: entry_blocks_def split_beta comp_def)
  moreover have "mset (map fst (by_recency es)) = mset (map fst es)" by (simp add: by_recency_def)
  ultimately have "distinct (map fst (entry_blocks (by_recency es)))"
    using bt_sorted_distinct [OF assms] by (metis mset_eq_imp_distinct_iff)
  then have "map_of (entry_blocks (by_recency es)) key = Some v \<longleftrightarrow>
      (\<exists>e. (key, e) \<in> set es \<and> ce_value e = v)" for v
    by (auto simp: entry_blocks_def by_recency_def)
  moreover have "bt_get (\<lambda>k. k) key es = Some e \<longleftrightarrow> (key, e) \<in> set es" for e
    unfolding bt_get_Some_iff [OF assms] by force
  ultimately have "map_of (entry_blocks (by_recency es)) key = Some v \<longleftrightarrow>
      map_option ce_value (bt_get (\<lambda>k. k) key es) = Some v" for v by auto
  then show ?thesis by (metis option.exhaust)
qed

lemma min_by_key_least:
  "xs \<noteq> [] \<Longrightarrow> \<exists>x. min_by_key f xs = Some x \<and> (\<forall>y \<in> set xs. f x \<le> f y)"
proof (induction xs)
  case (Cons x xs)
  show ?case
  proof (cases "xs = []")
    case False
    with Cons.IH obtain m where "min_by_key f xs = Some m" "\<forall>y \<in> set xs. f m \<le> f y" by blast
    then show ?thesis by fastforce
  qed simp
qed simp

lemma min_by_key_recency:
  assumes "distinct (map entry_stamp es)" "es \<noteq> []"
  shows "min_by_key (\<lambda>(key, e). (ce_stamp e, key)) es = Some (hd (by_recency es))"
proof -
  note r = by_recency_facts [OF assms(1)]
  from min_by_key_least [OF assms(2), of "\<lambda>(key, e). (ce_stamp e, key)"]
  obtain x where x: "min_by_key (\<lambda>(key, e). (ce_stamp e, key)) es = Some x"
    and least: "\<forall>y \<in> set es. entry_stamp x \<le> entry_stamp y" by (fastforce simp: split_beta)
  from assms(2) r(1) obtain h t where ht: "by_recency es = h # t" by (cases "by_recency es") auto
  have "x \<in> set (by_recency es)" using min_by_key_mem [OF x] r(1) by simp
  moreover have "h \<in> set es" using r(1) ht by (metis list.set_intros(1))
  then have "entry_stamp x \<le> entry_stamp h" using least by blast
  moreover have "\<forall>y \<in> set t. entry_stamp h < entry_stamp y" using r(2) ht by simp
  ultimately have "x = h" using ht by (auto simp: not_le [symmetric])
  with x ht show ?thesis by simp
qed

text \<open>Evicting the oldest block, and the eviction loop.\<close>

lemma by_recency_tl:
  assumes "distinct (map entry_stamp es)" "bt_sorted (\<lambda>k. k) es" "es \<noteq> []"
  shows "by_recency (bt_remove (\<lambda>k. k) (fst (hd (by_recency es))) es) = tl (by_recency es)"
proof -
  note r = by_recency_facts [OF assms(1)]
  from assms(3) r(1) obtain h t where ht: "by_recency es = h # t" by (cases "by_recency es") auto
  have "mset (map fst (by_recency es)) = mset (map fst es)" using r(3) by (metis mset_map)
  then have "distinct (map fst (h # t))" using bt_sorted_distinct [OF assms(2)] ht by (metis mset_eq_imp_distinct_iff)
  then have "filter (\<lambda>x. fst x \<noteq> fst h) t = t" by (intro filter_True ballI) (simp, metis image_eqI)
  then show ?thesis by (simp add: bt_remove_filter assms(2) by_recency_filter ht)
qed

lemma lru_bytes_simps [simp]: "lru_bytes [] = 0" "lru_bytes (x # xs) = length (snd x) + lru_bytes xs"
  "lru_bytes (xs @ ys) = lru_bytes xs + lru_bytes ys"
  by (simp_all add: lru_bytes_def split_beta)

lemma entry_blocks_simps [simp]: "entry_blocks [] = []" "entry_blocks (x # xs) = (fst x, ce_value (snd x)) # entry_blocks xs"
  "entry_blocks (xs @ ys) = entry_blocks xs @ entry_blocks ys" "entry_blocks xs = [] \<longleftrightarrow> xs = []"
  by (simp_all add: entry_blocks_def split_beta)

lemma ps_inv_remove:
  assumes "ps_inv next p" "(key, e) \<in> set (ps_entries p)"
  shows "length (ce_value e) \<le> ps_usage_bytes p" 
    "ps_inv next (p\<lparr>ps_entries := bt_remove (\<lambda>k. k) key (ps_entries p),
      ps_usage_bytes := ps_usage_bytes p - length (ce_value e)\<rparr>)"
proof -
  have srt: "bt_sorted (\<lambda>k. k) (ps_entries p)" using assms(1) by (simp add: ps_inv_def)
  have "lru_bytes (entry_blocks m) = length (ce_value e) + lru_bytes (entry_blocks (bt_remove (\<lambda>k. k) key m))"
    if "bt_sorted (\<lambda>k. k) m" "(key, e) \<in> set m" for m
    using that by (induction m) fastforce+
  from this [OF srt assms(2)] show "length (ce_value e) \<le> ps_usage_bytes p"
    "ps_inv next (p\<lparr>ps_entries := bt_remove (\<lambda>k. k) key (ps_entries p),
      ps_usage_bytes := ps_usage_bytes p - length (ce_value e)\<rparr>)"
    using assms(1) srt bt_remove_sorted [OF srt, of key] bt_remove_subset [of "\<lambda>k. k" key "ps_entries p"]
    by (auto simp: ps_inv_def bt_remove_filter distinct_map_filter)
qed

lemma evict_oldest_Ok:
  assumes "ps_inv next p" "ps_entries p \<noteq> []"
  shows "\<exists>p'. evict_oldest p = Ok p' \<and> ps_inv next p' \<and> recency p' = tl (recency p) \<and>
    ps_capacity_bytes p' = ps_capacity_bytes p \<and> set (ps_entries p') \<subseteq> set (ps_entries p)"
proof -
  let ?es = "ps_entries p"
  have d: "distinct (map entry_stamp ?es)" "bt_sorted (\<lambda>k. k) ?es" using assms(1) by (auto simp: ps_inv_def)
  obtain k e t where r: "by_recency ?es = (k, e) # t"
    using assms(2) by_recency_facts(1) [OF d(1)] by (cases "by_recency ?es") auto
  then have mem: "(k, e) \<in> set ?es" using by_recency_facts(1) [OF d(1)] by (metis list.set_intros(1))
  note rm = ps_inv_remove [OF assms(1) mem]
  have "evict_oldest p = Ok (p\<lparr>ps_entries := bt_remove (\<lambda>k. k) k ?es,
      ps_usage_bytes := ps_usage_bytes p - length (ce_value e)\<rparr>)"
    using min_by_key_recency [OF d(1) assms(2)] r rm(1) by (simp add: evict_oldest_def checked_sub_usize_def)
  with rm(2) by_recency_tl [OF d assms(2)] r bt_remove_subset [of "\<lambda>k. k" k ?es] show ?thesis
    by (simp add: recency_def)
qed

lemma ps_inv_counters [simp]:
  "ps_inv next (p\<lparr>ps_evictions := n\<rparr>) = ps_inv next p" "recency (p\<lparr>ps_evictions := n\<rparr>) = recency p"
  "ps_inv next (p\<lparr>ps_hits := n\<rparr>) = ps_inv next p" "recency (p\<lparr>ps_hits := n\<rparr>) = recency p"
  "ps_inv next (p\<lparr>ps_misses := n\<rparr>) = ps_inv next p" "recency (p\<lparr>ps_misses := n\<rparr>) = recency p"
  "ps_inv next (p\<lparr>ps_admissions := n\<rparr>) = ps_inv next p" "recency (p\<lparr>ps_admissions := n\<rparr>) = recency p"
  by (simp_all add: ps_inv_def recency_def)

lemma recency_usage: "ps_inv next p \<Longrightarrow> lru_bytes (recency p) = ps_usage_bytes p"
  by (simp add: recency_def lru_bytes_recency ps_inv_def)

lemma recency_Nil: "recency p = [] \<longleftrightarrow> ps_entries p = []"
proof -
  have "length (recency p) = length (ps_entries p)" by (simp add: recency_def entry_blocks_def by_recency_def)
  then show ?thesis by auto
qed

lemma evict_loop_Ok:
  assumes "ps_inv next p" "n \<le> ps_capacity_bytes p"
  shows "\<exists>p'. evict_loop n p = Ok p' \<and> ps_inv next p' \<and> recency p' = lru_fit (ps_capacity_bytes p) n (recency p) \<and>
    ps_capacity_bytes p' = ps_capacity_bytes p \<and> ps_usage_bytes p' + n \<le> ps_capacity_bytes p \<and>
    set (ps_entries p') \<subseteq> set (ps_entries p)"
  using assms
proof (induction n p rule: evict_loop.induct)
  case (1 n p)
  note usage = recency_usage [OF 1(2)]
  have cap: "ps_usage_bytes p \<le> ps_capacity_bytes p" using 1(2) by (simp add: ps_inv_def)
  show ?case
  proof (cases "fits_in_budget (ps_usage_bytes p) n (ps_capacity_bytes p)")
    case True
    then have "ps_usage_bytes p + n \<le> ps_capacity_bytes p" using cap by (simp add: fits_in_budget_def)
    moreover from this have "lru_fit (ps_capacity_bytes p) n (recency p) = recency p"
      using usage by (cases "recency p") auto
    ultimately show ?thesis using True 1(2) by (simp add: evict_loop.simps [of n p])
  next
    case False
    then have big: "ps_capacity_bytes p < ps_usage_bytes p + n" using cap by (auto simp: fits_in_budget_def)
    then have "recency p \<noteq> []" using usage 1(3) by auto
    then obtain x xs where x: "recency p = x # xs" by (cases "recency p") auto
    from evict_oldest_Ok [OF 1(2)] x recency_Nil [of p] obtain q where
      q: "evict_oldest p = Ok q" "ps_inv next q" "recency q = xs" "ps_capacity_bytes q = ps_capacity_bytes p"
      "set (ps_entries q) \<subseteq> set (ps_entries p)" by auto
    from 1(1) [OF False q(1)] q 1(3) obtain r where
      "evict_loop n (q\<lparr>ps_evictions := saturating_add_u64 (ps_evictions q) 1\<rparr>) = Ok r" "ps_inv next r"
      "recency r = lru_fit (ps_capacity_bytes p) n xs" "ps_capacity_bytes r = ps_capacity_bytes p"
      "ps_usage_bytes r + n \<le> ps_capacity_bytes p" "set (ps_entries r) \<subseteq> set (ps_entries q)" by auto
    with False q x usage big show ?thesis by (auto simp: evict_loop.simps [of n p])
  qed
qed

text \<open>Giving the newest stamp to an entry makes it the most recently used one.\<close>

lemma split_key:
  assumes "bt_sorted (\<lambda>k. k) es" "(key, e) \<in> set es"
  obtains A B where "es = A @ (key, e) # B" "key \<notin> fst ` set A" "key \<notin> fst ` set B"
proof -
  from assms(2) obtain A B where es: "es = A @ (key, e) # B" by (meson split_list)
  with bt_sorted_distinct [OF assms(1)] have "key \<notin> fst ` set A" "key \<notin> fst ` set B" by auto
  with es that show ?thesis by blast
qed

lemma map_unaffected:
  "key \<notin> fst ` set A \<Longrightarrow> map (\<lambda>(k, e). if k = key then g k e else (k, e)) A = A"
  by (induction A) auto

lemma filter_unaffected: "key \<notin> fst ` set A \<Longrightarrow> filter (\<lambda>x. fst x \<noteq> key) A = A"
  by (induction A) auto

lemma touch_recency:
  assumes "ps_inv n p" "(key, e) \<in> set (ps_entries p)" "n < n'"
  shows "ps_inv n' (ps_set_stamp key n p)"
    "recency (ps_set_stamp key n p) = filter (\<lambda>x. fst x \<noteq> key) (recency p) @ [(key, ce_value e)]"
proof -
  let ?es = "ps_entries p" and ?e = "e\<lparr>ce_stamp := n\<rparr>"
  have inv: "bt_sorted (\<lambda>k. k) ?es" "distinct (map entry_stamp ?es)" "\<forall>x \<in> set ?es. entry_stamp x < n"
    using assms(1) by (auto simp: ps_inv_def)
  from split_key [OF inv(1) assms(2)] obtain A B where es: "?es = A @ (key, e) # B"
    and AB: "key \<notin> fst ` set A" "key \<notin> fst ` set B" .
  have es': "ps_entries (ps_set_stamp key n p) = A @ (key, ?e) # B"
    using AB by (simp add: ps_set_stamp_def es map_unaffected)
  have d': "distinct (map entry_stamp (A @ (key, ?e) # B))" using inv(2,3) es by auto
  note r = by_recency_facts [OF inv(2)]
  have "by_recency (A @ (key, ?e) # B) = filter (\<lambda>x. fst x \<noteq> key) (by_recency ?es) @ [(key, ?e)]"
  proof (rule by_recency_unique [OF d'])
    show "set (filter (\<lambda>x. fst x \<noteq> key) (by_recency ?es) @ [(key, ?e)]) = set (A @ (key, ?e) # B)"
      using AB r(1) es by (auto simp: image_iff)
    show "sorted_wrt (\<lambda>a b. entry_stamp a < entry_stamp b) (filter (\<lambda>x. fst x \<noteq> key) (by_recency ?es) @ [(key, ?e)])"
      using r(1,2) inv(3) by (auto simp: sorted_wrt_append sorted_wrt_filter)
  qed
  then show "recency (ps_set_stamp key n p) = filter (\<lambda>x. fst x \<noteq> key) (recency p) @ [(key, ce_value e)]"
    by (simp add: recency_def es' entry_blocks_filter)
  have "bt_sorted (\<lambda>k. k) (A @ (key, ?e) # B)" using inv(1) es by (simp add: bt_sorted_def)
  moreover have "lru_bytes (entry_blocks (A @ (key, ?e) # B)) = lru_bytes (entry_blocks ?es)" by (simp add: es)
  moreover have "ps_usage_bytes (ps_set_stamp key n p) = ps_usage_bytes p"
    "ps_capacity_bytes (ps_set_stamp key n p) = ps_capacity_bytes p" by (simp_all add: ps_set_stamp_def)
  ultimately show "ps_inv n' (ps_set_stamp key n p)"
    using assms(1,3) d' inv(3) by (auto simp: ps_inv_def es' es dest: less_trans)
qed

lemma admit_recency:
  assumes "ps_inv n p" "key \<notin> fst ` set (ps_entries p)" "n < n'"
    and "ps_usage_bytes p + length v \<le> ps_capacity_bytes p"
  defines "p' \<equiv> p\<lparr>ps_usage_bytes := ps_usage_bytes p + length v,
      ps_entries := bt_insert (\<lambda>k. k) key \<lparr>ce_value = v, ce_stamp = n\<rparr> (ps_entries p)\<rparr>"
  shows "ps_inv n' p'" "recency p' = recency p @ [(key, v)]"
proof -
  let ?es = "ps_entries p" and ?x = "(key, \<lparr>ce_value = v, ce_stamp = n\<rparr>)"
  let ?es' = "bt_insert (\<lambda>k. k) key \<lparr>ce_value = v, ce_stamp = n\<rparr> ?es"
  have inv: "bt_sorted (\<lambda>k. k) ?es" "distinct (map entry_stamp ?es)" "\<forall>x \<in> set ?es. entry_stamp x < n"
    using assms(1) by (auto simp: ps_inv_def)
  have ms: "mset (bt_insert (\<lambda>k. k) key e m) = add_mset (key, e) (mset m)" if "key \<notin> fst ` set m" for e m
    using that by (induction m) auto
  note ms = ms [OF assms(2)]
  have "mset (map entry_stamp ?es') = mset (n # map entry_stamp ?es)" by (simp add: ms)
  moreover have "distinct (n # map entry_stamp ?es)" using inv(2,3) by auto
  ultimately have d': "distinct (map entry_stamp ?es')" by (metis mset_eq_imp_distinct_iff)
  have set': "set ?es' = insert ?x (set ?es)" using arg_cong [OF ms, of set_mset] by simp
  note r = by_recency_facts [OF inv(2)]
  have "by_recency ?es' = by_recency ?es @ [?x]"
    using r(1,2) inv(3) set' by (intro by_recency_unique [OF d']) (auto simp: sorted_wrt_append)
  then show "recency p' = recency p @ [(key, v)]" by (simp add: recency_def p'_def)
  have "lru_bytes (entry_blocks (bt_insert (\<lambda>k. k) key e m)) = lru_bytes (entry_blocks m) + length (ce_value e)"
    if "key \<notin> fst ` set m" for e m using that by (induction m) auto
  from this [OF assms(2)]
  have "lru_bytes (entry_blocks ?es') = lru_bytes (entry_blocks ?es) + length v" by simp
  then show "ps_inv n' p'"
    using assms(1,3,4) inv d' set' by (auto simp: ps_inv_def p'_def)
qed

section \<open>Renumbering the stamps\<close>

definition restamp :: "(cache_key \<Rightarrow> u64 \<Rightarrow> u64) \<Rightarrow> partition_state \<Rightarrow> partition_state" where
  "restamp g p = p\<lparr>ps_entries := map (\<lambda>(k, e). (k, e\<lparr>ce_stamp := g k (ce_stamp e)\<rparr>)) (ps_entries p)\<rparr>"

fun stamp_of :: "nat \<Rightarrow> (u64 \<times> cache_partition \<times> cache_key) list \<Rightarrow> cache_partition \<Rightarrow> cache_key \<Rightarrow> u64 \<Rightarrow> u64" where
  "stamp_of n [] w k old = old"
| "stamp_of n ((s, w', k') # ordered) w k old =
    stamp_of (Suc n) ordered w k (if w = w' \<and> k = k' then u64_saturating_from n else old)"

lemma restamp_set_stamp:
  "restamp g (ps_set_stamp key s p) = restamp (\<lambda>k old. g k (if k = key then s else old)) p"
proof -
  have "map (\<lambda>(k, e). (k, e\<lparr>ce_stamp := g k (ce_stamp e)\<rparr>)) (ps_entries (ps_set_stamp key s p)) =
      map (\<lambda>(k, e). (k, e\<lparr>ce_stamp := g k (if k = key then s else ce_stamp e)\<rparr>)) (ps_entries p)"
    by (auto simp: ps_set_stamp_def)
  then show ?thesis by (simp add: restamp_def ps_set_stamp_def)
qed

lemma assign_stamps_restamp:
  "assign_stamps n ordered c =
    c\<lparr>bc_metadata := restamp (stamp_of n ordered MetadataPartition) (bc_metadata c),
      bc_data := restamp (stamp_of n ordered DataPartition) (bc_data c)\<rparr>"
proof (induction n ordered c rule: assign_stamps.induct)
  case (1 n c)
  then show ?case by (simp add: restamp_def)
next
  case (2 n old which key ordered c)
  then show ?case by (cases which) (simp_all add: restamp_set_stamp)
qed

lemma stamp_of_other: "(w, k) \<notin> set (map snd ordered) \<Longrightarrow> stamp_of n ordered w k old = old"
  by (induction n ordered w k old rule: stamp_of.induct) auto

lemma stamp_of_nth:
  "distinct (map snd ordered) \<Longrightarrow> i < length ordered \<Longrightarrow> snd (ordered ! i) = (w, k) \<Longrightarrow>
    stamp_of n ordered w k old = u64_saturating_from (n + i)"
proof (induction n ordered w k old arbitrary: i rule: stamp_of.induct)
  case (2 n s w' k' ordered w k old)
  show ?case
  proof (cases i)
    case 0
    then show ?thesis using 2(2,4) stamp_of_other [of w k ordered] by auto
  next
    case (Suc j)
    then show ?thesis using 2(1) [of j] 2(2-4) by simp
  qed
qed simp

lemma restamp_recency:
  assumes inv: "ps_inv n p"
    and mono: "\<And>x y. x \<in> set (ps_entries p) \<Longrightarrow> y \<in> set (ps_entries p) \<Longrightarrow> entry_stamp x < entry_stamp y \<Longrightarrow>
      g (fst x) (entry_stamp x) < g (fst y) (entry_stamp y)"
    and bound: "\<And>x. x \<in> set (ps_entries p) \<Longrightarrow> g (fst x) (entry_stamp x) < n'"
  shows "ps_inv n' (restamp g p)" "recency (restamp g p) = recency p"
proof -
  let ?es = "ps_entries p" and ?upd = "\<lambda>(k, e). (k :: cache_key, e\<lparr>ce_stamp := g k (ce_stamp e)\<rparr>)"
  have d: "distinct (map entry_stamp ?es)" using inv by (simp add: ps_inv_def)
  note r = by_recency_facts [OF d]
  have upd: "entry_stamp (?upd x) = g (fst x) (entry_stamp x)" for x by (cases x) simp
  have "inj_on (entry_stamp \<circ> ?upd) (set ?es)"
  proof (rule inj_onI)
    fix x y assume xy: "x \<in> set ?es" "y \<in> set ?es" "(entry_stamp \<circ> ?upd) x = (entry_stamp \<circ> ?upd) y"
    then have "g (fst x) (entry_stamp x) = g (fst y) (entry_stamp y)" by (simp add: split_beta)
    then have "entry_stamp x = entry_stamp y"
      using mono [OF xy(1,2)] mono [OF xy(2,1)] by (cases "entry_stamp x" "entry_stamp y" rule: linorder_cases) auto
    with d xy show "x = y" by (auto simp: distinct_map inj_on_def)
  qed
  then have d': "distinct (map entry_stamp (map ?upd ?es))" using d by (simp add: distinct_map)
  have "by_recency (map ?upd ?es) = map ?upd (by_recency ?es)"
  proof (rule by_recency_unique [OF d'])
    show "set (map ?upd (by_recency ?es)) = set (map ?upd ?es)" using r(1) by simp
    show "sorted_wrt (\<lambda>a b. entry_stamp a < entry_stamp b) (map ?upd (by_recency ?es))"
      unfolding sorted_wrt_map upd by (rule sorted_wrt_mono_rel [OF _ r(2)]) (simp add: r(1) mono)
  qed
  moreover have blocks: "entry_blocks (map ?upd xs) = entry_blocks xs" for xs
    by (simp add: entry_blocks_def split_beta comp_def)
  ultimately show "recency (restamp g p) = recency p" by (simp add: recency_def restamp_def)
  have "bt_sorted (\<lambda>k. k) (map ?upd ?es)" using inv by (simp add: ps_inv_def bt_sorted_def split_beta comp_def)
  then show "ps_inv n' (restamp g p)" using inv d' blocks bound upd by (auto simp: ps_inv_def restamp_def)
qed

lemma sorted_index_less:
  assumes "sorted xs" "distinct xs" "i < length xs" "j < length xs" "xs ! i < (xs ! j :: 'a :: linorder)"
  shows "i < j"
  using assms by (meson leD linorder_not_less sorted_nth_mono)

lemma u64_saturating_from_less:
  "i < j \<Longrightarrow> j < 2 ^ 64 \<Longrightarrow> u64_saturating_from i < u64_saturating_from j"
  by (simp add: u64_saturating_from_def u64_try_from_def word_less_nat_alt unat_of_nat_eq)

lemma renormalize_part:
  assumes inv: "bc_inv c" and count: "bc_count c < 2 ^ 64"
    and O: "ordered = sort (rank_entries MetadataPartition (bc_metadata c) @ rank_entries DataPartition (bc_data c))"
  shows "ps_inv (u64_saturating_from (bc_count c)) (restamp (stamp_of 0 ordered w) (bc_partition w c))"
    "recency (restamp (stamp_of 0 ordered w) (bc_partition w c)) = recency (bc_partition w c)"
proof -
  let ?p = "bc_partition w c" and ?M = "ps_entries (bc_metadata c)" and ?D = "ps_entries (bc_data c)"
  have p: "ps_inv (bc_next_stamp c) ?p" using inv by (cases w) (simp_all add: bc_inv_def)
  have "distinct (map fst ?M)" "distinct (map fst ?D)"
    using inv by (auto simp: bc_inv_def ps_inv_def intro: bt_sorted_distinct)
  then have "distinct (map snd (rank_entries MetadataPartition (bc_metadata c) @ rank_entries DataPartition (bc_data c)))"
    by (auto simp: rank_entries_def split_beta comp_def distinct_map inj_on_def)
  moreover have "mset (map snd ordered) =
      mset (map snd (rank_entries MetadataPartition (bc_metadata c) @ rank_entries DataPartition (bc_data c)))"
    by (simp add: O)
  ultimately have d: "distinct (map snd ordered)" by (metis mset_eq_imp_distinct_iff)
  have len: "length ordered = bc_count c" by (simp add: O rank_entries_def bc_count_def)
  have pos: "\<exists>i < length ordered. ordered ! i = (entry_stamp x, w, fst x) \<and>
      stamp_of 0 ordered w (fst x) (entry_stamp x) = u64_saturating_from i" if "x \<in> set (ps_entries ?p)" for x
  proof -
    have "(entry_stamp x, w, fst x) \<in> set ordered"
      using that by (cases w) (force simp: O rank_entries_def)+
    then obtain i where "i < length ordered" "ordered ! i = (entry_stamp x, w, fst x)"
      by (metis in_set_conv_nth)
    then show ?thesis using stamp_of_nth [OF d, of i w "fst x" 0] by auto
  qed
  have "stamp_of 0 ordered w (fst x) (entry_stamp x) < stamp_of 0 ordered w (fst y) (entry_stamp y)"
    if xy: "x \<in> set (ps_entries ?p)" "y \<in> set (ps_entries ?p)" "entry_stamp x < entry_stamp y" for x y
  proof -
    from pos [OF xy(1)] pos [OF xy(2)] obtain i j where
      ij: "i < length ordered" "ordered ! i = (entry_stamp x, w, fst x)" "j < length ordered"
      "ordered ! j = (entry_stamp y, w, fst y)"
      and st: "stamp_of 0 ordered w (fst x) (entry_stamp x) = u64_saturating_from i"
      "stamp_of 0 ordered w (fst y) (entry_stamp y) = u64_saturating_from j" by blast
    have "sorted ordered" by (simp add: O)
    moreover have "distinct ordered" using d by (simp add: distinct_map)
    moreover have "ordered ! i < ordered ! j" unfolding ij(2,4) using xy(3) by simp
    ultimately have "i < j" using ij(1,3) sorted_index_less by blast
    then show ?thesis using st ij(3) len count by (simp add: u64_saturating_from_less)
  qed
  moreover have "stamp_of 0 ordered w (fst x) (entry_stamp x) < u64_saturating_from (bc_count c)"
    if "x \<in> set (ps_entries ?p)" for x
    using pos [OF that] len count by (auto simp: u64_saturating_from_less)
  ultimately show "ps_inv (u64_saturating_from (bc_count c)) (restamp (stamp_of 0 ordered w) ?p)"
    "recency (restamp (stamp_of 0 ordered w) ?p) = recency ?p"
    using restamp_recency [OF p] by blast+
qed

lemma restamp_simps [simp]:
  "length (ps_entries (restamp g p)) = length (ps_entries p)"
  "ps_capacity_bytes (restamp g p) = ps_capacity_bytes p"
  by (simp_all add: restamp_def)

lemma bump_stamp_ok:
  assumes inv: "bc_inv c" and count: "bc_count c < 2 ^ 64 - 1" and bump: "bump_stamp c = (stamp, c')"
  shows "ps_inv stamp (bc_partition w c')" "recency (bc_partition w c') = recency (bc_partition w c)"
    "stamp < bc_next_stamp c'" "ps_capacity_bytes (bc_partition w c') = ps_capacity_bytes (bc_partition w c)"
    "bc_count c' = bc_count c"
proof -
  define d where "d = (if bc_next_stamp c = u64_max then renormalize_stamps c else c)"
  have c': "stamp = bc_next_stamp d" "c' = d\<lparr>bc_next_stamp := saturating_add_u64 (bc_next_stamp d) 1\<rparr>"
    using bump by (auto simp: bump_stamp_def d_def Let_def)
  have d: "ps_inv (bc_next_stamp d) (bc_partition w d) \<and> recency (bc_partition w d) = recency (bc_partition w c) \<and>
      bc_next_stamp d \<noteq> u64_max \<and> bc_count d = bc_count c \<and>
      ps_capacity_bytes (bc_partition w d) = ps_capacity_bytes (bc_partition w c)"
  proof (cases "bc_next_stamp c = u64_max")
    case False
    then show ?thesis using inv by (cases w) (simp_all add: d_def bc_inv_def)
  next
    case True
    let ?O = "sort (rank_entries MetadataPartition (bc_metadata c) @ rank_entries DataPartition (bc_data c))"
    have sat: "saturating_add_usize (length (ps_entries (bc_metadata c))) (length (ps_entries (bc_data c))) = bc_count c"
      using count by (simp add: saturating_add_usize_def bc_count_def usize_max_def)
    have D: "d = c\<lparr>bc_metadata := restamp (stamp_of 0 ?O MetadataPartition) (bc_metadata c),
        bc_data := restamp (stamp_of 0 ?O DataPartition) (bc_data c),
        bc_next_stamp := u64_saturating_from (bc_count c)\<rparr>"
      using True sat by (simp add: d_def renormalize_stamps_def assign_stamps_restamp Let_def)
    have part: "bc_partition w d = restamp (stamp_of 0 ?O w) (bc_partition w c)" by (cases w) (simp_all add: D)
    have "unat (u64_saturating_from (bc_count c)) = bc_count c"
      using count by (simp add: u64_saturating_from_def u64_try_from_def unat_of_nat_eq)
    then have "u64_saturating_from (bc_count c) \<noteq> u64_max" using count by auto
    moreover have "bc_count d = bc_count c" by (simp add: D bc_count_def)
    ultimately show ?thesis
      using renormalize_part [OF inv _ refl, of w] count by (simp add: part) (simp add: D)
  qed
  have "bc_partition w c' = bc_partition w d" by (cases w) (simp_all add: c'(2))
  moreover have "unat (bc_next_stamp d) < 2 ^ 64 - 1"
    using d unat_lt2p [of "bc_next_stamp d"] by (auto simp: word_unat_eq_iff)
  then have "stamp < bc_next_stamp c'"
    by (simp add: c' saturating_add_u64_def word_less_nat_alt unat_word_ariths)
  moreover have "bc_count c' = bc_count d" by (simp add: c'(2) bc_count_def)
  ultimately show "ps_inv stamp (bc_partition w c')" "recency (bc_partition w c') = recency (bc_partition w c)"
    "stamp < bc_next_stamp c'" "ps_capacity_bytes (bc_partition w c') = ps_capacity_bytes (bc_partition w c)"
    "bc_count c' = bc_count c" using d c'(1) by simp_all
qed

section \<open>The operations\<close>

lemma bc_inv_new: "bc_new total_bytes = Ok c \<Longrightarrow> total_bytes \<le> usize_max \<Longrightarrow> bc_inv c"
  by (auto simp: bc_new_def Let_def bc_inv_def ps_inv_def ps_new_def split: if_splits)

lemma ps_inv_mono: "ps_inv n p \<Longrightarrow> n \<le> n' \<Longrightarrow> ps_inv n' p"
  by (auto simp: ps_inv_def dest: less_le_trans)

lemma bc_partition_set [simp]:
  "bc_partition w (bc_set_partition w' p c) = (if w = w' then p else bc_partition w c)"
  "bc_next_stamp (bc_set_partition w p c) = bc_next_stamp c"
  by (cases w; cases w'; simp) (cases w; simp)

lemma bc_inv_partitions: "bc_inv c \<longleftrightarrow> (\<forall>w. ps_inv (bc_next_stamp c) (bc_partition w c))"
proof
  assume "\<forall>w. ps_inv (bc_next_stamp c) (bc_partition w c)"
  from spec [OF this, of MetadataPartition] spec [OF this, of DataPartition]
  show "bc_inv c" by (simp add: bc_inv_def)
next
  assume "bc_inv c"
  then have "ps_inv (bc_next_stamp c) (bc_partition w c)" for w by (cases w) (simp_all add: bc_inv_def)
  then show "\<forall>w. ps_inv (bc_next_stamp c) (bc_partition w c)" ..
qed

lemma bc_get_ok:
  assumes inv: "bc_inv c" "bc_count c < 2 ^ 64 - 1" and get: "bc_get f off kind c = (r, c')"
  defines "w \<equiv> bk_partition kind"
  shows "bc_inv c'" "(r, recency (bc_partition w c')) = lru_get (f, off, kind) (recency (bc_partition w c))"
    "w' \<noteq> w \<Longrightarrow> recency (bc_partition w' c') = recency (bc_partition w' c)"
proof -
  let ?key = "(f, off, kind)"
  obtain stamp d where d: "bump_stamp c = (stamp, d)" by fastforce
  note b = bump_stamp_ok [OF inv d]
  let ?p = "bc_partition w d"
  have srt: "bt_sorted (\<lambda>k. k) (ps_entries ?p)" using b(1) [of w] by (simp add: ps_inv_def)
  have lookup: "map_of (recency ?p) ?key = map_option ce_value (bt_get (\<lambda>k. k) ?key (ps_entries ?p))"
    unfolding recency_def by (rule map_of_recency [OF srt])
  have others: "ps_inv (bc_next_stamp d) (bc_partition w' d)" for w'
    using b(1,3) by (meson ps_inv_mono less_imp_le)
  have "bc_inv c' \<and> (r, recency (bc_partition w c')) = lru_get ?key (recency (bc_partition w c)) \<and>
    (w' \<noteq> w \<longrightarrow> recency (bc_partition w' c') = recency (bc_partition w' c))"
  proof (cases "bt_get (\<lambda>k. k) ?key (ps_entries ?p)")
    case None
    then show ?thesis using get d lookup others b(2) [of w] b(2) [of w']
      by (auto simp: bc_get_def w_def lru_get_def Let_def bc_inv_partitions)
  next
    case (Some e)
    then have "(?key, e) \<in> set (ps_entries ?p)" unfolding bt_get_Some_iff [OF srt] by force
    note t = touch_recency [OF b(1) this b(3)]
    have "map_of (recency (bc_partition w c)) ?key = Some (ce_value e)" using lookup Some b(2) [of w] by simp
    then have "lru_get ?key (recency (bc_partition w c)) =
        (Some (ce_value e), filter (\<lambda>x. fst x \<noteq> ?key) (recency (bc_partition w c)) @ [(?key, ce_value e)])"
      by (simp add: lru_get_def)
    moreover have "r = Some (ce_value e)" "c' = bc_set_partition w
        ((ps_set_stamp ?key stamp ?p)\<lparr>ps_hits := saturating_add_u64 (ps_hits ?p) 1\<rparr>) d"
      using get d Some by (auto simp: bc_get_def w_def Let_def)
    ultimately show ?thesis using others t b(2) [of w] b(2) [of w'] by (simp add: bc_inv_partitions)
  qed
  then show "bc_inv c'" "(r, recency (bc_partition w c')) = lru_get ?key (recency (bc_partition w c))"
    "w' \<noteq> w \<Longrightarrow> recency (bc_partition w' c') = recency (bc_partition w' c)" by blast+
qed

lemma replace_ok:
  assumes "ps_inv n p"
  shows "\<exists>q. (case bt_get (\<lambda>k. k) key (ps_entries p) of
        None \<Rightarrow> Ok p
      | Some replaced \<Rightarrow>
          rbind (ok_or (checked_sub_usize (ps_usage_bytes p) (length (ce_value replaced))) Panic) (\<lambda>usage.
          Ok (p\<lparr>ps_entries := bt_remove (\<lambda>k. k) key (ps_entries p), ps_usage_bytes := usage\<rparr>))) = Ok q \<and>
    ps_inv n q \<and> recency q = filter (\<lambda>x. fst x \<noteq> key) (recency p) \<and> key \<notin> fst ` set (ps_entries q) \<and>
    ps_capacity_bytes q = ps_capacity_bytes p"
proof (cases "bt_get (\<lambda>k. k) key (ps_entries p)")
  case None
  then have no: "key \<notin> fst ` set (ps_entries p)" by (auto simp: bt_get_none_iff)
  have "set (by_recency (ps_entries p)) = set (ps_entries p)" by (simp add: by_recency_def)
  then have "filter (\<lambda>x. fst x \<noteq> key) (by_recency (ps_entries p)) = by_recency (ps_entries p)"
    using no by (intro filter_unaffected) simp
  with None no assms show ?thesis by (simp add: recency_def flip: entry_blocks_filter)
next
  case (Some e)
  have srt: "bt_sorted (\<lambda>k. k) (ps_entries p)" using assms by (simp add: ps_inv_def)
  have "(key, e) \<in> set (ps_entries p)" using Some unfolding bt_get_Some_iff [OF srt] by force
  note rm = ps_inv_remove [OF assms this]
  from Some rm srt show ?thesis
    by (simp add: checked_sub_usize_def recency_def bt_remove_filter by_recency_filter entry_blocks_filter) auto
qed

lemma bc_insert_ok:
  assumes inv: "bc_inv c" "bc_count c < 2 ^ 64 - 1" and ins: "bc_insert f off kind v c = (r, c')"
  defines "w \<equiv> bk_partition kind"
  shows "bc_inv c' \<and>
    (\<exists>b. r = Ok b \<and> (b, recency (bc_partition w c')) =
      lru_insert (ps_capacity_bytes (bc_partition w c)) (f, off, kind) v (recency (bc_partition w c))) \<and>
    (w' \<noteq> w \<longrightarrow> recency (bc_partition w' c') = recency (bc_partition w' c))"
proof (cases "length v > ps_capacity_bytes (bc_partition w c)")
  case True
  then show ?thesis using ins inv by (auto simp: bc_insert_def w_def lru_insert_def)
next
  case False
  let ?key = "(f, off, kind)"
  obtain stamp d where d: "bump_stamp c = (stamp, d)" by fastforce
  note b = bump_stamp_ok [OF inv d]
  let ?p = "bc_partition w d"
  obtain q where q: "(case bt_get (\<lambda>k. k) ?key (ps_entries ?p) of
        None \<Rightarrow> Ok ?p
      | Some replaced \<Rightarrow>
          rbind (ok_or (checked_sub_usize (ps_usage_bytes ?p) (length (ce_value replaced))) Panic) (\<lambda>usage.
          Ok (?p\<lparr>ps_entries := bt_remove (\<lambda>k. k) ?key (ps_entries ?p), ps_usage_bytes := usage\<rparr>))) = Ok q"
    "ps_inv stamp q" "recency q = filter (\<lambda>x. fst x \<noteq> ?key) (recency ?p)" "?key \<notin> fst ` set (ps_entries q)"
    "ps_capacity_bytes q = ps_capacity_bytes ?p"
    using replace_ok [OF b(1), of w ?key] by blast
  have fit: "length v \<le> ps_capacity_bytes q" using False q(5) b(4) [of w] by simp
  from evict_loop_Ok [OF q(2) fit] obtain s where s: "evict_loop (length v) q = Ok s" "ps_inv stamp s"
    "recency s = lru_fit (ps_capacity_bytes q) (length v) (recency q)" "ps_capacity_bytes s = ps_capacity_bytes q"
    "ps_usage_bytes s + length v \<le> ps_capacity_bytes q" "set (ps_entries s) \<subseteq> set (ps_entries q)" by blast
  have "?key \<notin> fst ` set (ps_entries s)" using q(4) s(6) by blast
  note a = admit_recency [OF s(2) this b(3), of v] s(4,5)
  have add: "checked_add_usize (ps_usage_bytes s) (length v) = Some (ps_usage_bytes s + length v)"
    using s(2,4,5) by (simp add: checked_add_usize_def ps_inv_def)
  have others: "ps_inv (bc_next_stamp d) (bc_partition w' d)" for w'
    using b(1,3) by (meson ps_inv_mono less_imp_le)
  have "r = Ok True \<and> c' = bc_set_partition w (s\<lparr>ps_usage_bytes := ps_usage_bytes s + length v,
      ps_entries := bt_insert (\<lambda>k. k) ?key \<lparr>ce_value = v, ce_stamp = stamp\<rparr> (ps_entries s),
      ps_admissions := saturating_add_u64 (ps_admissions s) 1\<rparr>) d"
    using ins [unfolded bc_insert_def Let_def, folded w_def] d q(1) s(1) add False by simp
  then show ?thesis
    using a others b(2) [of w] b(2) [of w'] b(4) [of w] q(3,5) s(3) False
    by (simp add: bc_inv_partitions lru_insert_def) blast
qed

section \<open>Coherence\<close>

text \<open>
  What a client relies on: whatever a lookup returns is acceptable for its key, as long as only
  acceptable blocks are inserted.
\<close>

locale coherent_store =
  fixes coherent :: "('k \<Rightarrow> 'v \<Rightarrow> bool) \<Rightarrow> 'c \<Rightarrow> bool" and get :: "'k \<Rightarrow> 'c \<Rightarrow> 'v option \<times> 'c"
    and insert :: "'k \<Rightarrow> 'v \<Rightarrow> 'c \<Rightarrow> bool result \<times> 'c"
  assumes get_law: "coherent ok c \<Longrightarrow> get k c = (r, c') \<Longrightarrow> coherent ok c' \<and> (\<forall>v. r = Some v \<longrightarrow> ok k v)"
    and insert_law: "coherent ok c \<Longrightarrow> ok k v \<Longrightarrow> insert k v c = (a, c') \<Longrightarrow> coherent ok c' \<and> (\<exists>b. a = Ok b)"
begin

text \<open>A read through the store: a hit is acceptable, and a miss can be filled.\<close>

lemma hit_or_fill:
  assumes "coherent ok c"
  obtains (Hit) v c' where "get k c = (Some v, c')" "ok k v" "coherent ok c'"
  | (Miss) c' where "get k c = (None, c')" "coherent ok c'"
      "\<And>v. ok k v \<Longrightarrow> \<exists>b c''. insert k v c' = (Ok b, c'') \<and> coherent ok c''"
proof -
  obtain r c' where g: "get k c = (r, c')" by fastforce
  note law = get_law [OF assms g]
  have "\<exists>b c''. insert k v c' = (Ok b, c'') \<and> coherent ok c''" if "ok k v" for v
  proof -
    obtain r c'' where "insert k v c' = (r, c'')" by fastforce
    with insert_law [of ok c' k v] law that show ?thesis by blast
  qed
  with g law Hit Miss show ?thesis by (cases r) auto
qed

end

definition bc_coherent :: "(cache_key \<Rightarrow> bytes \<Rightarrow> bool) \<Rightarrow> block_cache \<Rightarrow> bool" where
  "bc_coherent ok c \<longleftrightarrow> bc_inv c \<and> (\<forall>k v. ok k v \<longrightarrow> v \<noteq> []) \<and>
    ps_capacity_bytes (bc_metadata c) + ps_capacity_bytes (bc_data c) < 2 ^ 64 - 1 \<and>
    (\<forall>w. \<forall>(k, v) \<in> set (recency (bc_partition w c)). ok k v)"

lemma ps_count_le:
  assumes "ps_inv n p" "\<forall>(k, v) \<in> set (recency p). v \<noteq> []"
  shows "length (ps_entries p) \<le> ps_capacity_bytes p"
proof -
  have "length xs \<le> lru_bytes xs" if "\<forall>(k, v) \<in> set xs. v \<noteq> []" for xs
    using that by (induction xs) (auto simp: Suc_le_eq add_strict_increasing)
  from this [OF assms(2)] assms(1) show ?thesis
    by (simp add: recency_def lru_bytes_recency ps_inv_def) (simp add: entry_blocks_def by_recency_def)
qed

lemma bc_coherent_count:
  assumes "bc_coherent ok c"
  shows "bc_count c < 2 ^ 64 - 1"
proof -
  have "\<forall>(k, v) \<in> set (recency (bc_partition w c)). v \<noteq> []" for w
    using assms by (fastforce simp: bc_coherent_def)
  from this [of MetadataPartition] this [of DataPartition]
  have "length (ps_entries (bc_metadata c)) \<le> ps_capacity_bytes (bc_metadata c)"
    "length (ps_entries (bc_data c)) \<le> ps_capacity_bytes (bc_data c)"
    using assms ps_count_le by (auto simp: bc_coherent_def bc_inv_def)
  with assms show ?thesis by (simp add: bc_coherent_def bc_count_def)
qed

lemma bc_coherent_new:
  assumes "bc_new total_bytes = Ok c" "total_bytes < 2 ^ 64 - 1" "\<forall>k v. ok k v \<longrightarrow> v \<noteq> []"
  shows "bc_coherent ok c"
proof -
  have c: "c = \<lparr>bc_metadata = ps_new (total_bytes div 5), bc_data = ps_new (total_bytes - total_bytes div 5),
      bc_next_stamp = 0\<rparr>"
    using assms(1) by (auto simp: bc_new_def Let_def split: if_splits)
  have "recency (bc_partition w c) = []" for w
    by (cases w) (simp_all add: c ps_new_def recency_def by_recency_def)
  with assms bc_inv_new [OF assms(1)] show ?thesis
    by (simp add: bc_coherent_def usize_max_def) (simp add: c ps_new_def)
qed

lemma ps_capacity_set_stamp [simp]: "ps_capacity_bytes (ps_set_stamp k s p) = ps_capacity_bytes p"
  by (simp add: ps_set_stamp_def)

lemma bc_get_capacity:
  assumes "bc_inv c" "bc_count c < 2 ^ 64 - 1" "bc_get f off kind c = (r, c')"
  shows "ps_capacity_bytes (bc_partition w c') = ps_capacity_bytes (bc_partition w c)"
proof -
  obtain stamp d where d: "bump_stamp c = (stamp, d)" by fastforce
  from bump_stamp_ok(4) [OF assms(1,2) d] assms(3) d show ?thesis
    by (auto simp: bc_get_def Let_def split: option.splits)
qed

lemma evict_loop_capacity: "evict_loop n p = Ok p' \<Longrightarrow> ps_capacity_bytes p' = ps_capacity_bytes p"
proof (induction n p rule: evict_loop.induct)
  case (1 n p)
  then show ?case
    by (auto simp: evict_loop.simps [of n p] evict_oldest_def result_iffs split: if_splits)
qed

lemma bc_insert_capacity:
  assumes "bc_inv c" "bc_count c < 2 ^ 64 - 1" "bc_insert f off kind v c = (Ok b, c')"
  shows "ps_capacity_bytes (bc_partition w c') = ps_capacity_bytes (bc_partition w c)"
proof -
  obtain stamp d where d: "bump_stamp c = (stamp, d)" by fastforce
  from bump_stamp_ok(4) [OF assms(1,2) d] assms(3) d show ?thesis
    by (auto simp: bc_insert_def Let_def result_iffs split: option.splits if_splits sum.splits
        dest!: evict_loop_capacity)
qed

lemma lru_fit_subset: "set (lru_fit cap n xs) \<subseteq> set xs"
  by (induction xs) auto

interpretation block_store: coherent_store bc_coherent "\<lambda>(f, off, kind). bc_get f off kind" "\<lambda>(f, off, kind). bc_insert f off kind"
proof (unfold_locales, goal_cases)
  case (1 ok c k r c')
  obtain f off kind where k: "k = (f, off, kind)" by (cases k)
  have inv: "bc_inv c" "bc_count c < 2 ^ 64 - 1" using 1 bc_coherent_count by (auto simp: bc_coherent_def)
  have get: "bc_get f off kind c = (r, c')" using 1(2) k by simp
  note g = bc_get_ok [OF inv get]
  let ?w = "bk_partition kind"
  have all: "\<forall>(k, v) \<in> set (recency (bc_partition w c)). ok k v" for w using 1(1) by (simp add: bc_coherent_def)
  have "set (recency (bc_partition w c')) \<subseteq> set (recency (bc_partition w c))" for w
    using g(2) g(3) [of w] by (cases "w = ?w") (auto simp: lru_get_def split: option.splits dest: map_of_SomeD)
  with all have "\<forall>(k, v) \<in> set (recency (bc_partition w c')). ok k v" for w by blast
  moreover have "ok k v" if "r = Some v" for v
  proof -
    have "map_of (recency (bc_partition ?w c)) k = Some v"
      using g(2) that k by (auto simp: lru_get_def split: option.splits)
    from map_of_SomeD [OF this] all [of ?w] show ?thesis by blast
  qed
  ultimately show ?case using g(1) bc_get_capacity [OF inv get, of MetadataPartition] bc_get_capacity [OF inv get, of DataPartition] 1(1)
    by (auto simp: bc_coherent_def)
next
  case (2 ok c k v r c')
  obtain f off kind where k: "k = (f, off, kind)" by (cases k)
  have inv: "bc_inv c" "bc_count c < 2 ^ 64 - 1" using 2 bc_coherent_count by (auto simp: bc_coherent_def)
  have ins: "bc_insert f off kind v c = (r, c')" using 2(3) k by simp
  let ?w = "bk_partition kind"
  obtain b where b: "r = Ok b" using bc_insert_ok [OF inv ins] by blast
  note cap = bc_insert_capacity [OF inv ins [unfolded b]]
  have "\<forall>(k, v) \<in> set (recency (bc_partition w c')). ok k v" for w
  proof (cases "w = ?w")
    case True
    have "set (recency (bc_partition w c')) \<subseteq> insert (k, v) (set (recency (bc_partition w c)))"
      using bc_insert_ok [OF inv ins] lru_fit_subset True k by (fastforce simp: lru_insert_def split: if_splits)
    with 2(1,2) show ?thesis by (fastforce simp: bc_coherent_def)
  next
    case False
    with bc_insert_ok [OF inv ins, of w] 2(1) show ?thesis by (simp add: bc_coherent_def)
  qed
  with bc_insert_ok [OF inv ins] cap [of MetadataPartition] cap [of DataPartition] 2(1) b
  show ?case by (auto simp: bc_coherent_def)
qed

text \<open>
  C16. Each partition of the block cache is a least-recently-used list within its byte budget: a
  lookup returns the block stored under the key and makes it the most recent one, an insertion
  never panics and evicts exactly the oldest blocks that are in its way, and neither disturbs the
  other partition.  This includes the renumbering of all stamps when the 64-bit counter runs out.
\<close>

theorem cache_is_lru:
  assumes "bc_inv c" "bc_count c < 2 ^ 64 - 1"
    and "bc_get f off kind c = (found, c1)" "bc_insert f off kind v c = (admitted, c2)"
  shows "bc_inv c1 \<and> bc_inv c2 \<and>
    (found, recency (bc_partition (bk_partition kind) c1)) =
      lru_get (f, off, kind) (recency (bc_partition (bk_partition kind) c)) \<and>
    (\<exists>b. admitted = Ok b \<and> (b, recency (bc_partition (bk_partition kind) c2)) =
      lru_insert (ps_capacity_bytes (bc_partition (bk_partition kind) c)) (f, off, kind) v
        (recency (bc_partition (bk_partition kind) c))) \<and>
    (\<forall>w. w = bk_partition kind \<or>
      recency (bc_partition w c1) = recency (bc_partition w c) \<and> recency (bc_partition w c2) = recency (bc_partition w c))"
  using bc_get_ok [OF assms(1-3)] bc_insert_ok [OF assms(1,2,4)] by blast

text \<open>A full data partition of ten bytes whose stamp counter is exhausted.\<close>

definition sample_cache :: block_cache where
  "sample_cache = \<lparr>bc_metadata = ps_new 2,
    bc_data = (ps_new 10)\<lparr>ps_usage_bytes := 9, ps_entries :=
      [((1, 0, DataBlock), \<lparr>ce_value = [1, 2, 3, 4], ce_stamp = 70\<rparr>),
       ((1, 9, DataBlock), \<lparr>ce_value = [5, 6, 7, 8, 9], ce_stamp = 20\<rparr>)]\<rparr>,
    bc_next_stamp = u64_max\<rparr>"

lemma sample_cache_inv: "bc_inv sample_cache" "bc_count sample_cache < 2 ^ 64 - 1"
  by (simp_all add: sample_cache_def bc_inv_def ps_inv_def ps_new_def bc_count_def usize_max_def word_less_nat_alt)

lemma sample_cache_recency:
  "recency (bc_data sample_cache) = [((1, 9, DataBlock), [5, 6, 7, 8, 9]), ((1, 0, DataBlock), [1, 2, 3, 4])]"
proof -
  have "by_recency (ps_entries (bc_data sample_cache)) =
    [((1, 9, DataBlock), \<lparr>ce_value = [5, 6, 7, 8, 9], ce_stamp = 20\<rparr>),
     ((1, 0, DataBlock), \<lparr>ce_value = [1, 2, 3, 4], ce_stamp = 70\<rparr>)]"
    by (rule by_recency_unique) (auto simp: sample_cache_def ps_new_def)
  then show ?thesis by (simp add: recency_def)
qed

theorem cache_is_lru_witness:
  "recency (bc_data (snd (bc_insert 2 0 DataBlock [0, 0, 0] sample_cache))) =
     [((1, 0, DataBlock), [1, 2, 3, 4]), ((2, 0, DataBlock), [0, 0, 0])] \<and>
   fst (bc_get 2 0 DataBlock sample_cache) = None"
proof -
  obtain found c1 where get: "bc_get 2 0 DataBlock sample_cache = (found, c1)" by fastforce
  obtain admitted c2 where ins: "bc_insert 2 0 DataBlock [0, 0, 0] sample_cache = (admitted, c2)" by fastforce
  have "ps_capacity_bytes (bc_data sample_cache) = 10" by (simp add: sample_cache_def ps_new_def)
  with cache_is_lru [OF sample_cache_inv get ins] show ?thesis
    by (auto simp: get ins sample_cache_recency lru_insert_def lru_get_def)
qed

end
