(* ===== verification/Versions.thy ===== *)
theory Versions
  imports Internal_Key "HOL-Library.Multiset"
begin

text \<open>
  Immutable versions of the live SSTable set and the edits that lead from one to the next
  (\<open>version.rs\<close>).  A level is the list of its files; \<open>apply\<close> deletes, adds, sorts
  and validates in the order of the source.
\<close>

section \<open>Definitions\<close>

definition NUM_LEVELS :: usize where "NUM_LEVELS = 7"

record file_meta =
  fm_number :: u64
  fm_file_size :: u64
  fm_smallest :: internal_key
  fm_largest :: internal_key

definition fm_new :: "u64 \<Rightarrow> u64 \<Rightarrow> internal_key \<Rightarrow> internal_key \<Rightarrow> file_meta result" where
  "fm_new number file_size smallest largest =
    (if number = 0 then Err InvalidArgument
     else if file_size = 0 then Err InvalidArgument
     else if ik_less largest smallest then Err InvalidArgument
     else Ok \<lparr>fm_number = number, fm_file_size = file_size, fm_smallest = smallest,
       fm_largest = largest\<rparr>)"

record version =
  v_levels :: "file_meta list list"

definition version_empty :: version where
  "version_empty = \<lparr>v_levels = replicate NUM_LEVELS []\<rparr>"

definition v_files :: "version \<Rightarrow> usize \<Rightarrow> file_meta list" where
  "v_files v level = v_levels v ! level"

record version_edit =
  ve_added_files :: "(usize \<times> file_meta) list"
  ve_deleted_files :: "(usize \<times> u64) list"
  ve_next_file_number :: "u64 option"
  ve_last_sequence :: "sequence_number option"
  ve_log_number :: "u64 option"
  ve_active_log_number :: "u64 option"
  ve_wal_sequence :: "sequence_number option"

definition ve_new :: version_edit where
  "ve_new = \<lparr>ve_added_files = [], ve_deleted_files = [], ve_next_file_number = None,
    ve_last_sequence = None, ve_log_number = None, ve_active_log_number = None,
    ve_wal_sequence = None\<rparr>"

definition add_file :: "usize \<Rightarrow> file_meta \<Rightarrow> version_edit \<Rightarrow> version_edit" where
  "add_file level f e = e\<lparr>ve_added_files := ve_added_files e @ [(level, f)]\<rparr>"

definition delete_file :: "usize \<Rightarrow> u64 \<Rightarrow> version_edit \<Rightarrow> version_edit" where
  "delete_file level file_number e = e\<lparr>ve_deleted_files := ve_deleted_files e @ [(level, file_number)]\<rparr>"

definition set_next_file_number :: "u64 \<Rightarrow> version_edit \<Rightarrow> version_edit" where
  "set_next_file_number number e = e\<lparr>ve_next_file_number := Some number\<rparr>"

definition set_last_sequence :: "sequence_number \<Rightarrow> version_edit \<Rightarrow> version_edit" where
  "set_last_sequence sequence e = e\<lparr>ve_last_sequence := Some sequence\<rparr>"

definition set_log_number :: "u64 \<Rightarrow> version_edit \<Rightarrow> version_edit" where
  "set_log_number number e = e\<lparr>ve_log_number := Some number\<rparr>"

definition set_active_log_number :: "u64 \<Rightarrow> version_edit \<Rightarrow> version_edit" where
  "set_active_log_number number e = e\<lparr>ve_active_log_number := Some number\<rparr>"

definition set_wal_sequence :: "sequence_number \<Rightarrow> version_edit \<Rightarrow> version_edit" where
  "set_wal_sequence sequence e = e\<lparr>ve_wal_sequence := Some sequence\<rparr>"

text \<open>\<open>Iterator::position\<close> and \<open>Vec::remove\<close>.\<close>

fun find_position :: "('a \<Rightarrow> bool) \<Rightarrow> 'a list \<Rightarrow> usize option" where
  "find_position P [] = None"
| "find_position P (x # xs) = (if P x then Some 0 else map_option Suc (find_position P xs))"

definition remove_at :: "usize \<Rightarrow> 'a list \<Rightarrow> 'a list" where
  "remove_at i xs = take i xs @ drop (Suc i) xs"

definition level_mut :: "file_meta list list \<Rightarrow> usize \<Rightarrow> file_meta list result" where
  "level_mut levels level = (if level < length levels then Ok (levels ! level) else Err InvalidArgument)"

definition check_new_file_number :: "file_meta list list \<Rightarrow> u64 \<Rightarrow> unit result" where
  "check_new_file_number levels number =
    (if \<exists>f \<in> set (concat levels). fm_number f = number then Err InvalidArgument else Ok ())"

fun validate_non_overlapping :: "file_meta list \<Rightarrow> unit result" where
  "validate_non_overlapping (f # g # fs) =
    (if ik_user_key (fm_largest f) \<ge> ik_user_key (fm_smallest g) then Err InvalidArgument
     else validate_non_overlapping (g # fs))"
| "validate_non_overlapping _ = Ok ()"

text \<open>The three loops of \<open>apply\<close> over the candidate's levels.\<close>

fun delete_files :: "(usize \<times> u64) list \<Rightarrow> file_meta list list \<Rightarrow> file_meta list list result" where
  "delete_files [] levels = Ok levels"
| "delete_files ((level, number) # ds) levels =
    rbind (level_mut levels level) (\<lambda>fs.
    rbind (ok_or (find_position (\<lambda>f. fm_number f = number) fs) InvalidArgument) (\<lambda>i.
    delete_files ds (levels[level := remove_at i fs])))"

fun add_files :: "(usize \<times> file_meta) list \<Rightarrow> file_meta list list \<Rightarrow> file_meta list list result" where
  "add_files [] levels = Ok levels"
| "add_files ((level, f) # as) levels =
    rbind (check_new_file_number levels (fm_number f)) (\<lambda>_.
    rbind (level_mut levels level) (\<lambda>fs.
    add_files as (levels[level := fs @ [f]])))"

definition newest_first :: "file_meta list \<Rightarrow> file_meta list" where
  "newest_first = sort_key (\<lambda>f. - int (unat (fm_number f)))"

definition by_smallest :: "file_meta list \<Rightarrow> file_meta list" where
  "by_smallest = sort_key (\<lambda>f. ik_user_key (fm_smallest f))"

fun sort_levels :: "usize list \<Rightarrow> file_meta list list \<Rightarrow> file_meta list list result" where
  "sort_levels [] levels = Ok levels"
| "sort_levels (level # ks) levels =
    (let levels = levels[level := by_smallest (levels ! level)] in
     rbind (validate_non_overlapping (levels ! level)) (\<lambda>_. sort_levels ks levels))"

definition version_apply :: "version \<Rightarrow> version_edit \<Rightarrow> version result" where
  "version_apply v e =
    rbind (delete_files (ve_deleted_files e) (v_levels v)) (\<lambda>levels.
    rbind (add_files (ve_added_files e) levels) (\<lambda>levels.
    rbind (sort_levels [1..<NUM_LEVELS] (levels[0 := newest_first (levels ! 0)])) (\<lambda>levels.
    Ok \<lparr>v_levels = levels\<rparr>)))"

section \<open>Well-formed versions\<close>

text \<open>
  File metadata as \<open>FileMeta::new\<close> builds it, and the invariant the comment on
  \<open>Version\<close> states.
\<close>

definition fm_ok :: "file_meta \<Rightarrow> bool" where
  "fm_ok f \<longleftrightarrow> fm_number f \<noteq> 0 \<and> fm_file_size f \<noteq> 0 \<and> wf_key (fm_smallest f) \<and>
    wf_key (fm_largest f) \<and> \<not> ik_less (fm_largest f) (fm_smallest f)"

definition disjoint_level :: "file_meta list \<Rightarrow> bool" where
  "disjoint_level = sorted_wrt (\<lambda>f g. ik_user_key (fm_largest f) < ik_user_key (fm_smallest g))"

definition version_ok :: "version \<Rightarrow> bool" where
  "version_ok v \<longleftrightarrow> length (v_levels v) = NUM_LEVELS \<and>
    (\<forall>f \<in> set (concat (v_levels v)). fm_ok f) \<and>
    distinct (map fm_number (concat (v_levels v))) \<and>
    sorted_wrt (\<lambda>f g. fm_number f > fm_number g) (v_files v 0) \<and>
    (\<forall>l \<in> {1..<NUM_LEVELS}. disjoint_level (v_files v l))"

definition edit_ok :: "version_edit \<Rightarrow> bool" where
  "edit_ok e \<longleftrightarrow> (\<forall>(l, f) \<in> set (ve_added_files e). fm_ok f)"

definition contains_key :: "bytes \<Rightarrow> file_meta \<Rightarrow> bool" where
  "contains_key u f \<longleftrightarrow> ik_user_key (fm_smallest f) \<le> u \<and> u \<le> ik_user_key (fm_largest f)"

text \<open>The contents an edit asks a level to have, and the order it puts them in.\<close>

definition edited_level :: "version \<Rightarrow> version_edit \<Rightarrow> usize \<Rightarrow> file_meta list" where
  "edited_level v e l =
    filter (\<lambda>f. (l, fm_number f) \<notin> set (ve_deleted_files e)) (v_files v l) @
    map snd (filter (\<lambda>(k, f). k = l) (ve_added_files e))"

definition order_level :: "usize \<Rightarrow> file_meta list \<Rightarrow> file_meta list" where
  "order_level l = (if l = 0 then newest_first else by_smallest)"

section \<open>Lemmas\<close>

lemma fm_new_Ok:
  "fm_new n s a b = Inr f \<Longrightarrow> wf_key a \<Longrightarrow> wf_key b \<Longrightarrow>
    fm_ok f \<and> f = \<lparr>fm_number = n, fm_file_size = s, fm_smallest = a, fm_largest = b\<rparr>"
  by (auto simp: fm_new_def fm_ok_def split: if_splits)

lemma fm_new_ok:
  "fm_ok f \<Longrightarrow> fm_new (fm_number f) (fm_file_size f) (fm_smallest f) (fm_largest f) = Ok f"
  by (simp add: fm_ok_def fm_new_def)

lemma fm_ok_range: "fm_ok f \<Longrightarrow> ik_user_key (fm_smallest f) \<le> ik_user_key (fm_largest f)"
  by (auto simp: fm_ok_def ik_less_def wf_key_less_iff)

lemma position_None: "find_position P xs = None \<longleftrightarrow> (\<forall>x \<in> set xs. \<not> P x)"
  by (induction xs) auto

lemma position_Some:
  "find_position P xs = Some i \<Longrightarrow>
    \<exists>ys x zs. xs = ys @ x # zs \<and> length ys = i \<and> P x \<and> (\<forall>y \<in> set ys. \<not> P y)"
proof (induction xs arbitrary: i)
  case (Cons a xs)
  show ?case
  proof (cases "P a")
    case True
    with Cons.prems show ?thesis by (intro exI [of _ "[]"]) auto
  next
    case False
    with Cons.prems obtain j where j: "find_position P xs = Some j" "i = Suc j" by auto
    from Cons.IH [OF j(1)] obtain ys x zs where
      "xs = ys @ x # zs" "length ys = j" "P x" "\<forall>y \<in> set ys. \<not> P y" by blast
    with False j show ?thesis by (intro exI [of _ "a # ys"]) auto
  qed
qed simp

text \<open>File numbers are unique, so removing the first match removes every match.\<close>

lemma remove_position:
  assumes "find_position (\<lambda>f. fm_number f = n) fs = Some i" and "distinct (map fm_number fs)"
  shows "remove_at i fs = filter (\<lambda>f. fm_number f \<noteq> n) fs"
proof -
  from position_Some [OF assms(1)] obtain ys x zs where
    f: "fs = ys @ x # zs" "length ys = i" "fm_number x = n" "\<forall>y \<in> set ys. fm_number y \<noteq> n" by blast
  have "n \<notin> fm_number ` set zs" using assms(2) f(1,3) by simp
  then have "\<forall>z \<in> set zs. fm_number z \<noteq> n" by blast
  with f show ?thesis by (simp add: remove_at_def)
qed

lemma mset_concat_update:
  "l < length xs \<Longrightarrow> mset (concat (xs[l := ys])) + mset (xs ! l) = mset (concat xs) + mset ys"
  by (induction xs arbitrary: l) (auto split: nat.splits simp: nth_Cons' ac_simps gr0_conv_Suc)

lemma distinct_level: "distinct (map f (concat xs)) \<Longrightarrow> l < length xs \<Longrightarrow> distinct (map f (xs ! l))"
  by (induction xs arbitrary: l) (auto simp: nth_Cons' gr0_conv_Suc)

lemma mset_concat_levels:
  "length xs = length ys \<Longrightarrow> (\<And>l. l < length xs \<Longrightarrow> mset (xs ! l) = mset (ys ! l)) \<Longrightarrow>
    mset (concat xs) = mset (concat ys)"
proof (induction xs ys rule: list_induct2)
  case (Cons x xs y ys)
  have "mset (xs ! l) = mset (ys ! l)" if "l < length xs" for l
    using Cons.prems [of "Suc l"] that by simp
  with Cons.IH Cons.prems [of 0] show ?case by simp
qed simp

lemma mset_concat_mono:
  "length xs = length ys \<Longrightarrow> (\<And>l. l < length xs \<Longrightarrow> mset (xs ! l) \<subseteq># mset (ys ! l)) \<Longrightarrow>
    mset (concat xs) \<subseteq># mset (concat ys)"
proof (induction xs ys rule: list_induct2)
  case (Cons x xs y ys)
  have "mset (xs ! l) \<subseteq># mset (ys ! l)" if "l < length xs" for l
    using Cons.prems [of "Suc l"] that by simp
  with Cons.IH Cons.prems [of 0] show ?case by (simp add: subset_mset.add_mono)
qed simp

lemma distinct_submset:
  assumes "mset xs \<subseteq># mset ys" "distinct ys"
  shows "distinct xs"
proof -
  from assms(1) obtain zs where "mset ys = mset (xs @ zs)"
    by (metis ex_mset mset_append mset_subset_eq_exists_conv)
  with assms(2) show ?thesis using mset_eq_imp_distinct_iff by fastforce
qed

lemma distinct_numbers_update:
  assumes "distinct (map fm_number (concat xs))" "l < length xs" "mset ys \<subseteq># mset (xs ! l)"
  shows "distinct (map fm_number (concat (xs[l := ys])))"
proof -
  have "mset (concat (xs[l := ys])) + mset (xs ! l) \<subseteq># mset (concat xs) + mset (xs ! l)"
    unfolding mset_concat_update [OF assms(2)] using assms(3) by simp
  then have "mset (map fm_number (concat (xs[l := ys]))) \<subseteq># mset (map fm_number (concat xs))"
    unfolding mset_map by (intro image_mset_subseteq_mono) simp
  with assms(1) show ?thesis by (rule distinct_submset [rotated])
qed

lemma delete_files_Ok:
  assumes "delete_files ds levels = Inr levels'" "distinct (map fm_number (concat levels))"
  shows "length levels' = length levels \<and> distinct (map fm_number (concat levels')) \<and>
    (\<forall>l < length levels. levels' ! l = filter (\<lambda>f. (l, fm_number f) \<notin> set ds) (levels ! l)) \<and>
    (\<forall>(l, n) \<in> set ds. l < length levels \<and> n \<in> fm_number ` set (levels ! l)) \<and> distinct ds"
  using assms
proof (induction ds arbitrary: levels)
  case (Cons d ds)
  obtain l n where dn: "d = (l, n)" by (cases d)
  with Cons.prems(1) obtain i where
    l: "l < length levels" and i: "find_position (\<lambda>f. fm_number f = n) (levels ! l) = Some i"
    and d: "delete_files ds (levels[l := remove_at i (levels ! l)]) = Inr levels'"
    by (auto simp: result_iffs level_mut_def split: if_splits)
  note r = remove_position [OF i distinct_level [OF Cons.prems(2) l]]
  have dist: "distinct (map fm_number (concat (levels[l := remove_at i (levels ! l)])))"
    using Cons.prems(2) l unfolding r by (rule distinct_numbers_update) simp
  have "n \<in> fm_number ` set (levels ! l)" using position_Some [OF i] by fastforce
  moreover note IH = Cons.IH [OF d dist]
  have "(l, n) \<notin> set ds"
    using IH l by (auto simp: r)
  ultimately show ?case
    using IH l by (auto simp: dn r nth_list_update split: if_splits intro!: filter_cong)
qed simp

lemma delete_files_total:
  assumes "\<forall>(l, n) \<in> set ds. l < length levels \<and> n \<in> fm_number ` set (levels ! l)" "distinct ds"
    and "distinct (map fm_number (concat levels))"
  shows "\<exists>levels'. delete_files ds levels = Ok levels'"
  using assms
proof (induction ds arbitrary: levels)
  case (Cons d ds)
  obtain l n where dn: "d = (l, n)" by (cases d)
  with Cons.prems(1) have l: "l < length levels" and n: "n \<in> fm_number ` set (levels ! l)" by auto
  from n obtain i where i: "find_position (\<lambda>f. fm_number f = n) (levels ! l) = Some i"
    using position_None [of "\<lambda>f. fm_number f = n" "levels ! l"] by (cases "find_position (\<lambda>f. fm_number f = n) (levels ! l)") auto
  note r = remove_position [OF i distinct_level [OF Cons.prems(3) l]]
  let ?ls = "levels[l := remove_at i (levels ! l)]"
  have "\<forall>(k, m) \<in> set ds. k < length ?ls \<and> m \<in> fm_number ` set (?ls ! k)"
    using Cons.prems(1,2) dn by (fastforce simp: r nth_list_update image_iff)
  moreover have "distinct (map fm_number (concat ?ls))"
    using Cons.prems(3) l unfolding r by (rule distinct_numbers_update) simp
  ultimately show ?case
    using Cons.IH [of ?ls] Cons.prems(2) l i by (simp add: dn level_mut_def)
qed simp

lemma check_new_file_number_image:
  "check_new_file_number levels n =
    (if n \<in> fm_number ` set (concat levels) then Err InvalidArgument else Ok ())"
  by (auto simp: check_new_file_number_def)

lemma add_files_Ok_iff:
  assumes "distinct (map fm_number (concat levels))"
  shows "add_files as levels = Inr levels' \<longleftrightarrow>
    (\<forall>(l, f) \<in> set as. l < length levels) \<and>
    levels' = map (\<lambda>l. levels ! l @ map snd (filter (\<lambda>(k, f). k = l) as)) [0..<length levels] \<and>
    distinct (map fm_number (concat levels'))"
  using assms
proof (induction as arbitrary: levels)
  case Nil
  then show ?case by (auto simp: map_nth)
next
  case (Cons a as)
  obtain l f where a: "a = (l, f)" by (cases a)
  let ?ls = "levels[l := levels ! l @ [f]]"
  show ?case
  proof (cases "l < length levels")
    case l: True
    have ms: "mset (concat ?ls) = mset (concat levels) + {#f#}"
      using mset_concat_update [OF l, of "levels ! l @ [f]"] by simp
    have dist: "distinct (map fm_number (concat ?ls)) \<longleftrightarrow> fm_number f \<notin> fm_number ` set (concat levels)"
    proof -
      have "mset (map fm_number (concat ?ls)) = mset (map fm_number (f # concat levels))"
        using ms by simp
      from mset_eq_imp_distinct_iff [OF this] Cons.prems show ?thesis by simp
    qed
    have eq: "map (\<lambda>k. ?ls ! k @ map snd (filter (\<lambda>(j, f). j = k) as)) [0..<length levels] =
      map (\<lambda>k. levels ! k @ map snd (filter (\<lambda>(j, f). j = k) (a # as))) [0..<length levels]"
      using l by (auto simp: a nth_list_update)
    show ?thesis
    proof (cases "fm_number f \<in> fm_number ` set (concat levels)")
      case False
      with Cons.IH [of ?ls, unfolded length_list_update eq] dist l show ?thesis
        by (simp add: a rbind_Ok_iff check_new_file_number_image level_mut_def)
    next
      case True
      let ?r = "map (\<lambda>k. levels ! k @ map snd (filter (\<lambda>(j, f). j = k) (a # as))) [0..<length levels]"
      have "\<not> distinct (map fm_number (concat ?r))"
      proof
        assume "distinct (map fm_number (concat ?r))"
        moreover have "mset (concat ?ls) \<subseteq># mset (concat ?r)"
          unfolding eq [symmetric] by (rule mset_concat_mono) simp_all
        then have "mset (map fm_number (concat ?ls)) \<subseteq># mset (map fm_number (concat ?r))"
          unfolding mset_map by (rule image_mset_subseteq_mono)
        ultimately show False using dist True distinct_submset by blast
      qed
      with True show ?thesis
        by (auto simp: a rbind_Ok_iff check_new_file_number_image simp del: set_concat map_concat)
    qed
  qed (auto simp: a result_iffs check_new_file_number_def level_mut_def)
qed

lemma validate_non_overlapping_iff:
  "\<forall>f \<in> set fs. fm_ok f \<Longrightarrow> validate_non_overlapping fs = Inr () \<longleftrightarrow> disjoint_level fs"
proof (induction fs rule: validate_non_overlapping.induct)
  case (1 f g fs)
  have "ik_user_key (fm_largest f) < ik_user_key (fm_smallest h)"
    if "ik_user_key (fm_largest f) < ik_user_key (fm_smallest g)" "disjoint_level (g # fs)"
      "h \<in> set fs" for h
    using that fm_ok_range [of g] 1(2) by (fastforce simp: disjoint_level_def)
  with 1 show ?case by (auto simp: disjoint_level_def not_le)
qed (auto simp: disjoint_level_def)

lemma sort_levels_Ok_iff:
  assumes "distinct ks" "\<forall>k \<in> set ks. k < length levels"
  shows "sort_levels ks levels = Inr levels' \<longleftrightarrow>
    (\<forall>k \<in> set ks. validate_non_overlapping (by_smallest (levels ! k)) = Inr ()) \<and>
    levels' = map (\<lambda>l. if l \<in> set ks then by_smallest (levels ! l) else levels ! l) [0..<length levels]"
  using assms
proof (induction ks arbitrary: levels)
  case Nil
  then show ?case by (auto simp: map_nth)
next
  case (Cons k ks)
  let ?ls = "levels[k := by_smallest (levels ! k)]"
  have eq: "map (\<lambda>l. if l \<in> set ks then by_smallest (?ls ! l) else ?ls ! l) [0..<length levels] =
    map (\<lambda>l. if l \<in> set (k # ks) then by_smallest (levels ! l) else levels ! l) [0..<length levels]"
    using Cons.prems by (auto simp: nth_list_update)
  have "\<forall>j \<in> set ks. ?ls ! j = levels ! j" using Cons.prems by (auto simp: nth_list_update)
  with Cons.IH [of ?ls, unfolded length_list_update eq] Cons.prems show ?case
    by (simp add: Let_def rbind_Ok_iff)
qed

section \<open>The effect of an edit\<close>

definition edit_applies :: "version \<Rightarrow> version_edit \<Rightarrow> bool" where
  "edit_applies v e \<longleftrightarrow>
    distinct (ve_deleted_files e) \<and>
    (\<forall>(l, n) \<in> set (ve_deleted_files e). l < NUM_LEVELS \<and> n \<in> fm_number ` set (v_files v l)) \<and>
    (\<forall>(l, f) \<in> set (ve_added_files e). l < NUM_LEVELS) \<and>
    distinct (map fm_number (concat (map (edited_level v e) [0..<NUM_LEVELS]))) \<and>
    (\<forall>l \<in> {1..<NUM_LEVELS}. disjoint_level (by_smallest (edited_level v e l)))"

lemma order_level_mset [simp]: "mset (order_level l fs) = mset fs"
  by (simp add: order_level_def newest_first_def by_smallest_def)

lemma order_level_set [simp]: "set (order_level l fs) = set fs"
  by (metis order_level_mset set_mset_mset)

lemma edited_level_fm_ok:
  "version_ok v \<Longrightarrow> edit_ok e \<Longrightarrow> l < NUM_LEVELS \<Longrightarrow> f \<in> set (edited_level v e l) \<Longrightarrow> fm_ok f"
  by (auto simp: version_ok_def edit_ok_def edited_level_def v_files_def)

lemma sorted_levels_Ok_iff:
  assumes "length levels = NUM_LEVELS" "\<forall>l < NUM_LEVELS. \<forall>f \<in> set (levels ! l). fm_ok f"
  shows "sort_levels [1..<NUM_LEVELS] (levels[0 := newest_first (levels ! 0)]) = Inr levels' \<longleftrightarrow>
    (\<forall>l \<in> {1..<NUM_LEVELS}. disjoint_level (by_smallest (levels ! l))) \<and>
    levels' = map (\<lambda>l. order_level l (levels ! l)) [0..<NUM_LEVELS]"
proof -
  have "validate_non_overlapping (by_smallest (levels ! l)) = Inr () \<longleftrightarrow> disjoint_level (by_smallest (levels ! l))"
    if "l < NUM_LEVELS" for l
    using assms(2) that by (intro validate_non_overlapping_iff) (simp add: by_smallest_def)
  then have "(\<forall>l \<in> {1..<NUM_LEVELS}. validate_non_overlapping (by_smallest (levels ! l)) = Inr ()) \<longleftrightarrow>
    (\<forall>l \<in> {1..<NUM_LEVELS}. disjoint_level (by_smallest (levels ! l)))"
    by simp
  moreover have eq: "map (\<lambda>l. if l \<in> set [1..<NUM_LEVELS] then by_smallest (levels[0 := newest_first (levels ! 0)] ! l)
      else levels[0 := newest_first (levels ! 0)] ! l) [0..<NUM_LEVELS] =
    map (\<lambda>l. order_level l (levels ! l)) [0..<NUM_LEVELS]"
    using assms(1) by (auto simp: order_level_def nth_list_update NUM_LEVELS_def)
  ultimately show ?thesis
    using sort_levels_Ok_iff [of "[1..<NUM_LEVELS]" "levels[0 := newest_first (levels ! 0)]" levels',
      unfolded length_list_update assms(1) eq] by simp
qed

lemma version_apply_iff:
  assumes "version_ok v" "edit_ok e"
  shows "version_apply v e = Inr v' \<longleftrightarrow>
    edit_applies v e \<and> v_levels v' = map (\<lambda>l. order_level l (edited_level v e l)) [0..<NUM_LEVELS]"
    (is "?L \<longleftrightarrow> ?R")
proof -
  let ?el = "map (edited_level v e) [0..<NUM_LEVELS]"
  have len: "length (v_levels v) = NUM_LEVELS" and dist: "distinct (map fm_number (concat (v_levels v)))"
    using assms(1) by (auto simp: version_ok_def)
  have ok: "\<forall>l < NUM_LEVELS. \<forall>f \<in> set (?el ! l). fm_ok f"
    using edited_level_fm_ok [OF assms] by simp
  have sorted: "sort_levels [1..<NUM_LEVELS] (?el[0 := newest_first (?el ! 0)]) = Inr (v_levels v') \<longleftrightarrow>
    (\<forall>l \<in> {1..<NUM_LEVELS}. disjoint_level (by_smallest (edited_level v e l))) \<and>
    v_levels v' = map (\<lambda>l. order_level l (edited_level v e l)) [0..<NUM_LEVELS]"
    by (subst sorted_levels_Ok_iff) (use ok in auto)
  show ?thesis
  proof (cases "\<exists>ds. delete_files (ve_deleted_files e) (v_levels v) = Ok ds")
    case True
    then obtain ds where ds: "delete_files (ve_deleted_files e) (v_levels v) = Ok ds" by blast
    note del = delete_files_Ok [OF ds dist]
    have eq: "map (\<lambda>l. ds ! l @ map snd (filter (\<lambda>(k, f). k = l) (ve_added_files e))) [0..<length ds] = ?el"
      using del len by (auto simp: edited_level_def v_files_def)
    have add: "add_files (ve_added_files e) ds = Inr ls \<longleftrightarrow>
      (\<forall>(l, f) \<in> set (ve_added_files e). l < NUM_LEVELS) \<and> ls = ?el \<and> distinct (map fm_number (concat ?el))" for ls
      using add_files_Ok_iff [of ds "ve_added_files e" ls, unfolded eq] del len by auto
    have "?L \<longleftrightarrow> (\<forall>(l, f) \<in> set (ve_added_files e). l < NUM_LEVELS) \<and> distinct (map fm_number (concat ?el)) \<and>
      sort_levels [1..<NUM_LEVELS] (?el[0 := newest_first (?el ! 0)]) = Inr (v_levels v')"
      by (auto simp: version_apply_def ds rbind_Ok_iff add)
    also have "\<dots> \<longleftrightarrow> ?R"
      using del len unfolding sorted by (auto simp: edit_applies_def v_files_def)
    finally show ?thesis .
  next
    case False
    then have "\<not> edit_applies v e"
      using delete_files_total [OF _ _ dist, of "ve_deleted_files e"] len
      by (auto simp: edit_applies_def v_files_def)
    moreover have "\<not> ?L" using False by (auto simp: version_apply_def rbind_Ok_iff)
    ultimately show ?thesis by blast
  qed
qed

lemma order_level_concat:
  "mset (concat (map (\<lambda>l. order_level l (g l)) ks)) = mset (concat (map g ks))"
  by (induction ks) auto

lemma newest_first_sorted:
  assumes "distinct (map fm_number fs)"
  shows "sorted_wrt (\<lambda>f g. fm_number f > fm_number g) (newest_first fs)"
proof -
  have "sorted_wrt (\<lambda>f g. fm_number f > fm_number g) gs"
    if "distinct (map fm_number gs)" "sorted (map (\<lambda>f. - int (unat (fm_number f))) gs)" for gs
    using that
  proof (induction gs)
    case (Cons g gs)
    have "fm_number h < fm_number g" if "h \<in> set gs" for h
      using that Cons.prems by (auto simp: image_iff word_le_def order_less_le)
    with Cons show ?case by simp
  qed simp
  moreover have "distinct (map fm_number (newest_first fs))"
    using assms by (metis mset_eq_imp_distinct_iff mset_map mset_sort newest_first_def)
  moreover have "sorted (map (\<lambda>f. - int (unat (fm_number f))) (newest_first fs))"
    unfolding newest_first_def by (rule sorted_sort_key)
  ultimately show ?thesis by blast
qed

lemma version_apply_ok:
  assumes "version_ok v" "edit_ok e" "version_apply v e = Inr v'"
  shows "version_ok v'"
    and "l < NUM_LEVELS \<Longrightarrow> v_files v' l = order_level l (edited_level v e l)"
proof -
  let ?f = "\<lambda>l. order_level l (edited_level v e l)"
  from assms have ap: "edit_applies v e" and lv: "v_levels v' = map ?f [0..<NUM_LEVELS]"
    by (simp_all add: version_apply_iff)
  have files: "v_files v' l = ?f l" if "l < NUM_LEVELS" for l
    using that by (simp add: v_files_def lv)
  have "mset (map fm_number (concat (v_levels v'))) =
    mset (map fm_number (concat (map (edited_level v e) [0..<NUM_LEVELS])))"
    unfolding mset_map lv order_level_concat ..
  from mset_eq_imp_distinct_iff [OF this] ap have dist: "distinct (map fm_number (concat (v_levels v')))"
    by (simp add: edit_applies_def)
  have "\<forall>f \<in> set (concat (v_levels v')). fm_ok f"
    using edited_level_fm_ok [OF assms(1,2)] by (auto simp: lv)
  moreover have "distinct (map fm_number (edited_level v e 0))"
    using distinct_level [of fm_number "map (edited_level v e) [0..<NUM_LEVELS]" 0] ap
    by (simp add: edit_applies_def NUM_LEVELS_def)
  then have "sorted_wrt (\<lambda>f g. fm_number f > fm_number g) (v_files v' 0)"
    by (simp add: files NUM_LEVELS_def order_level_def newest_first_sorted)
  moreover have "\<forall>l \<in> {1..<NUM_LEVELS}. disjoint_level (v_files v' l)"
    using ap by (auto simp: files order_level_def edit_applies_def)
  ultimately show "version_ok v'"
    using dist by (simp add: version_ok_def lv)
  show "l < NUM_LEVELS \<Longrightarrow> v_files v' l = ?f l" by (rule files)
qed

lemma version_ok_empty: "version_ok version_empty"
  by (simp add: version_ok_def version_empty_def v_files_def NUM_LEVELS_def disjoint_level_def)

lemma version_ok_files: "version_ok v \<Longrightarrow> l < NUM_LEVELS \<Longrightarrow> f \<in> set (v_files v l) \<Longrightarrow> fm_ok f"
  by (auto simp: version_ok_def v_files_def)

lemma disjoint_level_unique:
  assumes "disjoint_level fs" "\<forall>f \<in> set fs. fm_ok f" "f \<in> set fs" "g \<in> set fs"
    and "contains_key u f" "contains_key u g"
  shows "f = g"
  using assms
proof (induction fs)
  case (Cons h fs)
  have "\<not> contains_key u k" if "contains_key u h" "k \<in> set fs" for k
    using that Cons.prems(1) by (fastforce simp: disjoint_level_def contains_key_def)
  with Cons show ?case by (auto simp: disjoint_level_def)
qed simp

text \<open>A history of edits applied from the empty version.\<close>

fun apply_edits :: "version_edit list \<Rightarrow> version \<Rightarrow> version result" where
  "apply_edits [] v = Ok v"
| "apply_edits (e # es) v = rbind (version_apply v e) (apply_edits es)"

lemma apply_edits_ok:
  "apply_edits es v = Inr v' \<Longrightarrow> version_ok v \<Longrightarrow> \<forall>e \<in> set es. edit_ok e \<Longrightarrow> version_ok v'"
  by (induction es arbitrary: v) (auto simp: rbind_Ok_iff dest: version_apply_ok(1))

section \<open>Properties\<close>

text \<open>
  C11. An edit is accepted exactly when every file it deletes is live in the named level, every
  added file goes to an existing level, no file number is live twice afterwards and the files of
  every level from one on have disjoint user-key ranges.  The new version then holds, level by
  level, the old files that were not deleted and the added ones, in the level's order.
\<close>

theorem version_apply_spec:
  assumes "version_ok v" "edit_ok e"
  shows "version_apply v e = Ok v' \<longleftrightarrow>
    edit_applies v e \<and> v_levels v' = map (\<lambda>l. order_level l (edited_level v e l)) [0..<NUM_LEVELS]"
  using assms by (rule version_apply_iff)

text \<open>
  C10. In every version reached from the empty one by a sequence of accepted edits, file numbers are
  unique, level zero lists its files from the newest to the oldest, and in each further level a
  user key lies in the range of at most one file.
\<close>

theorem version_history:
  assumes "apply_edits es version_empty = Ok v" "\<forall>e \<in> set es. edit_ok e"
  shows "version_ok v \<and>
    (\<forall>l \<in> {1..<NUM_LEVELS}. \<forall>f \<in> set (v_files v l). \<forall>g \<in> set (v_files v l).
      contains_key u f \<and> contains_key u g \<longrightarrow> f = g)"
proof -
  have ok: "version_ok v" by (rule apply_edits_ok [OF assms(1) version_ok_empty assms(2)])
  have "f = g" if "l \<in> {1..<NUM_LEVELS}" "f \<in> set (v_files v l)" "g \<in> set (v_files v l)"
    "contains_key u f" "contains_key u g" for l f g
    using disjoint_level_unique [OF _ _ that(2-5)] ok that(1) version_ok_files [OF ok, of l]
    by (auto simp: version_ok_def)
  with ok show ?thesis by blast
qed

definition sample_key :: "bytes \<Rightarrow> sequence_number \<Rightarrow> internal_key" where
  "sample_key u s = expect (ik_try_new u s Value)"

definition sample_file :: "u64 \<Rightarrow> bytes \<Rightarrow> bytes \<Rightarrow> file_meta" where
  "sample_file n lo hi = \<lparr>fm_number = n, fm_file_size = 100, fm_smallest = sample_key lo 5,
    fm_largest = sample_key hi 4\<rparr>"

definition sample_edits :: "version_edit list" where
  "sample_edits = [add_file 0 (sample_file 1 [1] [3]) (add_file 1 (sample_file 2 [7] [8])
      (add_file 1 (sample_file 3 [1] [6]) ve_new)),
    delete_file 0 1 (add_file 1 (sample_file 4 [9] [9]) ve_new)]"

lemma sample_key_fields:
  assumes "s \<le> MAX_SEQUENCE_NUMBER"
  shows "wf_key (sample_key u s)" "ik_user_key (sample_key u s) = u"
    "ik_sequence (sample_key u s) = s" "ik_kind (sample_key u s) = Value"
  using ik_try_new_total [OF assms, of u Value] ik_try_new_Ok [of u s Value]
  by (auto simp: sample_key_def)

lemma sample_sequences: "(4 :: u64) \<le> MAX_SEQUENCE_NUMBER" "(5 :: u64) \<le> MAX_SEQUENCE_NUMBER"
  by (simp_all add: MAX_SEQUENCE_NUMBER_def u64_max_def)

lemmas sample_fields = sample_key_fields [OF sample_sequences(1)] sample_key_fields [OF sample_sequences(2)]

lemma sample_file_ok: "lo \<le> hi \<Longrightarrow> n \<noteq> 0 \<Longrightarrow> fm_ok (sample_file n lo hi)"
  by (auto simp: fm_ok_def sample_file_def ik_less_def sample_fields wf_key_less_iff)

lemma sample_edits_ok: "\<forall>e \<in> set sample_edits. edit_ok e"
  by (simp add: sample_edits_def edit_ok_def add_file_def delete_file_def ve_new_def sample_file_ok)

lemma levels_unfold:
  "[0..<NUM_LEVELS] = [0, 1, 2, 3, 4, 5, 6]" "[Suc 0..<NUM_LEVELS] = [1, 2, 3, 4, 5, 6]"
  "{Suc 0..<NUM_LEVELS} = {1, 2, 3, 4, 5, 6}" "v_levels version_empty = [[], [], [], [], [], [], []]"
  "0 < NUM_LEVELS" "Suc 0 < NUM_LEVELS"
  by (auto simp: NUM_LEVELS_def version_empty_def eval_nat_numeral upt_rec)

lemmas sample_edit_defs = sample_edits_def add_file_def delete_file_def ve_new_def levels_unfold
  version_apply_def level_mut_def check_new_file_number_def newest_first_def by_smallest_def
  sample_file_def sample_fields remove_at_def v_files_def

theorem version_apply_spec_witness:
  "version_apply version_empty (hd sample_edits) =
    Ok \<lparr>v_levels = [[sample_file 1 [1] [3]], [sample_file 3 [1] [6], sample_file 2 [7] [8]],
      [], [], [], [], []]\<rparr>"
proof (subst version_apply_spec [OF version_ok_empty])
  show "edit_ok (hd sample_edits)" using sample_edits_ok by (simp add: sample_edits_def)
  show "edit_applies version_empty (hd sample_edits) \<and>
    v_levels \<lparr>v_levels = [[sample_file 1 [1] [3]], [sample_file 3 [1] [6], sample_file 2 [7] [8]],
      [], [], [], [], []]\<rparr> =
    map (\<lambda>l. order_level l (edited_level version_empty (hd sample_edits) l)) [0..<NUM_LEVELS]"
    by (simp add: edit_applies_def edited_level_def order_level_def disjoint_level_def sample_edit_defs)
qed

theorem version_history_witness:
  "\<exists>v. apply_edits sample_edits version_empty = Ok v \<and> length (v_files v 1) = 3 \<and> version_ok v"
proof -
  have "\<exists>v. apply_edits sample_edits version_empty = Ok v \<and> length (v_files v 1) = 3"
    by (simp add: sample_edit_defs Let_def)
  with version_history [OF _ sample_edits_ok, of _ "[1]"] show ?thesis by blast
qed

end
