(* ===== verification/Read_Stats.thy ===== *)
theory Read_Stats
  imports Block_Cache Versions
begin

text \<open>
  Read statistics (\<open>stats.rs\<close>) and the snapshot of the cache counters (\<open>cache.rs\<close>).
  The counters saturate.  The floating-point ratio \<open>read_amplification\<close> is a display
  helper and is left out.
\<close>

section \<open>Definitions\<close>

record cache_partition_snapshot =
  cps_capacity_bytes :: usize
  cps_usage_bytes :: usize
  cps_entries :: usize
  cps_hits :: u64
  cps_misses :: u64
  cps_admissions :: u64
  cps_evictions :: u64

record cache_snapshot =
  cs_metadata :: cache_partition_snapshot
  cs_data :: cache_partition_snapshot

definition ps_snapshot :: "partition_state \<Rightarrow> cache_partition_snapshot" where
  "ps_snapshot p = \<lparr>cps_capacity_bytes = ps_capacity_bytes p, cps_usage_bytes = ps_usage_bytes p,
    cps_entries = length (ps_entries p), cps_hits = ps_hits p, cps_misses = ps_misses p,
    cps_admissions = ps_admissions p, cps_evictions = ps_evictions p\<rparr>"

definition bc_snapshot :: "block_cache \<Rightarrow> cache_snapshot" where
  "bc_snapshot c = \<lparr>cs_metadata = ps_snapshot (bc_metadata c), cs_data = ps_snapshot (bc_data c)\<rparr>"

record read_stats =
  rs_point_reads :: u64
  rs_bloom_checks :: u64
  rs_bloom_useful_negatives :: u64
  rs_level_table_probes :: "u64 list"

definition rs_default :: read_stats where
  "rs_default = \<lparr>rs_point_reads = 0, rs_bloom_checks = 0, rs_bloom_useful_negatives = 0,
    rs_level_table_probes = replicate NUM_LEVELS 0\<rparr>"

definition record_point_read :: "read_stats \<Rightarrow> read_stats" where
  "record_point_read s = s\<lparr>rs_point_reads := saturating_add_u64 (rs_point_reads s) 1\<rparr>"

definition record_bloom_check :: "bool \<Rightarrow> read_stats \<Rightarrow> read_stats" where
  "record_bloom_check useful_negative s =
    (let s = s\<lparr>rs_bloom_checks := saturating_add_u64 (rs_bloom_checks s) 1\<rparr> in
     if useful_negative then s\<lparr>rs_bloom_useful_negatives := saturating_add_u64 (rs_bloom_useful_negatives s) 1\<rparr>
     else s)"

definition record_table_probe :: "usize \<Rightarrow> read_stats \<Rightarrow> read_stats result" where
  "record_table_probe level s =
    (if level < length (rs_level_table_probes s)
     then Ok (s\<lparr>rs_level_table_probes := (rs_level_table_probes s)
       [level := saturating_add_u64 (rs_level_table_probes s ! level) 1]\<rparr>)
     else Err Panic)"

record stats_snapshot =
  ss_point_reads :: u64
  ss_sstable_probes :: u64
  ss_bloom_checks :: u64
  ss_bloom_useful_negatives :: u64
  ss_cache :: cache_snapshot
  ss_level_table_probes :: "u64 list"

definition rs_snapshot :: "block_cache \<Rightarrow> read_stats \<Rightarrow> stats_snapshot" where
  "rs_snapshot cache s = \<lparr>ss_point_reads = rs_point_reads s,
    ss_sstable_probes = foldl saturating_add_u64 0 (rs_level_table_probes s),
    ss_bloom_checks = rs_bloom_checks s, ss_bloom_useful_negatives = rs_bloom_useful_negatives s,
    ss_cache = bc_snapshot cache, ss_level_table_probes = rs_level_table_probes s\<rparr>"

section \<open>The counters\<close>

lemma unat_saturating_add: "unat (saturating_add_u64 a b) = min (unat a + unat b) (2 ^ 64 - 1)"
proof (cases "unat a + unat b < 2 ^ 64")
  case True
  then have "unat (a + b) = unat a + unat b" by (simp add: unat_word_ariths)
  with True show ?thesis by (simp add: saturating_add_u64_def min_def)
next
  case False
  then show ?thesis by (simp add: saturating_add_u64_def min_def)
qed

lemma saturating_sum:
  "unat (foldl saturating_add_u64 n ws) = min (unat n + sum_list (map unat ws)) (2 ^ 64 - 1)"
proof (induction ws arbitrary: n)
  case Nil
  then show ?case using unat_lt2p [of n] by simp
qed (simp add: unat_saturating_add)

text \<open>What one point read may record: a read, and then filter checks and table probes.\<close>

datatype stat_event = PointRead | BloomCheck bool | TableProbe usize

fun record_event :: "stat_event \<Rightarrow> read_stats \<Rightarrow> read_stats result" where
  "record_event PointRead s = Ok (record_point_read s)"
| "record_event (BloomCheck n) s = Ok (record_bloom_check n s)"
| "record_event (TableProbe level) s = record_table_probe level s"

fun record_events :: "stat_event list \<Rightarrow> read_stats \<Rightarrow> read_stats result" where
  "record_events [] s = Ok s"
| "record_events (e # es) s = rbind (record_event e s) (record_events es)"

lemma saturating_add_count: "unat (saturating_add_u64 a 1) = min (unat a + 1) (2 ^ 64 - 1)"
  using unat_saturating_add [of a 1] by simp

abbreviation sat64 :: "nat \<Rightarrow> nat" where
  "sat64 n \<equiv> min n (2 ^ 64 - 1)"

definition count_events :: "(stat_event \<Rightarrow> bool) \<Rightarrow> stat_event list \<Rightarrow> nat" where
  "count_events P es = length (filter P es)"

lemma count_events_simps [simp]:
  "count_events P [] = 0" "count_events P (e # es) = (if P e then 1 else 0) + count_events P es"
  by (simp_all add: count_events_def)

definition is_bloom :: "stat_event \<Rightarrow> bool" where
  "is_bloom e \<longleftrightarrow> (\<exists>b. e = BloomCheck b)"

definition is_probe :: "stat_event \<Rightarrow> bool" where
  "is_probe e \<longleftrightarrow> (\<exists>l. e = TableProbe l)"

lemma record_events_counts:
  assumes "record_events es s = Ok s'"
  shows "unat (rs_point_reads s') = sat64 (unat (rs_point_reads s) + count_events (\<lambda>e. e = PointRead) es)"
    "unat (rs_bloom_checks s') = sat64 (unat (rs_bloom_checks s) + count_events is_bloom es)"
    "unat (rs_bloom_useful_negatives s') =
      sat64 (unat (rs_bloom_useful_negatives s) + count_events (\<lambda>e. e = BloomCheck True) es)"
    "length (rs_level_table_probes s') = length (rs_level_table_probes s)"
    "\<forall>l < length (rs_level_table_probes s). unat (rs_level_table_probes s' ! l) =
      sat64 (unat (rs_level_table_probes s ! l) + count_events (\<lambda>e. e = TableProbe l) es)"
    "\<forall>l. TableProbe l \<in> set es \<longrightarrow> l < length (rs_level_table_probes s)"
  using assms
proof (induction es arbitrary: s)
  case Nil
  {
    case 1
    then show ?case using unat_lt2p [of "rs_point_reads s"] by simp
  next
    case 2
    then show ?case using unat_lt2p [of "rs_bloom_checks s"] by simp
  next
    case 3
    then show ?case using unat_lt2p [of "rs_bloom_useful_negatives s"] by simp
  next
    case 4
    then show ?case by simp
  next
    case 5
    have "unat w = sat64 (unat (w :: u64))" for w using unat_lt2p [of w] by simp
    with 5 show ?case by simp
  next
    case 6
    then show ?case by simp
  }
next
  case (Cons e es)
  note defs = record_point_read_def record_bloom_check_def record_table_probe_def Let_def saturating_add_count
    is_bloom_def result_iffs
  {
    case 1
    then show ?case using Cons.IH(1) by (cases e) (auto simp: defs split: if_splits)
  next
    case 2
    then show ?case using Cons.IH(2) by (cases e) (auto simp: defs split: if_splits)
  next
    case 3
    then show ?case using Cons.IH(3) by (cases e) (auto simp: defs split: if_splits)
  next
    case 4
    then show ?case using Cons.IH(4) by (cases e) (auto simp: defs split: if_splits)
  next
    case 5
    then show ?case using Cons.IH(5) by (cases e) (auto simp: defs nth_list_update split: if_splits)
  next
    case 6
    then show ?case by (cases e) (auto simp: defs split: if_splits dest!: Cons.IH(6))
  }
qed

lemma sat64_sum: "sat64 (\<Sum>l \<leftarrow> ls. sat64 (f l)) = sat64 (\<Sum>l \<leftarrow> ls. f l)"
  by (induction ls) (auto simp: min_def split: if_splits)

lemma count_probes:
  assumes "\<forall>l. TableProbe l \<in> set es \<longrightarrow> l < n"
  shows "(\<Sum>l \<leftarrow> [0..<n]. count_events (\<lambda>e. e = TableProbe l) es) = count_events is_probe es"
  using assms
proof (induction es)
  case (Cons e es)
  have "(\<Sum>l \<leftarrow> [0..<n]. (if e = TableProbe l then 1 else 0)) = (if is_probe e then 1 else (0 :: nat))"
  proof (cases e)
    case (TableProbe l)
    with Cons.prems have "l < n" by auto
    with TableProbe show ?thesis by (simp add: is_probe_def interv_sum_list_conv_sum_set_nat)
  qed (simp_all add: is_probe_def)
  with Cons show ?case by (simp add: sum_list_addf)
qed simp



end
