(* ===== verification/Sst_Reader.thy ===== *)
theory Sst_Reader
  imports Sst_Builder Read_Stats
begin

text \<open>
  The SSTable reader (\<open>sstable/reader.rs\<close>): opening a table with its checks, point lookups
  through the filter, the index and one data block, iteration and inspection.  An open handle is
  the contents of the file at the time of opening, because tables are immutable.  The block cache
  and the statistics are shared by all readers and threaded through the operations.
\<close>

section \<open>Definitions\<close>

definition DEFAULT_MAX_UNCOMPRESSED_DATA_BLOCK_BYTES :: usize where
  "DEFAULT_MAX_UNCOMPRESSED_DATA_BLOCK_BYTES = 64 * 1024 * 1024"

definition DEFAULT_MAX_METADATA_BYTES :: usize where
  "DEFAULT_MAX_METADATA_BYTES = 64 * 1024 * 1024"

record table_reader_options =
  tro_max_uncompressed_data_block_bytes :: usize
  tro_max_metadata_bytes :: usize

definition tro_default :: table_reader_options where
  "tro_default = \<lparr>tro_max_uncompressed_data_block_bytes = DEFAULT_MAX_UNCOMPRESSED_DATA_BLOCK_BYTES,
    tro_max_metadata_bytes = DEFAULT_MAX_METADATA_BYTES\<rparr>"

text \<open>The shared state behind \<open>Arc<BlockCache>\<close> and \<open>Arc<ReadStats>\<close>.\<close>

record read_ctx =
  rc_cache :: block_cache
  rc_stats :: read_stats

text \<open>
  \<open>tr_cache\<close> and \<open>tr_stats\<close> say whether the reader was opened with a cache and with
  statistics.
\<close>

record table_reader =
  tr_path :: path
  tr_file :: bytes
  tr_file_size :: u64
  tr_data_end :: u64
  tr_index :: "(bytes \<times> block_handle) list"
  tr_filter :: bloom_filter
  tr_properties :: table_properties
  tr_max_uncompressed_data_block_bytes :: usize
  tr_file_number :: "u64 option"
  tr_cache :: bool
  tr_stats :: bool
  tr_user_key_filter :: bool

datatype table_lookup = BloomNegative | Absent | Found internal_key bytes

type_synonym 'a rd = "read_ctx \<Rightarrow> 'a result \<times> read_ctx"

definition rd_return :: "'a result \<Rightarrow> 'a rd" where
  "rd_return r rc = (r, rc)"

definition rd_bind :: "'a rd \<Rightarrow> ('a \<Rightarrow> 'b rd) \<Rightarrow> 'b rd" where
  "rd_bind m f rc = (case m rc of (Inl e, rc) \<Rightarrow> (Err e, rc) | (Inr x, rc) \<Rightarrow> f x rc)"

text \<open>Lookup and admission when there are both a cache and a file number.\<close>

definition rd_cache_get :: "bool \<Rightarrow> u64 option \<Rightarrow> u64 \<Rightarrow> block_kind \<Rightarrow> bytes option rd" where
  "rd_cache_get cached file_number offset kind rc =
    (case (cached, file_number) of
       (True, Some number) \<Rightarrow>
         (let (found, cache) = bc_get number offset kind (rc_cache rc) in (Ok found, rc\<lparr>rc_cache := cache\<rparr>))
     | _ \<Rightarrow> (Ok None, rc))"

definition rd_cache_insert :: "bool \<Rightarrow> u64 option \<Rightarrow> u64 \<Rightarrow> block_kind \<Rightarrow> bytes \<Rightarrow> unit rd" where
  "rd_cache_insert cached file_number offset kind payload rc =
    (case (cached, file_number) of
       (True, Some number) \<Rightarrow>
         (let (admitted, cache) = bc_insert number offset kind payload (rc_cache rc)
          in (rbind admitted (\<lambda>_. Ok ()), rc\<lparr>rc_cache := cache\<rparr>))
     | _ \<Rightarrow> (Ok (), rc))"

definition rd_fill :: "bool \<Rightarrow> bool \<Rightarrow> u64 option \<Rightarrow> u64 \<Rightarrow> block_kind \<Rightarrow> bytes \<Rightarrow> unit rd" where
  "rd_fill miss cached file_number offset kind payload =
    (if miss then rd_cache_insert cached file_number offset kind payload else rd_return (Ok ()))"

definition rd_bloom_check :: "bool \<Rightarrow> bool \<Rightarrow> unit rd" where
  "rd_bloom_check with_stats useful_negative rc =
    (Ok (), if with_stats then rc\<lparr>rc_stats := record_bloom_check useful_negative (rc_stats rc)\<rparr> else rc)"

definition validate_handle :: "block_handle \<Rightarrow> u64 \<Rightarrow> unit result" where
  "validate_handle h limit =
    (if bh_size h = 0 then Err (Corruption FooterCtx)
     else rbind (ok_or (checked_add_u64 (bh_offset h) (bh_size h)) (Corruption FooterCtx)) (\<lambda>e.
       if e > limit then Err (Corruption FooterCtx) else Ok ()))"

definition checked_handle_end :: "block_handle \<Rightarrow> u64 result" where
  "checked_handle_end h = ok_or (checked_add_u64 (bh_offset h) (bh_size h)) (Corruption FooterCtx)"

definition decode_fixed_handle :: "bytes \<Rightarrow> usize \<Rightarrow> u64 \<Rightarrow> block_handle result" where
  "decode_fixed_handle encoded start limit =
    rbind (ok_or (checked_add_usize start 20) (Corruption FooterCtx)) (\<lambda>e.
    rbind (ok_or (slice_get encoded start e) (Corruption FooterCtx)) (\<lambda>bs.
    rbind (map_err (\<lambda>_. Corruption FooterCtx) (bh_decode bs)) (\<lambda>(h, consumed).
    if \<exists>b \<in> set (drop consumed bs). b \<noteq> 0 then Err (Corruption FooterCtx)
    else rbind (validate_handle h limit) (\<lambda>_. Ok h))))"

definition validate_metadata_handles :: "block_handle \<Rightarrow> block_handle \<Rightarrow> block_handle \<Rightarrow> u64 \<Rightarrow> unit result" where
  "validate_metadata_handles index filter_handle properties footer_start =
    rbind (checked_handle_end filter_handle) (\<lambda>filter_end.
    rbind (checked_handle_end index) (\<lambda>index_end.
    rbind (checked_handle_end properties) (\<lambda>properties_end.
    if filter_end \<noteq> bh_offset index \<or> index_end \<noteq> bh_offset properties \<or> properties_end \<noteq> footer_start
    then Err (Corruption FooterCtx) else Ok ())))"

fun total_handle_bytes :: "u64 \<Rightarrow> block_handle list \<Rightarrow> u64 result" where
  "total_handle_bytes n [] = Ok n"
| "total_handle_bytes n (h # hs) =
    rbind (ok_or (checked_add_u64 n (bh_size h)) (Corruption FooterCtx)) (\<lambda>n. total_handle_bytes n hs)"

definition validate_metadata_allocation_limit ::
  "block_handle \<Rightarrow> block_handle \<Rightarrow> block_handle \<Rightarrow> usize \<Rightarrow> unit result" where
  "validate_metadata_allocation_limit index filter_handle properties maximum =
    rbind (ok_or (u64_try_from maximum) InvalidArgument) (\<lambda>maximum.
    rbind (total_handle_bytes 0 [index, filter_handle, properties]) (\<lambda>n.
    if n > maximum then Err (Corruption FooterCtx) else Ok ()))"

text \<open>\<open>seek\<close> to the offset and \<open>read_exact\<close>: a short file is an end-of-file error.\<close>

definition read_exact_range :: "path \<Rightarrow> bytes \<Rightarrow> block_handle \<Rightarrow> bytes result" where
  "read_exact_range path contents h =
    rbind (ok_or (usize_try_from (bh_size h)) (Corruption FooterCtx)) (\<lambda>len.
    let encoded = take len (drop (unat (bh_offset h)) contents) in
    if length encoded = len then Ok encoded else Err (Io ''read SSTable block'' path UnexpectedEof))"

definition read_metadata_block :: "crc_lib \<Rightarrow> path \<Rightarrow> bytes \<Rightarrow> block_handle \<Rightarrow> bytes result" where
  "read_metadata_block lib path contents h =
    rbind (read_exact_range path contents h) (\<lambda>encoded.
    rbind (decode_stored_block lib encoded) (\<lambda>(payload, marker).
    if marker \<noteq> NO_COMPRESSION then Err (Corruption FooterCtx) else Ok payload))"

definition read_cached_metadata ::
  "crc_lib \<Rightarrow> path \<Rightarrow> bytes \<Rightarrow> u64 option \<Rightarrow> bool \<Rightarrow> block_handle \<Rightarrow> block_kind \<Rightarrow> (bytes \<times> bool) rd" where
  "read_cached_metadata lib path contents file_number cached h kind =
    rd_bind (rd_cache_get cached file_number (bh_offset h) kind) (\<lambda>found.
    case found of
      Some payload \<Rightarrow> rd_return (Ok (payload, False))
    | None \<Rightarrow> rd_return (rbind (read_metadata_block lib path contents h) (\<lambda>payload. Ok (payload, True))))"

definition read_property_varint :: "bytes \<Rightarrow> usize \<Rightarrow> (u64 \<times> usize) result" where
  "read_property_varint encoded cursor =
    rbind (ok_or (read_varint encoded cursor) (Corruption PropertiesCtx)) (\<lambda>(v, consumed).
    rbind (ok_or (checked_add_usize cursor consumed) (Corruption PropertiesCtx)) (\<lambda>cursor.
    Ok (v, cursor)))"

definition read_property_key :: "bytes \<Rightarrow> usize \<Rightarrow> (internal_key \<times> usize) result" where
  "read_property_key encoded cursor =
    rbind (read_property_varint encoded cursor) (\<lambda>(len, cursor).
    rbind (ok_or (usize_try_from len) (Corruption PropertiesCtx)) (\<lambda>len.
    rbind (ok_or (checked_add_usize cursor len) (Corruption PropertiesCtx)) (\<lambda>e.
    rbind (ok_or (slice_get encoded cursor e) (Corruption PropertiesCtx)) (\<lambda>bs.
    rbind (map_err (\<lambda>_. Corruption PropertiesCtx) (ik_decode bs)) (\<lambda>k. Ok (k, e))))))"

definition decode_compression :: "bytes \<Rightarrow> usize \<Rightarrow> compression result" where
  "decode_compression encoded cursor =
    (if cursor \<ge> length encoded then Err (Corruption PropertiesCtx)
     else if encoded ! cursor = NO_COMPRESSION then Ok NoCompression
     else if encoded ! cursor = SNAPPY_COMPRESSION then Ok Snappy
     else Err (Corruption PropertiesCtx))"

definition decode_properties :: "bytes \<Rightarrow> table_properties result" where
  "decode_properties encoded =
    rbind (read_property_varint encoded 0) (\<lambda>(file_number, cursor).
    rbind (read_property_varint encoded cursor) (\<lambda>(entries, cursor).
    rbind (read_property_varint encoded cursor) (\<lambda>(data_blocks, cursor).
    rbind (decode_compression encoded cursor) (\<lambda>compression.
    rbind (ok_or (checked_add_usize cursor 1) (Corruption PropertiesCtx)) (\<lambda>cursor.
    rbind (read_property_varint encoded cursor) (\<lambda>(max_data_block_bytes, cursor).
    rbind (read_property_key encoded cursor) (\<lambda>(smallest, cursor).
    rbind (read_property_key encoded cursor) (\<lambda>(largest, cursor).
    rbind (ok_or (slice_get encoded cursor (length encoded)) (Corruption PropertiesCtx)) (\<lambda>remaining.
    rbind (if remaining = [] then Ok False else if remaining = [0xe1, 1] then Ok True
           else Err (Corruption PropertiesCtx)) (\<lambda>engine_value_encoding.
    if ik_less largest smallest then Err (Corruption PropertiesCtx)
    else if entries = 0 \<or> data_blocks = 0 \<or> max_data_block_bytes = 0 then Err (Corruption PropertiesCtx)
    else Ok \<lparr>tp_file_number = file_number, tp_entries = entries, tp_data_blocks = data_blocks,
      tp_compression = compression, tp_smallest = smallest, tp_largest = largest,
      tp_max_data_block_bytes = max_data_block_bytes,
      tp_engine_value_encoding = engine_value_encoding\<rparr>))))))))))"

text \<open>The loop over the entries of the index block.\<close>

fun decode_index ::
  "block_handle \<Rightarrow> u64 \<Rightarrow> (bytes \<times> bytes) result list \<Rightarrow> (bytes \<times> block_handle) list \<Rightarrow>
    ((bytes \<times> block_handle) list \<times> u64) result" where
  "decode_index filter_handle previous_end [] index = Ok (index, previous_end)"
| "decode_index filter_handle previous_end (entry # entries) index =
    rbind entry (\<lambda>(separator, encoded_handle).
    rbind (bh_decode encoded_handle) (\<lambda>(h, consumed).
    if consumed \<noteq> length encoded_handle then Err (Corruption IndexCtx)
    else
      rbind (validate_handle h (bh_offset filter_handle)) (\<lambda>_.
      if bh_offset h \<noteq> previous_end then Err (Corruption IndexCtx)
      else
        rbind (ok_or (checked_add_u64 (bh_offset h) (bh_size h)) (Corruption IndexCtx)) (\<lambda>previous_end.
        decode_index filter_handle previous_end entries (index @ [(separator, h)])))))"

record table_footer =
  tf_version :: u32
  tf_index :: block_handle
  tf_filter :: block_handle
  tf_properties :: block_handle

text \<open>The footer: its place, magic, version and three handles.\<close>

definition read_footer :: "path \<Rightarrow> bytes \<Rightarrow> usize \<Rightarrow> table_footer result" where
  "read_footer path contents max_metadata_bytes =
    (if length contents < SSTABLE_FOOTER_BYTES then Err (Corruption FooterCtx)
     else
       let footer_start = length contents - SSTABLE_FOOTER_BYTES;
           footer = take SSTABLE_FOOTER_BYTES (drop footer_start contents);
           limit = word_of_nat footer_start
       in
       if drop (SSTABLE_FOOTER_BYTES - length SSTABLE_MAGIC) footer \<noteq> SSTABLE_MAGIC then Err (Corruption FooterCtx)
       else
         let version_start = SSTABLE_FOOTER_BYTES - length SSTABLE_MAGIC - 4;
             version = u32_from_le (take 4 (drop version_start footer))
         in
         if version \<noteq> 1 \<and> version \<noteq> SSTABLE_FORMAT_VERSION then Err (UnsupportedFormat SstableFormat version)
         else
           rbind (decode_fixed_handle footer 0 limit) (\<lambda>index_handle.
           rbind (decode_fixed_handle footer 20 limit) (\<lambda>filter_handle.
           rbind (decode_fixed_handle footer 40 limit) (\<lambda>properties_handle.
           rbind (validate_metadata_handles index_handle filter_handle properties_handle limit) (\<lambda>_.
           rbind (validate_metadata_allocation_limit index_handle filter_handle properties_handle max_metadata_bytes) (\<lambda>_.
           Ok \<lparr>tf_version = version, tf_index = index_handle, tf_filter = filter_handle,
             tf_properties = properties_handle\<rparr>))))))"

text \<open>Everything \<open>open_internal\<close> does with the open handle.\<close>

definition open_handle ::
  "crc_lib \<Rightarrow> path \<Rightarrow> bytes \<Rightarrow> table_reader_options \<Rightarrow> u64 option \<Rightarrow> bool \<Rightarrow> bool \<Rightarrow> table_reader rd" where
  "open_handle lib path contents options file_number cached with_stats =
    rd_bind (rd_return (read_footer path contents (tro_max_metadata_bytes options))) (\<lambda>footer.
    let filter_handle = tf_filter footer; index_handle = tf_index footer in
    rd_bind (read_cached_metadata lib path contents file_number cached index_handle IndexBlock) (\<lambda>(index_payload, index_miss).
    rd_bind (read_cached_metadata lib path contents file_number cached filter_handle FilterBlock) (\<lambda>(filter_payload, filter_miss).
    rd_bind (rd_return (read_metadata_block lib path contents (tf_properties footer))) (\<lambda>properties_payload.
    rd_bind (rd_return (block_decode index_payload)) (\<lambda>index_block.
    rd_bind (rd_return (decode_index filter_handle 0 (block_items index_block) [])) (\<lambda>(index, previous_end).
    if index = [] then rd_return (Err (Corruption IndexCtx))
    else if previous_end \<noteq> bh_offset filter_handle then rd_return (Err (Corruption IndexCtx))
    else
      rd_bind (rd_return (bf_decode filter_payload)) (\<lambda>bloom.
      rd_bind (rd_return (decode_properties properties_payload)) (\<lambda>properties.
      if (case file_number of Some expected \<Rightarrow> tp_file_number properties \<noteq> expected | None \<Rightarrow> False)
      then rd_return (Err (Corruption PropertiesCtx))
      else
        rd_bind (rd_fill index_miss cached file_number (bh_offset index_handle) IndexBlock index_payload) (\<lambda>_.
        rd_bind (rd_fill filter_miss cached file_number (bh_offset filter_handle) FilterBlock filter_payload) (\<lambda>_.
        rd_bind (rd_return (ok_or (u64_try_from (tro_max_uncompressed_data_block_bytes options)) InvalidArgument)) (\<lambda>trusted_maximum.
        if tp_max_data_block_bytes properties > trusted_maximum then rd_return (Err (Corruption PropertiesCtx))
        else
          rd_bind (rd_return (ok_or (u64_try_from (length index)) (Corruption IndexCtx))) (\<lambda>index_len.
          if tp_data_blocks properties \<noteq> index_len then rd_return (Err (Corruption PropertiesCtx))
          else rd_return (Ok \<lparr>tr_path = path, tr_file = contents, tr_file_size = word_of_nat (length contents),
            tr_data_end = bh_offset filter_handle, tr_index = index, tr_filter = bloom, tr_properties = properties,
            tr_max_uncompressed_data_block_bytes = tro_max_uncompressed_data_block_bytes options,
            tr_file_number = file_number, tr_cache = cached, tr_stats = with_stats,
            tr_user_key_filter = (tf_version footer \<ge> 2)\<rparr>)))))))))))))"

definition tr_open_internal ::
  "crc_lib \<Rightarrow> path \<Rightarrow> table_reader_options \<Rightarrow> u64 option \<Rightarrow> bool \<Rightarrow> bool \<Rightarrow> fs \<Rightarrow> read_ctx \<Rightarrow>
    table_reader result \<times> fs \<times> read_ctx" where
  "tr_open_internal lib path options file_number cached with_stats fs rc =
    (if tro_max_uncompressed_data_block_bytes options = 0 then (Err InvalidArgument, fs, rc)
     else if tro_max_metadata_bytes options = 0 then (Err InvalidArgument, fs, rc)
     else case fs_open_read path fs of
       (Inl k, fs) \<Rightarrow> (Err (Io ''open SSTable'' path k), fs, rc)
     | (Inr contents, fs) \<Rightarrow>
         (let (r, rc) = open_handle lib path contents options file_number cached with_stats rc in (r, fs, rc)))"

definition tr_open_with_fs ::
  "crc_lib \<Rightarrow> path \<Rightarrow> table_reader_options \<Rightarrow> fs \<Rightarrow> read_ctx \<Rightarrow> table_reader result \<times> fs \<times> read_ctx" where
  "tr_open_with_fs lib path options = tr_open_internal lib path options None False False"

definition tr_open_cached ::
  "crc_lib \<Rightarrow> path \<Rightarrow> u64 \<Rightarrow> table_reader_options \<Rightarrow> fs \<Rightarrow> read_ctx \<Rightarrow> table_reader result \<times> fs \<times> read_ctx" where
  "tr_open_cached lib path file_number options = tr_open_internal lib path options (Some file_number) True True"

definition maximum_stored_data_block_bytes :: "usize \<Rightarrow> u64 result" where
  "maximum_stored_data_block_bytes uncompressed_limit =
    rbind (ok_or (Option.bind (checked_add_usize uncompressed_limit 32) (\<lambda>n.
      Option.bind (checked_add_usize n (uncompressed_limit div 6)) (\<lambda>n.
      checked_add_usize n BLOCK_TRAILER_BYTES))) InvalidArgument) (\<lambda>maximum.
    ok_or (u64_try_from maximum) InvalidArgument)"

text \<open>The check and decompression of a stored payload.\<close>

definition decode_data_payload :: "snap_lib \<Rightarrow> table_reader \<Rightarrow> bytes \<Rightarrow> u8 \<Rightarrow> bytes result" where
  "decode_data_payload snap tr payload marker =
    (if marker \<noteq> compression_marker (tp_compression (tr_properties tr)) then Err (Corruption DataBlockCtx)
     else if marker = NO_COMPRESSION then
       (if length payload > tr_max_uncompressed_data_block_bytes tr then Err (Corruption DataBlockCtx) else Ok payload)
     else if marker = SNAPPY_COMPRESSION then
       rbind (ok_or (snap_decompress_len snap payload) (Corruption DataBlockCtx)) (\<lambda>expected.
       rbind (ok_or (usize_try_from (tp_max_data_block_bytes (tr_properties tr))) (Corruption DataBlockCtx)) (\<lambda>property_maximum.
       if expected > tr_max_uncompressed_data_block_bytes tr then Err (Corruption DataBlockCtx)
       else if expected > property_maximum then Err (Corruption DataBlockCtx)
       else ok_or (snap_decompress snap payload) (Corruption DataBlockCtx)))
     else Err Panic)"

definition tr_read_data_block :: "crc_lib \<Rightarrow> snap_lib \<Rightarrow> table_reader \<Rightarrow> block_handle \<Rightarrow> block rd" where
  "tr_read_data_block lib snap tr h =
    rd_bind (rd_return (validate_handle h (tr_data_end tr))) (\<lambda>_.
    rd_bind (rd_cache_get (tr_cache tr) (tr_file_number tr) (bh_offset h) DataBlock) (\<lambda>found.
    case found of
      Some payload \<Rightarrow> rd_return (block_decode payload)
    | None \<Rightarrow>
        rd_bind (rd_return (maximum_stored_data_block_bytes (tr_max_uncompressed_data_block_bytes tr))) (\<lambda>maximum_stored.
        if bh_size h > maximum_stored then rd_return (Err (Corruption DataBlockCtx))
        else
          rd_bind (rd_return (read_exact_range (tr_path tr) (tr_file tr) h)) (\<lambda>encoded.
          rd_bind (rd_return (decode_stored_block lib encoded)) (\<lambda>(payload, marker).
          rd_bind (rd_return (decode_data_payload snap tr payload marker)) (\<lambda>decoded.
          rd_bind (rd_return (block_decode decoded)) (\<lambda>block.
          rd_bind (rd_cache_insert (tr_cache tr) (tr_file_number tr) (bh_offset h) DataBlock decoded) (\<lambda>_.
          rd_return (Ok block)))))))))"

definition tr_may_contain :: "table_reader \<Rightarrow> internal_key \<Rightarrow> bool" where
  "tr_may_contain tr key =
    (if tr_user_key_filter tr then bf_may_contain (tr_filter tr) (ik_user_key key)
     else bf_may_contain (tr_filter tr) (ik_encoded key))"

definition tr_get :: "crc_lib \<Rightarrow> snap_lib \<Rightarrow> table_reader \<Rightarrow> internal_key \<Rightarrow> bytes option rd" where
  "tr_get lib snap tr key =
    (if \<not> tr_may_contain tr key then rd_return (Ok None)
     else case find (\<lambda>(separator, h). separator \<ge> ik_encoded key) (tr_index tr) of
       None \<Rightarrow> rd_return (Ok None)
     | Some (separator, h) \<Rightarrow>
         rd_bind (tr_read_data_block lib snap tr h) (\<lambda>block.
         rd_return (rbind (block_seek block (ik_encoded key)) (\<lambda>found.
           case found of
             Some (k, v) \<Rightarrow> if k = ik_encoded key then Ok (Some v) else Ok None
           | None \<Rightarrow> Ok None))))"

definition tr_get_visible ::
  "crc_lib \<Rightarrow> snap_lib \<Rightarrow> table_reader \<Rightarrow> bytes \<Rightarrow> sequence_number \<Rightarrow> table_lookup rd" where
  "tr_get_visible lib snap tr user_key sequence =
    rd_bind (if tr_user_key_filter tr then
               (let may_contain = bf_may_contain (tr_filter tr) user_key in
                rd_bind (rd_bloom_check (tr_stats tr) (\<not> may_contain)) (\<lambda>_. rd_return (Ok may_contain)))
             else rd_return (Ok True)) (\<lambda>go.
    if \<not> go then rd_return (Ok BloomNegative)
    else
      rd_bind (rd_return (ik_deletion user_key sequence)) (\<lambda>seek.
      case find (\<lambda>(separator, h). separator \<ge> ik_encoded seek) (tr_index tr) of
        None \<Rightarrow> rd_return (Ok Absent)
      | Some (separator, h) \<Rightarrow>
          rd_bind (tr_read_data_block lib snap tr h) (\<lambda>block.
          rd_bind (rd_return (block_seek block (ik_encoded seek))) (\<lambda>found.
          case found of
            None \<Rightarrow> rd_return (Ok Absent)
          | Some (k, v) \<Rightarrow>
              rd_bind (rd_return (ik_decode k)) (\<lambda>found.
              if ik_user_key found \<noteq> user_key \<or> ik_sequence found > sequence then rd_return (Ok Absent)
              else rd_return (Ok (Found found v)))))))"

section \<open>Iteration\<close>

record table_iter =
  ti_block_index :: usize
  ti_entries :: "(bytes \<times> bytes) list"
  ti_failed :: bool

definition ti_new :: table_iter where
  "ti_new = \<lparr>ti_block_index = 0, ti_entries = [], ti_failed = False\<rparr>"

text \<open>\<open>collect\<close> into a \<open>Result<Vec<_>>\<close>: the first error wins.\<close>

fun collect_results :: "'a result list \<Rightarrow> 'a list result" where
  "collect_results [] = Ok []"
| "collect_results (x # xs) = rbind x (\<lambda>x. rbind (collect_results xs) (\<lambda>xs. Ok (x # xs)))"

function next_table_entry ::
  "crc_lib \<Rightarrow> snap_lib \<Rightarrow> table_reader \<Rightarrow> table_iter \<Rightarrow> read_ctx \<Rightarrow>
    (internal_key \<times> bytes) result option \<times> table_iter \<times> read_ctx" where
  "next_table_entry lib snap tr it rc =
    (if ti_failed it then (None, it, rc)
     else case ti_entries it of
       (k, v) # rest \<Rightarrow>
         (let it = it\<lparr>ti_entries := rest\<rparr> in
          case ik_decode k of
            Inr key \<Rightarrow> (Some (Ok (key, v)), it, rc)
          | Inl e \<Rightarrow> (Some (Err e), it\<lparr>ti_failed := True\<rparr>, rc))
     | [] \<Rightarrow>
         (if ti_block_index it < length (tr_index tr) then
            let h = snd (tr_index tr ! ti_block_index it);
                it = it\<lparr>ti_block_index := ti_block_index it + 1\<rparr>
            in case tr_read_data_block lib snap tr h rc of
                 (Inl e, rc) \<Rightarrow> (Some (Err e), it\<lparr>ti_failed := True\<rparr>, rc)
               | (Inr block, rc) \<Rightarrow>
                   (case collect_results (block_items block) of
                      Inl e \<Rightarrow> (Some (Err e), it\<lparr>ti_failed := True\<rparr>, rc)
                    | Inr block_entries \<Rightarrow>
                        next_table_entry lib snap tr (it\<lparr>ti_entries := block_entries\<rparr>) rc)
          else (None, it, rc)))"
  by pat_completeness auto

termination
  by (relation "measure (\<lambda>(lib, snap, tr, it, rc).
      (if ti_entries it = [] then 1 else 0) + 2 * (length (tr_index tr) - ti_block_index it))") auto

declare next_table_entry.simps [simp del]

section \<open>Reading what was built\<close>

lemma rd_simps [simp]:
  "rd_return r rc = (r, rc)" "rd_bind (rd_return (Inr x)) f rc = f x rc"
  "rd_bind (rd_return (Inl e)) f rc = (Inl e, rc)"
  by (simp_all add: rd_return_def rd_bind_def)

lemma rd_bind_Ok: "m rc = (Inr x, rc') \<Longrightarrow> rd_bind m f rc = f x rc'"
  by (simp add: rd_bind_def)

text \<open>What the cache may hold for the blocks of the tables in use.\<close>

definition cached_ok :: "(u64 \<Rightarrow> table_layout option) \<Rightarrow> cache_key \<Rightarrow> bytes \<Rightarrow> bool" where
  "cached_ok tables key p \<longleftrightarrow> p \<noteq> [] \<and>
    (case key of (n, off, kind) \<Rightarrow> \<forall>L. tables n = Some L \<longrightarrow>
      (case kind of
         DataBlock \<Rightarrow> \<forall>(m, kvs) \<in> set (zip (tl_metas L) (tl_blocks L)).
           bh_offset (dbm_handle m) = off \<longrightarrow> block_holds p kvs
       | IndexBlock \<Rightarrow> off = bh_offset (tl_index L) \<longrightarrow> block_holds p (index_kvs (tl_metas L))
       | FilterBlock \<Rightarrow> off = bh_offset (tl_filter L) \<longrightarrow> p = bf_encoded (tl_bloom L)))"

lemma block_holds_nonempty: "block_holds p kvs \<Longrightarrow> p \<noteq> []"
  by (auto simp: block_holds_def block_decode_def FIXED_RESTART_BYTES_def)

definition ctx_ok :: "(u64 \<Rightarrow> table_layout option) \<Rightarrow> read_ctx \<Rightarrow> bool" where
  "ctx_ok tables rc \<longleftrightarrow> bc_coherent (cached_ok tables) (rc_cache rc)"

lemma cached_ok_nonempty: "cached_ok tables k v \<longrightarrow> v \<noteq> []"
  by (simp add: cached_ok_def)

lemma rd_cache_hit_or_fill:
  assumes "ctx_ok tables rc"
  obtains (Hit) v rc' n where "rd_cache_get cached num off kind rc = (Ok (Some v), rc')" "cached" "num = Some n"
      "cached_ok tables (n, off, kind) v" "ctx_ok tables rc'" "rc_stats rc' = rc_stats rc"
  | (Miss) rc' where "rd_cache_get cached num off kind rc = (Ok None, rc')" "ctx_ok tables rc'" "rc_stats rc' = rc_stats rc"
proof (cases "cached \<and> (\<exists>n. num = Some n)")
  case True
  then obtain n where n: "cached" "num = Some n" by blast
  from block_store.hit_or_fill [OF assms [unfolded ctx_ok_def], of "(n, off, kind)"] show ?thesis
    by cases (use n Hit [of _ _ n] Miss in \<open>auto simp: rd_cache_get_def ctx_ok_def\<close>)
next
  case False
  then have "rd_cache_get cached num off kind rc = (Ok None, rc)"
    by (auto simp: rd_cache_get_def split: option.splits bool.splits)
  with assms Miss show ?thesis by blast
qed

lemma rd_cache_insert_ok:
  assumes "ctx_ok tables rc" "\<And>n. cached \<Longrightarrow> num = Some n \<Longrightarrow> cached_ok tables (n, off, kind) v"
  obtains rc' where "rd_cache_insert cached num off kind v rc = (Ok (), rc')" "ctx_ok tables rc'" "rc_stats rc' = rc_stats rc"
proof (cases "cached \<and> (\<exists>n. num = Some n)")
  case True
  then obtain n where n: "cached" "num = Some n" by blast
  obtain r c where ins: "bc_insert n off kind v (rc_cache rc) = (r, c)" by fastforce
  from block_store.insert_law [OF assms(1) [unfolded ctx_ok_def] assms(2) [OF n], of r c] ins n that show ?thesis
    by (auto simp: rd_cache_insert_def ctx_ok_def)
next
  case False
  then have "rd_cache_insert cached num off kind v rc = (Ok (), rc)"
    by (auto simp: rd_cache_insert_def split: option.splits bool.splits)
  with assms(1) that show ?thesis by blast
qed

lemma rd_cache_fill:
  assumes "ctx_ok tables rc" "\<And>n. cached \<Longrightarrow> num = Some n \<Longrightarrow> cached_ok tables (n, off, kind) v"
  obtains rc' where "rd_fill miss cached num off kind v rc = (Ok (), rc')"
    "ctx_ok tables rc'"
proof (cases miss)
  case True
  from rd_cache_insert_ok [OF assms] True that show ?thesis by (auto simp: rd_fill_def)
qed (use assms that in \<open>auto simp: rd_fill_def\<close>)

lemma handle_chain_facts:
  assumes "handle_chain n hs e" "h \<in> set hs"
  shows "bh_size h \<noteq> 0" "unat (bh_offset h) + unat (bh_size h) \<le> e" "n \<le> unat (bh_offset h)"
  using assms
proof (induction hs arbitrary: n)
  case (Cons a hs)
  have le: "n \<le> e" if "handle_chain n hs e" for n hs
    using that by (induction hs arbitrary: n) (auto, fastforce)
  {
    case 1
    then show ?case using Cons by auto
  next
    case 2
    then show ?case using Cons le by auto
  next
    case 3
    then show ?case using Cons by fastforce
  }
qed auto

lemma handle_chain_distinct:
  assumes "handle_chain n hs e" "i < j" "j < length hs"
  shows "unat (bh_offset (hs ! i)) < unat (bh_offset (hs ! j))"
  using assms
proof (induction hs arbitrary: n i j)
  case (Cons a hs)
  then obtain j' where j: "j = Suc j'" by (cases j) auto
  have pos: "0 < unat (bh_size a)" using Cons.prems(1) by (simp add: unat_gt_0)
  show ?case
  proof (cases i)
    case 0
    have "n + unat (bh_size a) \<le> unat (bh_offset (hs ! j'))"
      using Cons.prems j by (intro handle_chain_facts(3)) auto
    with 0 j pos Cons.prems(1) show ?thesis by simp
  next
    case (Suc i')
    with Cons j show ?thesis by auto
  qed
qed simp

lemma read_stored:
  assumes "stored_at lib c h st m"
  shows "\<exists>enc. read_exact_range p c h = Ok enc \<and> decode_stored_block lib enc = Ok (st, m) \<and>
    unat (bh_size h) = length st + 5"
proof -
  let ?enc = "take (unat (bh_size h)) (drop (unat (bh_offset h)) c)"
  have e: "encode_stored_block lib st m = Ok ?enc" "length ?enc = unat (bh_size h)"
    using assms by (auto simp: stored_at_def)
  have "unat (bh_size h) \<le> usize_max" using unat_lt2p [of "bh_size h"] by (simp add: usize_max_def)
  then have "read_exact_range p c h = Ok ?enc"
    using e(2) by (simp add: read_exact_range_def usize_try_from_def)
  with e decode_encode_stored_block [OF e(1)] encode_stored_block_length [OF e(1)] show ?thesis by auto
qed

text \<open>A reader that agrees with the layout of its table, under limits that admit the table.\<close>

definition reader_ok ::
  "crc_lib \<Rightarrow> snap_lib \<Rightarrow> (u64 \<Rightarrow> table_layout option) \<Rightarrow> table_layout \<Rightarrow> table_reader \<Rightarrow> bool" where
  "reader_ok lib snap tables L tr \<longleftrightarrow>
    table_file lib snap (tr_file tr) L \<and> tr_data_end tr = bh_offset (tl_filter L) \<and>
    tr_index tr = zip (map fst (index_kvs (tl_metas L))) (map dbm_handle (tl_metas L)) \<and>
    tr_filter tr = tl_bloom L \<and> tr_properties tr = tl_properties L \<and> tr_user_key_filter tr \<and>
    unat (tp_max_data_block_bytes (tl_properties L)) \<le> tr_max_uncompressed_data_block_bytes tr \<and>
    tr_max_uncompressed_data_block_bytes tr + tr_max_uncompressed_data_block_bytes tr div 6 + 37 \<le> usize_max \<and>
    (\<forall>n. tr_cache tr \<longrightarrow> tr_file_number tr = Some n \<longrightarrow> tables n = Some L)"

lemma validate_handle_Ok:
  assumes "bh_size h \<noteq> 0" "unat (bh_offset h) + unat (bh_size h) \<le> unat limit"
  shows "validate_handle h limit = Ok ()"
proof -
  have lt: "unat (bh_offset h) + unat (bh_size h) < 2 ^ 64" using assms(2) unat_lt2p [of limit] by simp
  then have "unat (bh_offset h + bh_size h) = unat (bh_offset h) + unat (bh_size h)"
    by (simp add: unat_word_ariths)
  with assms lt show ?thesis by (simp add: validate_handle_def checked_add_u64_def word_less_nat_alt)
qed

lemma table_file_metas:
  assumes "table_file lib snap c L"
  shows "length (tl_metas L) = length (tl_blocks L)"
    "(m, kvs) \<in> set (zip (tl_metas L) (tl_blocks L)) \<Longrightarrow>
      meta_ok lib snap (tp_compression (tl_properties L)) (tp_max_data_block_bytes (tl_properties L)) c m kvs"
    "handle_chain 0 (map dbm_handle (tl_metas L)) (unat (bh_offset (tl_filter L)))"
  using assms by (auto simp: table_file_def list_all2_iff handle_chain_append)

lemma table_file_unique:
  assumes "table_file lib snap c L" "(m, kvs) \<in> set (zip (tl_metas L) (tl_blocks L))"
    "(m', kvs') \<in> set (zip (tl_metas L) (tl_blocks L))" "bh_offset (dbm_handle m) = bh_offset (dbm_handle m')"
  shows "kvs = kvs'"
proof -
  note t = table_file_metas [OF assms(1)]
  obtain i j where i: "i < length (tl_metas L)" "m = tl_metas L ! i" "kvs = tl_blocks L ! i"
    and j: "j < length (tl_metas L)" "m' = tl_metas L ! j" "kvs' = tl_blocks L ! j"
    using assms(2,3) t(1) by (auto simp: in_set_zip)
  have "\<not> i < j" "\<not> j < i"
    using handle_chain_distinct [OF t(3), of i j] handle_chain_distinct [OF t(3), of j i] i j assms(4) by auto
  with i j show ?thesis by simp
qed

lemma stored_payload_back:
  assumes "stored_payload snap payload cmp = Ok (st, compression_marker cmp)" "snap_lossless snap"
    and cmp: "cmp = tp_compression (tr_properties tr)" and mx: "length payload \<le> unat (tp_max_data_block_bytes (tr_properties tr))"
    "unat (tp_max_data_block_bytes (tr_properties tr)) \<le> tr_max_uncompressed_data_block_bytes tr"
  shows "decode_data_payload snap tr st (compression_marker cmp) = Ok payload"
    "length st \<le> 32 + length payload + length payload div 6"
proof -
  have "unat (tp_max_data_block_bytes (tr_properties tr)) \<le> usize_max"
    using unat_lt2p [of "tp_max_data_block_bytes (tr_properties tr)"] by (simp add: usize_max_def)
  then have usz: "usize_try_from (tp_max_data_block_bytes (tr_properties tr)) =
      Some (unat (tp_max_data_block_bytes (tr_properties tr)))" by (simp add: usize_try_from_def)
  note mk = compression_marker_def NO_COMPRESSION_def SNAPPY_COMPRESSION_def
  show "decode_data_payload snap tr st (compression_marker cmp) = Ok payload"
    "length st \<le> 32 + length payload + length payload div 6"
  proof (atomize (full), cases cmp)
    case NoCompression
    then have "st = payload" using assms(1) by (simp add: stored_payload_def)
    with NoCompression cmp mx show "decode_data_payload snap tr st (compression_marker cmp) = Ok payload \<and>
      length st \<le> 32 + length payload + length payload div 6"
      by (simp add: decode_data_payload_def mk)
  next
    case Snappy
    then have "snap_compress snap payload = Some st" using assms(1) by (auto simp: stored_payload_def result_iffs)
    then have "snap_decompress snap st = Some payload" "snap_decompress_len snap st = Some (length payload)"
      "length st \<le> 32 + length payload + length payload div 6"
      using assms(2) unfolding snap_lossless_def by blast+
    with Snappy cmp mx usz show "decode_data_payload snap tr st (compression_marker cmp) = Ok payload \<and>
      length st \<le> 32 + length payload + length payload div 6"
      by (simp add: decode_data_payload_def mk)
  qed
qed

lemma maximum_stored_Ok:
  assumes "mx + mx div 6 + 37 \<le> usize_max"
  obtains w where "maximum_stored_data_block_bytes mx = Ok w" "unat w = mx + mx div 6 + 37"
proof -
  let ?n = "mx + mx div 6 + 37"
  have "?n < 2 ^ 64" using assms by (simp add: usize_max_def)
  then have "unat (word_of_nat ?n :: u64) = ?n" by (intro unat_of_nat_eq) simp
  moreover have "maximum_stored_data_block_bytes mx = Ok (word_of_nat ?n)"
    using assms by (simp add: maximum_stored_data_block_bytes_def checked_add_usize_def u64_try_from_def
        BLOCK_TRAILER_BYTES_def usize_max_def add.commute add.left_commute)
  ultimately show ?thesis using that by blast
qed

lemma tr_read_data_block_Ok:
  assumes rd: "reader_ok lib snap tables L tr" and ctx: "ctx_ok tables rc" and loss: "snap_lossless snap"
    and mem: "(m, kvs) \<in> set (zip (tl_metas L) (tl_blocks L))"
  obtains b rc' where "tr_read_data_block lib snap tr (dbm_handle m) rc = (Ok b, rc')" "ctx_ok tables rc'"
    "rc_stats rc' = rc_stats rc" "block_items b = map Ok kvs"
    "\<And>target. block_seek b target = Ok (find (\<lambda>kv. target \<le> fst kv) kvs)"
proof -
  let ?h = "dbm_handle m"
  have tf: "table_file lib snap (tr_file tr) L" using rd by (simp add: reader_ok_def)
  note t = table_file_metas [OF tf]
  have "?h \<in> set (map dbm_handle (tl_metas L))" using mem by (auto dest: set_zip_leftD)
  note hc = handle_chain_facts [OF t(3) this]
  have v: "validate_handle ?h (tr_data_end tr) = Ok ()" using rd hc by (intro validate_handle_Ok) (simp_all add: reader_ok_def)
  note found = that
  have conclude: thesis if "tr_read_data_block lib snap tr ?h rc = (block_decode p, rc')" "block_holds p kvs"
    "ctx_ok tables rc'" "rc_stats rc' = rc_stats rc" for p rc'
    using that(2) that(1,3,4) found by (auto simp: block_holds_def)
  from ctx show thesis
  proof (rule rd_cache_hit_or_fill [where cached = "tr_cache tr" and num = "tr_file_number tr" and off = "bh_offset ?h"
        and kind = DataBlock])
    fix p rc1 n
    assume hit: "rd_cache_get (tr_cache tr) (tr_file_number tr) (bh_offset ?h) DataBlock rc = (Ok (Some p), rc1)"
      and n: "tr_cache tr" "tr_file_number tr = Some n" "cached_ok tables (n, bh_offset ?h, DataBlock) p"
      and c1: "ctx_ok tables rc1" "rc_stats rc1 = rc_stats rc"
    have "tables n = Some L" using rd n by (simp add: reader_ok_def)
    then have "block_holds p kvs" using n(3) mem by (auto simp: cached_ok_def)
    moreover have "tr_read_data_block lib snap tr ?h rc = (block_decode p, rc1)"
      unfolding tr_read_data_block_def v by (simp add: rd_bind_def hit)
    ultimately show thesis using conclude c1 by blast
  next
    fix rc1
    assume miss: "rd_cache_get (tr_cache tr) (tr_file_number tr) (bh_offset ?h) DataBlock rc = (Ok None, rc1)"
      and c1: "ctx_ok tables rc1" "rc_stats rc1 = rc_stats rc"
    from t(2) [OF mem] obtain payload st where p: "stored_payload snap payload (tp_compression (tl_properties L)) =
        Ok (st, compression_marker (tp_compression (tl_properties L)))"
      "stored_at lib (tr_file tr) ?h st (compression_marker (tp_compression (tl_properties L)))" "block_holds payload kvs"
      "length payload \<le> unat (tp_max_data_block_bytes (tl_properties L))" by (auto simp: meta_ok_def)
    have props: "tr_properties tr = tl_properties L" using rd by (simp add: reader_ok_def)
    note bk = stored_payload_back [OF p(1) loss, of tr, unfolded props, OF refl p(4)]
    have lim: "unat (tp_max_data_block_bytes (tl_properties L)) \<le> tr_max_uncompressed_data_block_bytes tr"
      "tr_max_uncompressed_data_block_bytes tr + tr_max_uncompressed_data_block_bytes tr div 6 + 37 \<le> usize_max"
      using rd by (simp_all add: reader_ok_def)
    from read_stored [OF p(2), of "tr_path tr"] obtain enc where enc: "read_exact_range (tr_path tr) (tr_file tr) ?h = Ok enc"
      "decode_stored_block lib enc = Ok (st, compression_marker (tp_compression (tl_properties L)))"
      "unat (bh_size ?h) = length st + 5" by blast
    have "length payload div 6 \<le> tr_max_uncompressed_data_block_bytes tr div 6"
      using p(4) lim(1) by (intro div_le_mono) simp
    moreover obtain w where w: "maximum_stored_data_block_bytes (tr_max_uncompressed_data_block_bytes tr) = Ok w"
      "unat w = tr_max_uncompressed_data_block_bytes tr + tr_max_uncompressed_data_block_bytes tr div 6 + 37"
      by (rule maximum_stored_Ok [OF lim(2)])
    ultimately have small: "\<not> w < bh_size ?h"
      using bk(2) [OF lim(1)] enc(3) p(4) lim(1) by (simp add: word_less_nat_alt)
    obtain b where b: "block_decode payload = Ok b" using p(3) by (auto simp: block_holds_def)
    have "payload \<noteq> []" using b by (auto simp: block_decode_def FIXED_RESTART_BYTES_def)
    then have cok: "cached_ok tables (n, bh_offset ?h, DataBlock) payload" if "tr_cache tr" "tr_file_number tr = Some n" for n
      using that rd p(3) table_file_unique [OF tf mem] by (auto simp: cached_ok_def reader_ok_def)
    from rd_cache_insert_ok [OF c1(1) cok] obtain rc2 where
      ins: "rd_cache_insert (tr_cache tr) (tr_file_number tr) (bh_offset ?h) DataBlock payload rc1 = (Ok (), rc2)"
      "ctx_ok tables rc2" "rc_stats rc2 = rc_stats rc1" by blast
    have "tr_read_data_block lib snap tr ?h rc = (Ok b, rc2)"
      unfolding tr_read_data_block_def v
      by (simp add: rd_bind_def miss w(1) small enc bk(1) [OF lim(1)] b ins(1))
    with b p(3) ins c1 show thesis by (intro conclude [of payload rc2]) simp_all
  qed
qed

section \<open>Routing a lookup through the index\<close>

lemma find_append_key: "find P (xs @ ys) = (case find P xs of None \<Rightarrow> find P ys | Some x \<Rightarrow> Some x)"
  by (induction xs) auto

lemma length_index_kvs [simp]: "length (index_kvs ms) = length ms" "index_kvs ms = [] \<longleftrightarrow> ms = []"
  by (induction ms) simp_all

definition route :: "data_block_meta list \<Rightarrow> bytes \<Rightarrow> data_block_meta option" where
  "route metas k = map_option snd (find (\<lambda>(s, m). s \<ge> k) (zip (map fst (index_kvs metas)) metas))"

definition meta_keys :: "data_block_meta \<Rightarrow> (bytes \<times> bytes) list \<Rightarrow> bool" where
  "meta_keys m kvs \<longleftrightarrow> kvs \<noteq> [] \<and> dbm_first m = fst (hd kvs) \<and> dbm_last m = fst (last kvs)"

lemma sorted_last_max:
  "sorted_wrt (<) (map fst kvs) \<Longrightarrow> kv \<in> set kvs \<Longrightarrow> fst kv \<le> (fst (last kvs) :: bytes)"
  by (induction kvs) (auto intro: less_imp_le)

text \<open>
  The routed block holds the first key at or after the target, except when the target falls
  between the last key of the block and the separator; then that key is the first of the next block.
\<close>

lemma route_cases:
  assumes "list_all2 meta_keys metas blocks" "sorted_wrt (<) (map fst (concat blocks))"
  shows "route metas k = None \<and> find (\<lambda>kv. k \<le> fst kv) (concat blocks) = None \<or>
    (\<exists>m kvs. route metas k = Some m \<and> (m, kvs) \<in> set (zip metas blocks) \<and>
      (find (\<lambda>kv. k \<le> fst kv) (concat blocks) = find (\<lambda>kv. k \<le> fst kv) kvs \<or>
       find (\<lambda>kv. k \<le> fst kv) kvs = None \<and> fst (last kvs) < k \<and>
       (\<exists>b. find (\<lambda>kv. k \<le> fst kv) (concat blocks) = Some b \<and>
         k \<le> shortest_separator (fst (last kvs)) (fst b) \<and> fst (last kvs) < fst b)))"
  using assms
proof (induction metas blocks rule: list_all2_induct)
  case Nil
  then show ?case by (simp add: route_def)
next
  case (Cons m ms kvs bs)
  let ?P = "\<lambda>kv. k \<le> fst kv"
  define sep where "sep = (case ms of [] \<Rightarrow> dbm_last m | next # _ \<Rightarrow> shortest_separator (dbm_last m) (dbm_first next))"
  have idx: "route (m # ms) k = (if k \<le> sep then Some m else route ms k)" by (simp add: route_def sep_def)
  have kvs: "kvs \<noteq> []" "dbm_last m = fst (last kvs)" using Cons.hyps(1) by (simp_all add: meta_keys_def)
  have srt: "sorted_wrt (<) (map fst kvs)" "sorted_wrt (<) (map fst (concat bs))"
    "\<And>x y. x \<in> set kvs \<Longrightarrow> y \<in> set (concat bs) \<Longrightarrow> fst x < fst y"
    using Cons.prems by (auto simp: sorted_wrt_append)
  have next_sep: "ms = [] \<and> bs = [] \<and> sep = fst (last kvs) \<or> (\<exists>b rest. concat bs = b # rest \<and>
      sep = shortest_separator (fst (last kvs)) (fst b) \<and> fst (last kvs) < fst b)"
  proof (cases ms)
    case Nil
    then show ?thesis using Cons.hyps(2) kvs by (simp add: sep_def)
  next
    case (Cons m' ms')
    then obtain kvs' bs' where bs: "bs = kvs' # bs'" "meta_keys m' kvs'"
      using Cons.hyps(2) by (auto simp: list_all2_Cons1)
    then obtain b t where "kvs' = b # t" by (cases kvs') (auto simp: meta_keys_def)
    with bs Cons kvs srt(3) [of "last kvs" b] show ?thesis by (auto simp: sep_def meta_keys_def)
  qed
  show ?case
  proof (cases "k \<le> sep")
    case True
    show ?thesis
    proof (cases "find ?P kvs")
      case (Some x)
      then show ?thesis using True idx by (auto simp: find_append_key)
    next
      case None
      then have below: "fst (last kvs) < k" using last_in_set [OF kvs(1)] by (metis find_None_iff not_le)
      from next_sep below True obtain b rest where b: "concat bs = b # rest"
        "sep = shortest_separator (fst (last kvs)) (fst b)" "fst (last kvs) < fst b" by auto
      have "k \<le> fst b" using True b shortest_separator_between(2) [OF b(3)] by simp
      with None below b True idx show ?thesis by (auto simp: find_append_key)
    qed
  next
    case False
    have "fst (last kvs) \<le> sep" using next_sep shortest_separator_between(1) by auto
    then have "find ?P kvs = None"
      using False sorted_last_max [OF srt(1)] by (fastforce simp: find_None_iff)
    then have "find ?P (concat (kvs # bs)) = find ?P (concat bs)" by (simp add: find_append_key)
    with Cons.IH [OF srt(2)] False idx show ?thesis by auto
  qed
qed

text \<open>In the exceptional case the separator shares the user key of the target with both neighbours.\<close>

lemma take_mono: "xs \<le> ys \<Longrightarrow> take n xs \<le> take n (ys :: bytes)"
proof (induction xs arbitrary: ys n)
  case (Cons x xs)
  then show ?case by (cases ys; cases n) auto
qed simp

lemma separator_gap:
  assumes "a < k" "k \<le> shortest_separator a b" "a < b" and k: "k = p @ x" and b: "b = p @ y"
  shows "\<exists>z. a = p @ z"
proof -
  let ?n = "shared_prefix a b"
  have sep: "?n < length a" "?n < length b" "a ! ?n + 1 < b ! ?n"
    "shortest_separator a b = take ?n a @ [a ! ?n + 1]"
    using assms(1,2) by (auto simp: shortest_separator_def Let_def split: if_splits)
  have pre: "take ?n a = take ?n b" by (rule take_shared_prefix)
  have "k \<le> b" using assms(2) shortest_separator_between(2) [OF assms(3)] by simp
  then have ka: "take ?n k = take ?n a"
    using take_mono [of a k ?n] take_mono [of k b ?n] assms(1) pre by simp
  have "length p \<le> ?n"
  proof (rule ccontr)
    assume "\<not> length p \<le> ?n"
    then have lt: "?n < length k" and eq: "k ! ?n = b ! ?n" using k b by (auto simp: nth_append)
    have "k = take ?n a @ b ! ?n # drop (Suc ?n) k" using id_take_nth_drop [OF lt] ka eq by simp
    then have "shortest_separator a b < k"
      using sep(3,4) by (metis less_append_left Cons_less_Cons)
    with assms(2) show False by simp
  qed
  then have "take (length p) a = take (length p) b" using pre by (metis min.absorb1 take_take)
  then show ?thesis using b by (metis append_eq_conv_conj append_take_drop_id)
qed

lemma find_map_key: "find P (map f xs) = map_option f (find (P \<circ> f) xs)"
  by (induction xs) auto

lemma reader_route:
  assumes "reader_ok lib snap tables L tr"
  shows "map_option snd (find (\<lambda>(separator, h). separator \<ge> k) (tr_index tr)) = map_option dbm_handle (route (tl_metas L) k)"
proof -
  have "tr_index tr = map (map_prod id dbm_handle) (zip (map fst (index_kvs (tl_metas L))) (tl_metas L))"
    using assms by (auto simp: reader_ok_def zip_map2)
  then show ?thesis
    by (simp add: find_map_key route_def option.map_comp comp_def case_prod_unfold)
qed

lemma reader_route_cases:
  assumes "reader_ok lib snap tables L tr"
  obtains (Nowhere) "find (\<lambda>(separator, h). separator \<ge> k) (tr_index tr) = None"
      "find (\<lambda>kv. k \<le> fst kv) (raw_kvs (tl_entries L)) = None"
  | (Routed) s m kvs where "find (\<lambda>(separator, h). separator \<ge> k) (tr_index tr) = Some (s, dbm_handle m)"
      "(m, kvs) \<in> set (zip (tl_metas L) (tl_blocks L))"
      "find (\<lambda>kv. k \<le> fst kv) (raw_kvs (tl_entries L)) = find (\<lambda>kv. k \<le> fst kv) kvs"
  | (Gap) s m kvs b where "find (\<lambda>(separator, h). separator \<ge> k) (tr_index tr) = Some (s, dbm_handle m)"
      "(m, kvs) \<in> set (zip (tl_metas L) (tl_blocks L))" "find (\<lambda>kv. k \<le> fst kv) kvs = None" "fst (last kvs) < k"
      "find (\<lambda>kv. k \<le> fst kv) (raw_kvs (tl_entries L)) = Some b"
      "k \<le> shortest_separator (fst (last kvs)) (fst b)" "fst (last kvs) < fst b"
proof -
  have tf: "table_file lib snap (tr_file tr) L" using assms by (simp add: reader_ok_def)
  have c: "concat (tl_blocks L) = raw_kvs (tl_entries L)" using tf by (simp add: table_file_def)
  have "sorted_wrt (<) (map fst (concat (tl_blocks L)))"
    using tf c by (simp add: table_file_def raw_ok_def raw_kvs_def split_beta comp_def)
  moreover have "list_all2 meta_keys (tl_metas L) (tl_blocks L)"
    using table_file_metas(1,2) [OF tf] by (auto simp: list_all2_iff meta_keys_def meta_ok_def)
  ultimately have r: "route (tl_metas L) k = None \<and> find (\<lambda>kv. k \<le> fst kv) (raw_kvs (tl_entries L)) = None \<or>
    (\<exists>m kvs. route (tl_metas L) k = Some m \<and> (m, kvs) \<in> set (zip (tl_metas L) (tl_blocks L)) \<and>
      (find (\<lambda>kv. k \<le> fst kv) (raw_kvs (tl_entries L)) = find (\<lambda>kv. k \<le> fst kv) kvs \<or>
       find (\<lambda>kv. k \<le> fst kv) kvs = None \<and> fst (last kvs) < k \<and>
       (\<exists>b. find (\<lambda>kv. k \<le> fst kv) (raw_kvs (tl_entries L)) = Some b \<and>
         k \<le> shortest_separator (fst (last kvs)) (fst b) \<and> fst (last kvs) < fst b)))"
    using route_cases [of "tl_metas L" "tl_blocks L" k] c by simp
  note rr = reader_route [OF assms, of k]
  from r rr Nowhere Routed Gap show ?thesis by (elim disjE exE conjE) auto
qed

text \<open>
  A read at a sequence is split when a block other than the last one ends with a version of the
  user key that is newer than the sequence.
\<close>

definition read_splits :: "table_layout \<Rightarrow> bytes \<Rightarrow> sequence_number \<Rightarrow> bool" where
  "read_splits L u s \<longleftrightarrow> (\<exists>kvs \<in> set (butlast (tl_blocks L)).
    case ik_decode (fst (last kvs)) of Inr k \<Rightarrow> ik_user_key k = u \<and> s < ik_sequence k | Inl _ \<Rightarrow> False)"

fun lookup_entry :: "table_lookup \<Rightarrow> raw_entry option" where
  "lookup_entry (Found k v) = Some (k, v)"
| "lookup_entry _ = None"

lemma table_file_entries:
  assumes "table_file lib snap c L"
  shows "sorted_wrt (<) (map (\<lambda>e. ik_encoded (fst e)) (tl_entries L))" "\<forall>e \<in> set (tl_entries L). wf_key (fst e)"
    "concat (tl_blocks L) = raw_kvs (tl_entries L)"
  using assms by (auto simp: table_file_def raw_ok_def)

lemma find_raw_kvs:
  "find (\<lambda>kv. k \<le> fst kv) (raw_kvs es) = map_option (\<lambda>(k, v). (ik_encoded k, v)) (find (\<lambda>e. k \<le> ik_encoded (fst e)) es)"
  by (simp add: raw_kvs_def find_map_key comp_def split_beta)

text \<open>A lookup that misses the first key at or after the target reads a split sequence.\<close>

lemma gap_splits:
  assumes tf: "table_file lib snap c L" and seek: "ik_try_new u s Deletion = Inr seek"
    and mem: "(m, kvs) \<in> set (zip (tl_metas L) (tl_blocks L))" and lt: "fst (last kvs) < ik_encoded seek"
    and nxt: "find (\<lambda>e. ik_encoded seek \<le> ik_encoded (fst e)) (tl_entries L) = Some (k, v)"
    and sep: "ik_encoded seek \<le> shortest_separator (fst (last kvs)) (ik_encoded k)" "fst (last kvs) < ik_encoded k"
    and u: "ik_user_key k = u"
  shows "read_splits L u s"
proof -
  note e = table_file_entries [OF tf]
  have kvs: "kvs \<in> set (tl_blocks L)" "kvs \<noteq> []"
    using mem table_file_metas(2) [OF tf mem] by (auto dest: set_zip_rightD simp: meta_ok_def)
  have "last kvs \<in> set (concat (tl_blocks L))" using kvs(1) last_in_set [OF kvs(2)] by auto
  then obtain a w where a: "(a, w) \<in> set (tl_entries L)" "fst (last kvs) = ik_encoded a"
    by (auto simp: e(3) raw_kvs_def)
  have kmem: "(k, v) \<in> set (tl_entries L)" using nxt by (auto simp: find_Some_iff)
  have wf: "wf_key a" "wf_key k" "wf_key seek" "ik_user_key seek = u" "ik_sequence seek = s"
    using a(1) kmem e(2) ik_try_new_Ok [OF seek] by auto
  have "\<exists>z. ik_encoded a = encode_user_key u @ z"
    using separator_gap [of "ik_encoded a" "ik_encoded seek" "ik_encoded k" "encode_user_key u"] lt sep a(2)
      wf_key_encoded(1) [OF wf(2)] wf_key_encoded(1) [OF wf(3)] wf(4) u by simp
  then have au: "ik_user_key a = u" using wf_key_encoded(1) [OF wf(1)] encode_user_key_eq by metis
  have "s < ik_sequence a"
    using lt a(2) wf_key_less_iff [OF wf(1,3)] wf(4,5) au ik_try_new_Ok [OF seek]
    by (cases "ik_kind a") (auto simp: less_value_kind_def)
  moreover have "ik_decode (fst (last kvs)) = Ok a" using wf(1) a(2) by (simp add: wf_key_def)
  moreover have "kvs \<in> set (butlast (tl_blocks L))"
  proof (rule ccontr)
    assume no: "kvs \<notin> set (butlast (tl_blocks L))"
    have "tl_blocks L = butlast (tl_blocks L) @ [last (tl_blocks L)]" using kvs(1) by (metis append_butlast_last_id empty_iff list.set(1))
    then obtain bs where bs: "tl_blocks L = bs @ [kvs]"
      using kvs(1) no by (metis Un_iff set_append set_ConsD empty_iff list.set(1))
    have "sorted_wrt (<) (map fst (concat (tl_blocks L)))"
      using e(1,3) by (simp add: raw_kvs_def split_beta comp_def)
    moreover have "(ik_encoded k, v) \<in> set (concat (tl_blocks L))" using kmem e(3) by (force simp: raw_kvs_def)
    moreover have "last (concat (tl_blocks L)) = last kvs" using bs kvs(2) by simp
    ultimately have "ik_encoded k \<le> fst (last kvs)" using sorted_last_max by fastforce
    with sep(2) show False by simp
  qed
  ultimately show ?thesis using au unfolding read_splits_def by (intro bexI [of _ kvs]) simp_all
qed

lemma table_bloom:
  assumes "table_file lib snap c L" "(k, v) \<in> set (tl_entries L)"
  shows "bf_may_contain (tl_bloom L) (ik_user_key k)"
proof -
  from assms(1) obtain bits where "bf_from_keys (map (\<lambda>e. ik_user_key (fst e)) (tl_entries L)) bits = Ok (tl_bloom L)"
    by (auto simp: table_file_def)
  from bf_from_keys_sound [OF this] assms(2) show ?thesis by force
qed

text \<open>
  What a lookup returns after the filter: the newest visible version, or nothing when the read is
  split.
\<close>

definition visible_result :: "table_layout \<Rightarrow> bytes \<Rightarrow> sequence_number \<Rightarrow> raw_entry option \<Rightarrow> bool" where
  "visible_result L u s r \<longleftrightarrow> r = newest_visible u s (tl_entries L) \<or> r = None \<and> read_splits L u s"

lemma seek_found:
  assumes tf: "table_file lib snap c L" and seek: "ik_try_new u s Deletion = Inr seek"
    and fnd: "find (\<lambda>kv. ik_encoded seek \<le> fst kv) (raw_kvs (tl_entries L)) = Some (k, v)"
  shows "\<exists>key. ik_decode k = Ok key \<and> (key, v) \<in> set (tl_entries L) \<and> ik_encoded key = k \<and>
    find (\<lambda>e. ik_encoded seek \<le> ik_encoded (fst e)) (tl_entries L) = Some (key, v) \<and>
    newest_visible u s (tl_entries L) = (if ik_user_key key = u then Some (key, v) else None) \<and>
    (ik_user_key key = u \<longrightarrow> ik_sequence key \<le> s)"
proof -
  note e = table_file_entries [OF tf]
  from fnd obtain key where key: "find (\<lambda>e. ik_encoded seek \<le> ik_encoded (fst e)) (tl_entries L) = Some (key, v)"
    "k = ik_encoded key" by (auto simp: find_raw_kvs)
  have mem: "(key, v) \<in> set (tl_entries L)" using key(1) by (auto simp: find_Some_iff)
  have nv: "newest_visible u s (tl_entries L) = (if ik_user_key key = u then Some (key, v) else None)"
    using seek_newest_keys [OF e(1,2) seek] key(1) by simp
  have "ik_sequence key \<le> s" if "ik_user_key key = u"
    using newest_visible_mem [of u s "tl_entries L" "(key, v)"] nv that by (simp add: visible_def)
  moreover have "ik_decode k = Ok key" using e(2) mem key(2) by (auto simp: wf_key_def)
  ultimately show ?thesis using key mem nv by blast
qed

lemma seek_nowhere:
  assumes tf: "table_file lib snap c L" and seek: "ik_try_new u s Deletion = Inr seek"
    and fnd: "find (\<lambda>kv. ik_encoded seek \<le> fst kv) (raw_kvs (tl_entries L)) = None"
  shows "newest_visible u s (tl_entries L) = None"
  using seek_newest_keys [OF table_file_entries(1,2) [OF tf] seek] fnd by (simp add: find_raw_kvs)

lemma tr_get_visible_block:
  assumes rd: "reader_ok lib snap tables L tr" and ctx: "ctx_ok tables rc" and loss: "snap_lossless snap"
    and seek: "ik_try_new u s Deletion = Inr seek" and may: "bf_may_contain (tl_bloom L) u"
    and idx: "find (\<lambda>(separator, h). separator \<ge> ik_encoded seek) (tr_index tr) = Some (sp, dbm_handle m)"
    and mem: "(m, kvs) \<in> set (zip (tl_metas L) (tl_blocks L))"
  obtains rc' where "tr_get_visible lib snap tr u s rc =
      ((case find (\<lambda>kv. ik_encoded seek \<le> fst kv) kvs of
          None \<Rightarrow> Ok Absent
        | Some (k, v) \<Rightarrow> rbind (ik_decode k) (\<lambda>found.
            Ok (if ik_user_key found \<noteq> u \<or> ik_sequence found > s then Absent else Found found v))), rc')"
    "ctx_ok tables rc'"
proof -
  obtain rc1 where rc1: "rd_bloom_check (tr_stats tr) False rc = (Ok (), rc1)" "ctx_ok tables rc1"
    using ctx by (auto simp: rd_bloom_check_def ctx_ok_def)
  obtain b rc2 where b: "tr_read_data_block lib snap tr (dbm_handle m) rc1 = (Ok b, rc2)" "ctx_ok tables rc2"
    "\<And>target. block_seek b target = Ok (find (\<lambda>kv. target \<le> fst kv) kvs)"
    using tr_read_data_block_Ok [OF rd rc1(2) loss mem] by blast
  have "tr_user_key_filter tr" "tr_filter tr = tl_bloom L" using rd by (simp_all add: reader_ok_def)
  with rc1(1) b(1,3) idx may seek that [of rc2] b(2) show ?thesis
    by (auto simp: tr_get_visible_def Let_def rd_bind_def ik_deletion_def split: option.splits sum.splits)
qed

lemma tr_get_visible_Ok:
  assumes rd: "reader_ok lib snap tables L tr" and ctx: "ctx_ok tables rc" and loss: "snap_lossless snap"
    and s: "s \<le> MAX_SEQUENCE_NUMBER"
  shows "\<exists>r rc'. tr_get_visible lib snap tr u s rc = (Ok r, rc') \<and> ctx_ok tables rc' \<and>
    visible_result L u s (lookup_entry r)"
proof (cases "bf_may_contain (tl_bloom L) u")
  case False
  have tf: "table_file lib snap (tr_file tr) L" and uk: "tr_user_key_filter tr" and bl: "tr_filter tr = tl_bloom L"
    using rd by (simp_all add: reader_ok_def)
  obtain rc1 where rc1: "rd_bloom_check (tr_stats tr) True rc = (Ok (), rc1)" "ctx_ok tables rc1"
    using ctx by (auto simp: rd_bloom_check_def ctx_ok_def)
  have "newest_visible u s (tl_entries L) = None"
    using table_bloom [OF tf] False by (force simp: newest_visible_None visible_def)
  moreover have "tr_get_visible lib snap tr u s rc = (Ok BloomNegative, rc1)"
    using rc1 False uk by (simp add: tr_get_visible_def Let_def bl rd_bind_def)
  ultimately show ?thesis using rc1 by (auto simp: visible_result_def)
next
  case may: True
  have tf: "table_file lib snap (tr_file tr) L" and uk: "tr_user_key_filter tr" and bl: "tr_filter tr = tl_bloom L"
    using rd by (simp_all add: reader_ok_def)
  obtain seek where seek: "ik_try_new u s Deletion = Inr seek" using ik_try_new_total [OF s] by blast
  let ?k = "ik_encoded seek"
  from rd show ?thesis
  proof (cases rule: reader_route_cases [where k = ?k])
    case Nowhere
    obtain rc1 where rc1: "rd_bloom_check (tr_stats tr) False rc = (Ok (), rc1)" "ctx_ok tables rc1"
      using ctx by (auto simp: rd_bloom_check_def ctx_ok_def)
    have "tr_get_visible lib snap tr u s rc = (Ok Absent, rc1)"
      using Nowhere(1) rc1(1) may uk by (simp add: tr_get_visible_def Let_def bl rd_bind_def ik_deletion_def seek)
    with seek_nowhere [OF tf seek Nowhere(2)] rc1(2) show ?thesis by (auto simp: visible_result_def)
  next
    case (Routed sp m kvs)
    obtain rc2 where blk: "tr_get_visible lib snap tr u s rc = ((case find (\<lambda>kv. ?k \<le> fst kv) kvs of
          None \<Rightarrow> Ok Absent
        | Some (k, v) \<Rightarrow> rbind (ik_decode k) (\<lambda>found.
            Ok (if ik_user_key found \<noteq> u \<or> ik_sequence found > s then Absent else Found found v))), rc2)" "ctx_ok tables rc2"
      by (rule tr_get_visible_block [OF rd ctx loss seek may Routed(1,2)])
    show ?thesis
    proof (cases "find (\<lambda>kv. ?k \<le> fst kv) kvs")
      case None
      with blk seek_nowhere [OF tf seek] Routed(3) show ?thesis by (simp add: visible_result_def)
    next
      case (Some kv)
      obtain k v where kv: "kv = (k, v)" by fastforce
      from seek_found [OF tf seek] Routed(3) Some kv obtain key where key: "ik_decode k = Ok key"
        "newest_visible u s (tl_entries L) = (if ik_user_key key = u then Some (key, v) else None)"
        "ik_user_key key = u \<longrightarrow> ik_sequence key \<le> s" by auto
      with blk Some kv show ?thesis by (auto simp: visible_result_def not_less [symmetric])
    qed
  next
    case (Gap sp m kvs nxt)
    obtain k v where kv: "nxt = (k, v)" by fastforce
    from seek_found [OF tf seek Gap(5) [unfolded kv]] obtain key where key: "ik_encoded key = k"
      "find (\<lambda>e. ?k \<le> ik_encoded (fst e)) (tl_entries L) = Some (key, v)"
      "newest_visible u s (tl_entries L) = (if ik_user_key key = u then Some (key, v) else None)" by blast
    have "read_splits L u s" if "ik_user_key key = u"
      using gap_splits [OF tf seek Gap(2,4) key(2)] Gap(6,7) kv key(1) that by simp
    moreover obtain rc2 where blk: "tr_get_visible lib snap tr u s rc = (Ok Absent, rc2)" "ctx_ok tables rc2"
      by (rule tr_get_visible_block [OF rd ctx loss seek may Gap(1,2)]) (use Gap(3) that in simp)
    ultimately show ?thesis using key(3) by (auto simp: visible_result_def)
  qed
qed

text \<open>An exact lookup.\<close>

lemma exact_find:
  assumes "sorted_wrt (<) (map (\<lambda>e. ik_encoded (fst e)) es)" "\<forall>e \<in> set es. wf_key (fst e)" "wf_key key"
  shows "map_of es key = (case find (\<lambda>e. ik_encoded key \<le> ik_encoded (fst e)) es of
    Some (k, v) \<Rightarrow> if ik_encoded k = ik_encoded key then Some v else None | None \<Rightarrow> None)"
  using assms(1,2)
proof (induction es)
  case (Cons e es)
  obtain k v where e: "e = (k, v)" by fastforce
  have inj: "ik_encoded k = ik_encoded key \<longleftrightarrow> k = key" using Cons.prems e wf_key_inject assms(3) by simp
  show ?case
  proof (cases "ik_encoded key < ik_encoded k")
    case True
    have "\<not> (\<exists>v. (key, v) \<in> set es)" using Cons.prems(1) True e by (fastforce dest: less_trans)
    then have "map_of es key = None" by (simp add: map_of_eq_None_iff) force
    with True e inj show ?thesis by auto
  next
    case False
    with Cons e inj show ?thesis by (auto simp: not_less le_less)
  qed
qed simp

lemma tr_get_Ok:
  assumes rd: "reader_ok lib snap tables L tr" and ctx: "ctx_ok tables rc" and loss: "snap_lossless snap"
    and key: "wf_key key"
  shows "\<exists>rc'. tr_get lib snap tr key rc = (Ok (map_of (tl_entries L) key), rc') \<and> ctx_ok tables rc'"
proof (cases "tr_may_contain tr key")
  case False
  have tf: "table_file lib snap (tr_file tr) L" using rd by (simp add: reader_ok_def)
  have "\<not> (\<exists>v. (key, v) \<in> set (tl_entries L))"
    using table_bloom [OF tf] False rd by (auto simp: tr_may_contain_def reader_ok_def)
  then have "map_of (tl_entries L) key = None" by (simp add: map_of_eq_None_iff) force
  with False ctx show ?thesis by (simp add: tr_get_def)
next
  case True
  let ?k = "ik_encoded key"
  have tf: "table_file lib snap (tr_file tr) L" using rd by (simp add: reader_ok_def)
  note exact = exact_find [OF table_file_entries(1,2) [OF tf] key]
  from rd show ?thesis
  proof (cases rule: reader_route_cases [where k = ?k])
    case Nowhere
    with True ctx exact show ?thesis by (simp add: tr_get_def find_raw_kvs)
  next
    case (Routed sp m kvs)
    obtain b rc2 where b: "tr_read_data_block lib snap tr (dbm_handle m) rc = (Ok b, rc2)" "ctx_ok tables rc2"
      "\<And>target. block_seek b target = Ok (find (\<lambda>kv. target \<le> fst kv) kvs)"
      using tr_read_data_block_Ok [OF rd ctx loss Routed(2)] by blast
    have "tr_get lib snap tr key rc = (Ok (map_of (tl_entries L) key), rc2)"
      using True Routed(1) b(1,3) Routed(3) [symmetric] unfolding exact
      by (auto simp: tr_get_def rd_bind_def find_raw_kvs split: option.splits)
    with b(2) show ?thesis by blast
  next
    case (Gap sp m kvs nxt)
    obtain b rc2 where b: "tr_read_data_block lib snap tr (dbm_handle m) rc = (Ok b, rc2)" "ctx_ok tables rc2"
      "\<And>target. block_seek b target = Ok (find (\<lambda>kv. target \<le> fst kv) kvs)"
      using tr_read_data_block_Ok [OF rd ctx loss Gap(2)] by blast
    have "?k < fst nxt" using Gap(6) shortest_separator_between(2) [OF Gap(7)] by simp
    then have "map_of (tl_entries L) key = None" using Gap(5) unfolding exact by (auto simp: find_raw_kvs)
    moreover have "tr_get lib snap tr key rc = (Ok None, rc2)"
      using True Gap(1,3) b(1,3) by (simp add: tr_get_def rd_bind_def)
    ultimately show ?thesis using b(2) by simp
  qed
qed

section \<open>Iteration\<close>

definition ti_measure :: "table_reader \<Rightarrow> table_iter \<Rightarrow> nat \<times> nat \<times> nat" where
  "ti_measure tr it = (if ti_failed it then 0 else 1, length (tr_index tr) - ti_block_index it, length (ti_entries it))"

lemma next_table_entry_decreases:
  "next_table_entry lib snap tr it rc = (Some x, it', rc') \<Longrightarrow>
    (ti_measure tr it', ti_measure tr it) \<in> less_than <*lex*> less_than <*lex*> less_than"
proof (induction lib snap tr it rc rule: next_table_entry.induct)
  case (1 lib snap tr it rc)
  show ?case
  proof (cases "ti_failed it \<or> ti_entries it \<noteq> []")
    case True
    with 1(2) show ?thesis
      by (auto simp: next_table_entry.simps [of lib snap tr it] ti_measure_def Let_def split: list.splits sum.splits)
  next
    case False
    then have idx: "ti_block_index it < length (tr_index tr)"
      using 1(2) by (auto simp: next_table_entry.simps [of lib snap tr it] split: if_splits)
    let ?it = "it\<lparr>ti_block_index := ti_block_index it + 1\<rparr>"
    obtain r rc1 where rd: "tr_read_data_block lib snap tr (snd (tr_index tr ! ti_block_index it)) rc = (r, rc1)" by fastforce
    show ?thesis
    proof (cases "\<exists>b es. r = Inr b \<and> collect_results (block_items b) = Inr es")
      case True
      then obtain b es where b: "r = Inr b" "collect_results (block_items b) = Inr es" by blast
      have "next_table_entry lib snap tr (?it\<lparr>ti_entries := es\<rparr>) rc1 = (Some x, it', rc')"
        using 1(2) False idx rd b by (simp add: next_table_entry.simps [of lib snap tr it])
      with 1(1) False idx rd b have
        "(ti_measure tr it', ti_measure tr (?it\<lparr>ti_entries := es\<rparr>)) \<in> less_than <*lex*> less_than <*lex*> less_than"
        by (simp add: Let_def)
      then show ?thesis using idx by (auto simp: ti_measure_def)
    next
      case err: False
      with 1(2) False idx rd show ?thesis
        by (auto simp: next_table_entry.simps [of lib snap tr it] ti_measure_def Let_def split: sum.splits)
    qed
  qed
qed

text \<open>Every item of the iterator, until it returns \<open>None\<close>.\<close>

function ti_collect ::
  "crc_lib \<Rightarrow> snap_lib \<Rightarrow> table_reader \<Rightarrow> table_iter \<Rightarrow> read_ctx \<Rightarrow> (internal_key \<times> bytes) result list \<times> read_ctx" where
  "ti_collect lib snap tr it rc =
    (case next_table_entry lib snap tr it rc of
       (None, it, rc) \<Rightarrow> ([], rc)
     | (Some item, it, rc) \<Rightarrow> (let (items, rc) = ti_collect lib snap tr it rc in (item # items, rc)))"
  by pat_completeness auto

termination
  by (relation "inv_image (less_than <*lex*> less_than <*lex*> less_than) (\<lambda>(lib, snap, tr, it, rc). ti_measure tr it)")
    (auto intro: next_table_entry_decreases [OF sym])

declare ti_collect.simps [simp del]

lemma collect_results_Ok [simp]: "collect_results (map Inr xs) = Ok xs"
  by (induction xs) simp_all

lemma raw_kvs_simps [simp]:
  "raw_kvs [] = []" "raw_kvs (e # es) = (ik_encoded (fst e), snd e) # raw_kvs es" "raw_kvs (es @ es') = raw_kvs es @ raw_kvs es'"
  by (simp_all add: raw_kvs_def split_beta)

lemma ti_collect_entries:
  assumes "\<forall>e \<in> set es. wf_key (fst e)" "\<not> ti_failed it"
  shows "ti_entries it = raw_kvs es @ rest \<Longrightarrow> ti_collect lib snap tr it rc =
    (let (items, rc') = ti_collect lib snap tr (it\<lparr>ti_entries := rest\<rparr>) rc in (map Ok es @ items, rc'))"
  using assms
proof (induction es arbitrary: it)
  case (Cons e es)
  have "ik_decode (ik_encoded (fst e)) = Ok (fst e)" using Cons.prems(2) by (simp add: wf_key_def)
  then have "next_table_entry lib snap tr it rc = (Some (Ok e), it\<lparr>ti_entries := raw_kvs es @ rest\<rparr>, rc)"
    using Cons.prems(1,3) by (simp add: next_table_entry.simps [of lib snap tr it])
  then have "ti_collect lib snap tr it rc =
    (let (items, rc) = ti_collect lib snap tr (it\<lparr>ti_entries := raw_kvs es @ rest\<rparr>) rc in (Ok e # items, rc))"
    by (simp add: ti_collect.simps [of lib snap tr it])
  with Cons.IH [of "it\<lparr>ti_entries := raw_kvs es @ rest\<rparr>"] Cons.prems show ?case
    by (auto simp: Let_def split: prod.splits)
qed (auto split: prod.splits)

lemma ti_collect_blocks:
  assumes rd: "reader_ok lib snap tables L tr" and ctx: "ctx_ok tables rc" and loss: "snap_lossless snap"
    and it: "\<not> ti_failed it" "ti_entries it = []" "concat (drop (ti_block_index it) (tl_blocks L)) = raw_kvs es"
    and wf: "\<forall>e \<in> set es. wf_key (fst e)"
  shows "\<exists>rc'. ti_collect lib snap tr it rc = (map Ok es, rc') \<and> ctx_ok tables rc'"
  using ctx it wf
proof (induction "length (tl_blocks L) - ti_block_index it" arbitrary: it rc es)
  case 0
  have tf: "table_file lib snap (tr_file tr) L" using rd by (simp add: reader_ok_def)
  have "length (tr_index tr) = length (tl_blocks L)"
    using rd table_file_metas(1) [OF tf] by (auto simp: reader_ok_def)
  then have "next_table_entry lib snap tr it rc = (None, it, rc)" "es = []"
    using 0 by (simp_all add: next_table_entry.simps [of lib snap tr it] raw_kvs_def)
  with 0 show ?case by (simp add: ti_collect.simps [of lib snap tr it])
next
  case (Suc n)
  let ?i = "ti_block_index it"
  have tf: "table_file lib snap (tr_file tr) L" using rd by (simp add: reader_ok_def)
  note len = table_file_metas(1) [OF tf]
  have i: "?i < length (tl_blocks L)" using Suc.hyps(2) by simp
  have mem: "(tl_metas L ! ?i, tl_blocks L ! ?i) \<in> set (zip (tl_metas L) (tl_blocks L))"
    using i len by (auto simp: in_set_zip)
  have idx: "?i < length (tr_index tr)" "snd (tr_index tr ! ?i) = dbm_handle (tl_metas L ! ?i)"
    using rd i len by (auto simp: reader_ok_def)
  obtain b rc1 where b: "tr_read_data_block lib snap tr (dbm_handle (tl_metas L ! ?i)) rc = (Ok b, rc1)"
    "ctx_ok tables rc1" "block_items b = map Ok (tl_blocks L ! ?i)"
    using tr_read_data_block_Ok [OF rd Suc.prems(1) loss mem] by blast
  have "drop ?i (tl_blocks L) = tl_blocks L ! ?i # drop (Suc ?i) (tl_blocks L)" using i by (simp add: Cons_nth_drop_Suc)
  then obtain es1 es2 where es: "es = es1 @ es2" "tl_blocks L ! ?i = raw_kvs es1" "concat (drop (Suc ?i) (tl_blocks L)) = raw_kvs es2"
    using Suc.prems(4) by (auto simp: raw_kvs_def append_eq_map_conv)
  let ?it = "it\<lparr>ti_block_index := Suc ?i, ti_entries := raw_kvs es1\<rparr>"
  have "ti_collect lib snap tr it rc = ti_collect lib snap tr ?it rc1"
    using idx b(1,3) Suc.prems(2,3) es(2)
    by (simp add: ti_collect.simps [of lib snap tr it] ti_collect.simps [of lib snap tr ?it] next_table_entry.simps [of lib snap tr it])
  moreover obtain rc2 where "ti_collect lib snap tr (?it\<lparr>ti_entries := []\<rparr>) rc1 = (map Ok es2, rc2)" "ctx_ok tables rc2"
  proof -
    have "n = length (tl_blocks L) - Suc ?i" using Suc.hyps(2) by linarith
    with Suc.hyps(1) [of "?it\<lparr>ti_entries := []\<rparr>" rc1 es2] Suc.prems(2,5) b(2) es that show ?thesis by auto
  qed
  moreover have "\<forall>e \<in> set es1. wf_key (fst e)" using Suc.prems(5) es(1) by simp
  ultimately show ?case using ti_collect_entries [of es1 ?it "[]"] Suc.prems(2) es(1) by simp
qed

lemma ti_collect_all:
  assumes "reader_ok lib snap tables L tr" "ctx_ok tables rc" "snap_lossless snap"
  shows "\<exists>rc'. ti_collect lib snap tr ti_new rc = (map Ok (tl_entries L), rc') \<and> ctx_ok tables rc'"
proof -
  have tf: "table_file lib snap (tr_file tr) L" using assms(1) by (simp add: reader_ok_def)
  show ?thesis
    using table_file_entries(2,3) [OF tf] by (intro ti_collect_blocks [OF assms]) (simp_all add: ti_new_def)
qed

section \<open>Opening\<close>

lemma read_property_varint_at:
  assumes "length (pre @ varint v @ post) \<le> usize_max"
  shows "read_property_varint (pre @ varint v @ post) (length pre) = Ok (v, length (pre @ varint v))"
  using read_varint_varint [OF assms] assms by (simp add: read_property_varint_def checked_add_usize_def)

lemma read_property_key_at:
  assumes "length (pre @ varint (word_of_nat (length (ik_encoded k))) @ ik_encoded k @ post) \<le> usize_max" "wf_key k"
  shows "read_property_key (pre @ varint (word_of_nat (length (ik_encoded k))) @ ik_encoded k @ post) (length pre) =
    Ok (k, length (pre @ varint (word_of_nat (length (ik_encoded k))) @ ik_encoded k))"
proof -
  let ?n = "length (ik_encoded k)"
  have n: "unat (word_of_nat ?n :: u64) = ?n" using assms(1) by (intro unat_of_nat_eq) (simp add: usize_max_def)
  have dec: "ik_decode (ik_encoded k) = Ok k" using assms(2) by (simp add: wf_key_def)
  from read_property_varint_at [of pre "word_of_nat ?n" "ik_encoded k @ post"] assms(1) n dec show ?thesis
    by (simp add: read_property_key_def usize_try_from_def checked_add_usize_def slice_get_def)
qed

lemma decode_encode_properties:
  assumes enc: "encode_properties P = Ok bs" and len: "length bs \<le> usize_max"
    and wf: "wf_key (tp_smallest P)" "wf_key (tp_largest P)" "\<not> ik_less (tp_largest P) (tp_smallest P)"
    and pos: "tp_entries P \<noteq> 0" "tp_data_blocks P \<noteq> 0" "tp_max_data_block_bytes P \<noteq> 0"
  shows "decode_properties bs = Ok P"
proof -
  let ?fn = "varint (tp_file_number P)" and ?en = "varint (tp_entries P)" and ?db = "varint (tp_data_blocks P)"
  let ?c = "[compression_marker (tp_compression P)]" and ?mx = "varint (tp_max_data_block_bytes P)"
  let ?s = "ik_encoded (tp_smallest P)" and ?l = "ik_encoded (tp_largest P)"
  let ?sl = "varint (word_of_nat (length ?s))" and ?ll = "varint (word_of_nat (length ?l))"
  define e where "e = (if tp_engine_value_encoding P then [0xe1, 1 :: u8] else [])"
  have bs: "bs = ?fn @ ?en @ ?db @ ?c @ ?mx @ ?sl @ ?s @ ?ll @ ?l @ e"
    using enc by (auto simp: encode_properties_def Let_def put_varint_append put_property_key_def result_iffs u64_try_from_def
        e_def split: if_splits)
  have r1: "read_property_varint bs 0 = Ok (tp_file_number P, length ?fn)"
    using read_property_varint_at [of "[]" "tp_file_number P"] len by (simp add: bs)
  have r2: "read_property_varint bs (length ?fn) = Ok (tp_entries P, length (?fn @ ?en))"
    using read_property_varint_at [of ?fn "tp_entries P"] len by (simp add: bs)
  have r3: "read_property_varint bs (length (?fn @ ?en)) = Ok (tp_data_blocks P, length (?fn @ ?en @ ?db))"
    using read_property_varint_at [of "?fn @ ?en" "tp_data_blocks P"] len by (simp add: bs)
  have r4: "decode_compression bs (length (?fn @ ?en @ ?db)) = Ok (tp_compression P)"
    by (cases "tp_compression P") (simp_all add: bs decode_compression_def nth_append compression_marker_def
        NO_COMPRESSION_def SNAPPY_COMPRESSION_def)
  have r5: "checked_add_usize (length (?fn @ ?en @ ?db)) 1 = Some (length (?fn @ ?en @ ?db @ ?c))"
    using len by (simp add: bs checked_add_usize_def)
  have r6: "read_property_varint bs (length (?fn @ ?en @ ?db @ ?c)) =
      Ok (tp_max_data_block_bytes P, length (?fn @ ?en @ ?db @ ?c @ ?mx))"
    using read_property_varint_at [of "?fn @ ?en @ ?db @ ?c" "tp_max_data_block_bytes P"] len by (simp add: bs)
  have r7: "read_property_key bs (length (?fn @ ?en @ ?db @ ?c @ ?mx)) =
      Ok (tp_smallest P, length (?fn @ ?en @ ?db @ ?c @ ?mx @ ?sl @ ?s))"
    using read_property_key_at [OF _ wf(1), of "?fn @ ?en @ ?db @ ?c @ ?mx"] len by (simp add: bs)
  have r8: "read_property_key bs (length (?fn @ ?en @ ?db @ ?c @ ?mx @ ?sl @ ?s)) =
      Ok (tp_largest P, length (?fn @ ?en @ ?db @ ?c @ ?mx @ ?sl @ ?s @ ?ll @ ?l))"
    using read_property_key_at [OF _ wf(2), of "?fn @ ?en @ ?db @ ?c @ ?mx @ ?sl @ ?s"] len by (simp add: bs)
  have r9: "slice_get bs (length (?fn @ ?en @ ?db @ ?c @ ?mx @ ?sl @ ?s @ ?ll @ ?l)) (length bs) = Some e"
    by (simp add: bs slice_get_def)
  show ?thesis
    unfolding decode_properties_def
    using wf(3) pos by (simp only: r1 r2 r3 r4 r5 r6 r7 r8 r9 rbind.simps ok_or.simps prod.case) (simp add: e_def)
qed

lemma checked_add_u64_sum:
  assumes "unat a + unat b \<le> unat (c :: u64)"
  shows "checked_add_u64 a b = Some (a + b)" "unat (a + b) = unat a + unat b"
proof -
  have "unat a + unat b < 2 ^ 64" using assms unat_lt2p [of c] by simp
  then show "checked_add_u64 a b = Some (a + b)" "unat (a + b) = unat a + unat b"
    by (simp_all add: checked_add_u64_def unat_word_ariths)
qed

lemma handle_chain_le: "handle_chain n hs e \<Longrightarrow> n \<le> e"
  by (induction hs arbitrary: n) (auto, fastforce)

lemma decode_index_metas:
  assumes "handle_chain (unat prev) (map dbm_handle metas) (unat (bh_offset fh))"
  shows "decode_index fh prev (map Ok (index_kvs metas)) acc =
    Ok (acc @ zip (map fst (index_kvs metas)) (map dbm_handle metas), bh_offset fh)"
  using assms
proof (induction metas arbitrary: prev acc)
  case Nil
  then show ?case by (simp add: word_unat_eq_iff)
next
  case (Cons m metas)
  let ?h = "dbm_handle m"
  have off: "bh_offset ?h = prev" and sz: "bh_size ?h \<noteq> 0"
    and rest: "handle_chain (unat prev + unat (bh_size ?h)) (map dbm_handle metas) (unat (bh_offset fh))"
    using Cons.prems by (auto simp: word_unat_eq_iff)
  have le: "unat (bh_offset ?h) + unat (bh_size ?h) \<le> unat (bh_offset fh)" using handle_chain_le [OF rest] off by simp
  note add = checked_add_u64_sum [OF le]
  have lt: "unat (bh_offset ?h) + unat (bh_size ?h) < 2 ^ 64" using le unat_lt2p [of "bh_offset fh"] by simp
  have "length (bh_encode ?h) \<le> usize_max"
    using length_varint(2) [of "bh_offset ?h"] length_varint(2) [of "bh_size ?h"] by (simp add: bh_encode_varints usize_max_def)
  then have dec: "bh_decode (bh_encode ?h) = Ok (?h, length (bh_encode ?h))"
    using bh_decode_encode [of ?h "[]"] lt by simp
  have ih: "decode_index fh (bh_offset ?h + bh_size ?h) (map Ok (index_kvs metas)) acc' =
      Ok (acc' @ zip (map fst (index_kvs metas)) (map dbm_handle metas), bh_offset fh)" for acc'
    using Cons.IH [of "bh_offset ?h + bh_size ?h" acc'] rest add(2) off by simp
  show ?case
    by (simp add: dec validate_handle_Ok [OF sz le] off add(1) [unfolded off] ih [unfolded off])
qed

lemma decode_fixed_handle_slot:
  assumes "slice_get footer start (start + 20) = Some (footer_slot h)" "start + 20 \<le> usize_max"
    and "bh_size h \<noteq> 0" "unat (bh_offset h) + unat (bh_size h) \<le> unat limit"
  shows "decode_fixed_handle footer start limit = Ok h"
proof -
  have lt: "unat (bh_offset h) + unat (bh_size h) < 2 ^ 64" using assms(4) unat_lt2p [of limit] by simp
  have len: "length (footer_slot h) \<le> usize_max" by (simp add: usize_max_def)
  have "bh_decode (footer_slot h) = Ok (h, length (bh_encode h))"
    using bh_decode_encode [of h "replicate (FOOTER_HANDLE_BYTES - length (bh_encode h)) 0"] len lt
    unfolding footer_slot_def by simp
  moreover have "drop (length (bh_encode h)) (footer_slot h) = replicate (FOOTER_HANDLE_BYTES - length (bh_encode h)) 0"
    by (simp add: footer_slot_def)
  ultimately show ?thesis
    using assms validate_handle_Ok [OF assms(3,4)] by (simp add: decode_fixed_handle_def checked_add_usize_def)
qed

definition metadata_bytes :: "table_layout \<Rightarrow> nat" where
  "metadata_bytes L = unat (bh_size (tl_index L)) + unat (bh_size (tl_filter L)) + unat (bh_size (tl_properties_handle L))"

lemma read_footer_Ok:
  assumes tf: "table_file lib snap c L" and mx: "metadata_bytes L \<le> mx" "mx \<le> usize_max"
  shows "read_footer path c mx = Ok \<lparr>tf_version = SSTABLE_FORMAT_VERSION, tf_index = tl_index L,
    tf_filter = tl_filter L, tf_properties = tl_properties_handle L\<rparr>"
proof -
  let ?i = "tl_index L" and ?f = "tl_filter L" and ?p = "tl_properties_handle L"
  let ?footer = "encode_footer ?i ?f ?p"
  define st where "st = length c - 72"
  define limit :: u64 where "limit = word_of_nat st"
  have c: "72 \<le> length c" "length c < 2 ^ 64" "take 72 (drop st c) = ?footer" using tf by (auto simp: table_file_def st_def)
  have ulim: "unat limit = st" using c(2) unfolding limit_def st_def by (intro unat_of_nat_eq) simp
  obtain n where ch: "handle_chain n [?f, ?i, ?p] (unat limit)"
    using tf ulim by (auto simp: table_file_def handle_chain_append st_def simp del: handle_chain.simps)
  have le: "unat (bh_offset h) + unat (bh_size h) \<le> unat limit" "bh_size h \<noteq> 0" if "h \<in> {?f, ?i, ?p}" for h
    using handle_chain_facts [OF ch, of h] that by auto
  have sl: "slice_get ?footer 0 20 = Some (footer_slot ?i)" "slice_get ?footer 20 (20 + 20) = Some (footer_slot ?f)"
    "slice_get ?footer 40 (40 + 20) = Some (footer_slot ?p)"
    by (simp_all add: slice_get_def) (simp_all add: encode_footer_def)
  have h: "decode_fixed_handle ?footer 0 limit = Ok ?i" "decode_fixed_handle ?footer 20 limit = Ok ?f"
    "decode_fixed_handle ?footer 40 limit = Ok ?p"
    using decode_fixed_handle_slot [of ?footer 0 ?i limit] decode_fixed_handle_slot [of ?footer 20 ?f limit]
      decode_fixed_handle_slot [of ?footer 40 ?p limit] sl le [of ?i] le [of ?f] le [of ?p] by (simp_all add: usize_max_def)
  have meta: "validate_metadata_handles ?i ?f ?p limit = Ok ()"
    using ch checked_add_u64_sum [OF le(1), of ?f] checked_add_u64_sum [OF le(1), of ?i] checked_add_u64_sum [OF le(1), of ?p]
    by (simp add: validate_metadata_handles_def checked_handle_end_def word_unat_eq_iff)
  have alloc: "validate_metadata_allocation_limit ?i ?f ?p mx = Ok ()"
  proof -
    have u: "unat (word_of_nat mx :: u64) = mx" using mx(2) by (intro unat_of_nat_eq) (simp add: usize_max_def)
    have "unat (bh_size ?i) + unat (bh_size ?f) \<le> unat (word_of_nat mx :: u64)" using mx(1) u by (simp add: metadata_bytes_def)
    note a = checked_add_u64_sum [OF this]
    have "unat (bh_size ?i + bh_size ?f) + unat (bh_size ?p) \<le> unat (word_of_nat mx :: u64)"
      using mx(1) u a(2) by (simp add: metadata_bytes_def)
    note b = checked_add_u64_sum [OF this]
    have "checked_add_u64 0 (bh_size ?i) = Some (bh_size ?i)"
      using unat_lt2p [of "bh_size ?i"] by (simp add: checked_add_u64_def)
    with a b mx u show ?thesis
      by (simp add: validate_metadata_allocation_limit_def u64_try_from_def usize_max_def word_less_nat_alt metadata_bytes_def)
  qed
  have ver: "u32_from_le (take 4 (drop 60 ?footer)) = SSTABLE_FORMAT_VERSION" "drop 64 ?footer = SSTABLE_MAGIC"
    by (simp_all add: encode_footer_def)
  show ?thesis
    using c(1) ver h meta alloc
    by (simp add: read_footer_def Let_def SSTABLE_FOOTER_BYTES_def c(3) SSTABLE_MAGIC_def flip: st_def limit_def)
qed

lemma read_cached_metadata_Ok:
  assumes "ctx_ok tables rc" "stored_at lib c h payload NO_COMPRESSION" "Q payload"
    and "\<And>n v. cached \<Longrightarrow> num = Some n \<Longrightarrow> cached_ok tables (n, bh_offset h, kind) v \<Longrightarrow> Q v"
  obtains p miss rc' where "read_cached_metadata lib path c num cached h kind rc = (Ok (p, miss), rc')" "ctx_ok tables rc'" "Q p"
proof -
  from read_stored [OF assms(2), of path] have rd: "read_metadata_block lib path c h = Ok payload"
    by (auto simp: read_metadata_block_def)
  from assms(1) show ?thesis
  proof (rule rd_cache_hit_or_fill [where cached = cached and num = num and off = "bh_offset h" and kind = kind])
    fix v rc' n
    assume "rd_cache_get cached num (bh_offset h) kind rc = (Ok (Some v), rc')" "cached" "num = Some n"
      "cached_ok tables (n, bh_offset h, kind) v" "ctx_ok tables rc'"
    with assms(4) that [of v False rc'] show ?thesis by (simp add: read_cached_metadata_def rd_bind_def)
  next
    fix rc'
    assume "rd_cache_get cached num (bh_offset h) kind rc = (Ok None, rc')" "ctx_ok tables rc'"
    with assms(3) rd that [of payload True rc'] show ?thesis by (simp add: read_cached_metadata_def rd_bind_def)
  qed
qed

lemma table_file_properties:
  assumes tf: "table_file lib snap c L" and pr: "encode_properties (tl_properties L) = Ok props" "length props \<le> usize_max"
  shows "decode_properties props = Ok (tl_properties L)"
proof (rule decode_encode_properties [OF pr])
  let ?P = "tl_properties L" and ?es = "tl_entries L"
  note e = table_file_entries [OF tf]
  have ne: "?es \<noteq> []" and sl: "tp_smallest ?P = fst (hd ?es)" "tp_largest ?P = fst (last ?es)"
    and cnt: "unat (tp_entries ?P) = length ?es" "unat (tp_data_blocks ?P) = length (tl_metas L)"
    using tf by (auto simp: table_file_def)
  show "wf_key (tp_smallest ?P)" "wf_key (tp_largest ?P)" using e(2) ne sl by simp_all
  have "ik_encoded (fst (hd ?es)) \<le> ik_encoded (fst (last ?es))"
    using e(1) ne by (cases ?es) (auto intro: less_imp_le)
  then show "\<not> ik_less (tp_largest ?P) (tp_smallest ?P)" using sl by (simp add: ik_less_def)
  show "tp_entries ?P \<noteq> 0" using ne cnt(1) by auto
  have "tl_metas L \<noteq> []"
    using ne e(3) table_file_metas(1) [OF tf] by (cases "tl_blocks L") (auto simp: raw_kvs_def)
  then show "tp_data_blocks ?P \<noteq> 0" using cnt(2) by auto
  from \<open>tl_metas L \<noteq> []\<close> obtain m kvs where "(m, kvs) \<in> set (zip (tl_metas L) (tl_blocks L))"
    using table_file_metas(1) [OF tf] by (cases "tl_metas L"; cases "tl_blocks L") auto
  from table_file_metas(2) [OF tf this] obtain payload where "block_holds payload kvs"
    "length payload \<le> unat (tp_max_data_block_bytes ?P)" by (auto simp: meta_ok_def)
  then show "tp_max_data_block_bytes ?P \<noteq> 0" by (auto dest: block_holds_nonempty)
qed

definition options_admit :: "table_reader_options \<Rightarrow> table_layout \<Rightarrow> bool" where
  "options_admit options L \<longleftrightarrow>
    (let mx = tro_max_uncompressed_data_block_bytes options in
     unat (tp_max_data_block_bytes (tl_properties L)) \<le> mx \<and> mx + mx div 6 + 37 \<le> usize_max \<and>
     metadata_bytes L \<le> tro_max_metadata_bytes options \<and> tro_max_metadata_bytes options \<le> usize_max)"

text \<open>The reader that opening a table returns.\<close>

definition opened ::
  "path \<Rightarrow> bytes \<Rightarrow> table_reader_options \<Rightarrow> u64 option \<Rightarrow> bool \<Rightarrow> bool \<Rightarrow> table_layout \<Rightarrow> table_reader" where
  "opened path c options num cached with_stats L = \<lparr>tr_path = path, tr_file = c, tr_file_size = word_of_nat (length c),
    tr_data_end = bh_offset (tl_filter L),
    tr_index = zip (map fst (index_kvs (tl_metas L))) (map dbm_handle (tl_metas L)), tr_filter = tl_bloom L,
    tr_properties = tl_properties L,
    tr_max_uncompressed_data_block_bytes = tro_max_uncompressed_data_block_bytes options,
    tr_file_number = num, tr_cache = cached, tr_stats = with_stats, tr_user_key_filter = True\<rparr>"

lemma open_handle_Ok:
  assumes tf: "table_file lib snap c L" and opt: "options_admit options L" and ctx: "ctx_ok tables rc"
    and num: "\<And>n. num = Some n \<Longrightarrow> tp_file_number (tl_properties L) = n \<and> (cached \<longrightarrow> tables n = Some L)"
  shows "\<exists>rc'. open_handle lib path c options num cached with_stats rc =
    (Ok (opened path c options num cached with_stats L), rc') \<and> ctx_ok tables rc'"
proof -
  let ?P = "tl_properties L" and ?mx = "tro_max_uncompressed_data_block_bytes options"
  from tf obtain index props bits where
    ix: "block_holds index (index_kvs (tl_metas L))" "stored_at lib c (tl_index L) index NO_COMPRESSION" and
    fl: "stored_at lib c (tl_filter L) (bf_encoded (tl_bloom L)) NO_COMPRESSION"
      "bf_from_keys (map (\<lambda>e. ik_user_key (fst e)) (tl_entries L)) bits = Ok (tl_bloom L)" and
    pr: "encode_properties ?P = Ok props" "stored_at lib c (tl_properties_handle L) props NO_COMPRESSION"
    by (auto simp: table_file_def)
  have ne: "tl_entries L \<noteq> []" using tf by (simp add: table_file_def)
  have bd: "bf_decode (bf_encoded (tl_bloom L)) = Ok (tl_bloom L)"
    using bf_from_keys_sound [OF fl(2)] ne by (cases "tl_entries L") auto
  have footer: "read_footer path c (tro_max_metadata_bytes options) = Ok \<lparr>tf_version = SSTABLE_FORMAT_VERSION,
      tf_index = tl_index L, tf_filter = tl_filter L, tf_properties = tl_properties_handle L\<rparr>"
    using opt by (intro read_footer_Ok [OF tf]) (simp_all add: options_admit_def Let_def)
  obtain ip im rc1 where i: "read_cached_metadata lib path c num cached (tl_index L) IndexBlock rc = (Ok (ip, im), rc1)"
    "ctx_ok tables rc1" "block_holds ip (index_kvs (tl_metas L))"
  proof (rule read_cached_metadata_Ok [OF ctx ix(2), where cached = cached and num = num and kind = IndexBlock and path = path
        and Q = "\<lambda>p. block_holds p (index_kvs (tl_metas L))"])
    show "block_holds v (index_kvs (tl_metas L))" if "cached" "num = Some n" "cached_ok tables (n, bh_offset (tl_index L), IndexBlock) v" for n v
      using that num by (auto simp: cached_ok_def)
  qed (use ix(1) that in auto)
  obtain fp fm rc2 where f: "read_cached_metadata lib path c num cached (tl_filter L) FilterBlock rc1 = (Ok (fp, fm), rc2)"
    "ctx_ok tables rc2" "fp = bf_encoded (tl_bloom L)"
  proof (rule read_cached_metadata_Ok [OF i(2) fl(1), where cached = cached and num = num and kind = FilterBlock and path = path
        and Q = "\<lambda>p. p = bf_encoded (tl_bloom L)"])
    show "v = bf_encoded (tl_bloom L)" if "cached" "num = Some n" "cached_ok tables (n, bh_offset (tl_filter L), FilterBlock) v" for n v
      using that num by (auto simp: cached_ok_def)
  qed (use that in auto)
  have plen: "length props \<le> usize_max"
    using read_stored [OF pr(2), of path] unat_lt2p [of "bh_size (tl_properties_handle L)"] by (auto simp: usize_max_def)
  have rp: "read_metadata_block lib path c (tl_properties_handle L) = Ok props"
    using read_stored [OF pr(2), of path] by (auto simp: read_metadata_block_def)
  obtain b where b: "block_decode ip = Ok b" "block_items b = map Ok (index_kvs (tl_metas L))"
    using i(3) by (auto simp: block_holds_def)
  have ipne: "ip \<noteq> []" using b(1) by (auto simp: block_decode_def FIXED_RESTART_BYTES_def)
  have fpne: "bf_encoded (tl_bloom L) \<noteq> []" using bd by (auto simp: bf_decode_def)
  have di: "decode_index (tl_filter L) 0 (block_items b) [] =
      Ok (zip (map fst (index_kvs (tl_metas L))) (map dbm_handle (tl_metas L)), bh_offset (tl_filter L))"
    using decode_index_metas [of 0 "tl_metas L" "tl_filter L", where acc = "[]"] table_file_metas(3) [OF tf] b(2) by simp
  have mne: "tl_metas L \<noteq> []"
    using ne table_file_entries(3) [OF tf] table_file_metas(1) [OF tf] by (cases "tl_blocks L") (auto simp: raw_kvs_def)
  obtain rc3 where r3: "rd_fill im cached num (bh_offset (tl_index L)) IndexBlock ip rc2 = (Ok (), rc3)" "ctx_ok tables rc3"
    using rd_cache_fill [OF f(2), where cached = cached and num = num and off = "bh_offset (tl_index L)" and kind = IndexBlock
        and v = ip and miss = im] num i(3) ipne by (auto simp: cached_ok_def)
  obtain rc4 where r4: "rd_fill fm cached num (bh_offset (tl_filter L)) FilterBlock fp rc3 = (Ok (), rc4)" "ctx_ok tables rc4"
    using rd_cache_fill [OF r3(2), where cached = cached and num = num and off = "bh_offset (tl_filter L)" and kind = FilterBlock
        and v = fp and miss = fm] num f(3) fpne by (auto simp: cached_ok_def)
  have mx: "unat (tp_max_data_block_bytes ?P) \<le> ?mx" "?mx < 2 ^ 64" using opt by (auto simp: options_admit_def Let_def usize_max_def)
  have umx: "unat (word_of_nat ?mx :: u64) = ?mx" using mx(2) by (intro unat_of_nat_eq) simp
  have tmx: "u64_try_from ?mx = Some (word_of_nat ?mx)" using mx(2) by (simp add: u64_try_from_def)
  have db: "unat (tp_data_blocks ?P) = length (tl_metas L)" using tf by (simp add: table_file_def)
  then have dbw: "u64_try_from (length (tl_metas L)) = Some (tp_data_blocks ?P)"
    using unat_lt2p [of "tp_data_blocks ?P"] by (simp add: u64_try_from_def flip: db)
  have fnum: "(case num of Some expected \<Rightarrow> tp_file_number ?P \<noteq> expected | None \<Rightarrow> False) = False"
    using num by (auto split: option.splits)
  have "open_handle lib path c options num cached with_stats rc = (Ok (opened path c options num cached with_stats L), rc4)"
    using i(1) f(1,3) r3(1) r4(1) b(1) fnum mx(1) umx
    by (simp add: open_handle_def rd_bind_def footer rp di bd table_file_properties [OF tf pr(1) plen] Let_def mne dbw
        tmx word_less_nat_alt opened_def SSTABLE_FORMAT_VERSION_def)
  with r4(2) show ?thesis by blast
qed

text \<open>Without a newer version of the key in the table no read of it is split.\<close>

lemma read_splits_newer:
  assumes tf: "table_file lib snap c L" and split: "read_splits L u s"
  shows "\<exists>(k, v) \<in> set (tl_entries L). ik_user_key k = u \<and> s < ik_sequence k"
proof -
  from split obtain kvs where "kvs \<in> set (butlast (tl_blocks L))"
    "case ik_decode (fst (last kvs)) of Inr k \<Rightarrow> ik_user_key k = u \<and> s < ik_sequence k | Inl _ \<Rightarrow> False"
    by (auto simp: read_splits_def)
  then obtain k where kvs: "kvs \<in> set (butlast (tl_blocks L))" "ik_decode (fst (last kvs)) = Ok k"
    "ik_user_key k = u" "s < ik_sequence k" by (cases "ik_decode (fst (last kvs))") auto
  then have "kvs \<in> set (tl_blocks L)" by (blast dest: in_set_butlastD)
  then obtain m where "(m, kvs) \<in> set (zip (tl_metas L) (tl_blocks L))"
    using table_file_metas(1) [OF tf] by (metis in_set_impl_in_set_zip2)
  then have "kvs \<noteq> []" using table_file_metas(2) [OF tf] by (auto simp: meta_ok_def)
  with \<open>kvs \<in> set (tl_blocks L)\<close> have "last kvs \<in> set (concat (tl_blocks L))"
    using last_in_set by force
  then obtain a v where a: "(a, v) \<in> set (tl_entries L)" "fst (last kvs) = ik_encoded a"
    by (auto simp: table_file_entries(3) [OF tf] raw_kvs_def)
  then have "k = a" using kvs(2) table_file_entries(2) [OF tf] by (auto simp: wf_key_def)
  with a kvs(3,4) show ?thesis by blast
qed

lemma fs_open_read_os:
  assumes "os_files fs path = Some c"
  obtains fs' where "fs_open_read path fs = (Inr c, fs')"
proof -
  have "os_files (seed_durable_file path c fs) = os_files fs" by (simp add: seed_durable_file_def Let_def)
  with assms that show ?thesis by (cases "is_tracked fs path") (simp_all add: fs_open_read_def seed_existing_file_def)
qed

lemma opened_ok:
  assumes "table_file lib snap c L" "options_admit options L"
    and "\<And>n. num = Some n \<Longrightarrow> cached \<Longrightarrow> tables n = Some L"
  shows "reader_ok lib snap tables L (opened path c options num cached with_stats L)"
  using assms by (auto simp: reader_ok_def opened_def options_admit_def Let_def)

lemma tr_open_cached_Ok:
  assumes tf: "table_file lib snap c L" and opt: "options_admit options L" and ctx: "ctx_ok tables rc"
    and os: "os_files fs path = Some c" and num: "tp_file_number (tl_properties L) = n" "tables n = Some L"
  obtains tr fs' rc' where "tr_open_cached lib path n options fs rc = (Ok tr, fs', rc')"
    "reader_ok lib snap tables L tr" "ctx_ok tables rc'" "tr_properties tr = tl_properties L"
proof -
  obtain fs' where fs': "fs_open_read path fs = (Inr c, fs')" by (rule fs_open_read_os [OF os])
  from open_handle_Ok [OF tf opt ctx, of "Some n" True path True] num obtain rc' where
    rc': "open_handle lib path c options (Some n) True True rc = (Ok (opened path c options (Some n) True True L), rc')"
    "ctx_ok tables rc'" by auto
  have nz: "tro_max_uncompressed_data_block_bytes options \<noteq> 0" "tro_max_metadata_bytes options \<noteq> 0"
  proof -
    obtain m kvs where "(m, kvs) \<in> set (zip (tl_metas L) (tl_blocks L))"
      using tf table_file_metas(1) [OF tf] table_file_entries(3) [OF tf]
      by (cases "tl_blocks L"; cases "tl_metas L") (auto simp: table_file_def raw_kvs_def)
    from table_file_metas(2) [OF tf this] obtain payload where "block_holds payload kvs"
      "length payload \<le> unat (tp_max_data_block_bytes (tl_properties L))" by (auto simp: meta_ok_def)
    then have "0 < unat (tp_max_data_block_bytes (tl_properties L))"
      by (metis block_holds_nonempty length_greater_0_conv order_less_le_trans)
    then show "tro_max_uncompressed_data_block_bytes options \<noteq> 0" using opt by (auto simp: options_admit_def Let_def)
    have "bh_size (tl_index L) \<noteq> 0" using tf by (auto simp: table_file_def handle_chain_append)
    then have "0 < unat (bh_size (tl_index L))" by (simp add: unat_gt_0)
    then show "tro_max_metadata_bytes options \<noteq> 0"
      using opt by (auto simp: options_admit_def metadata_bytes_def Let_def)
  qed
  have "reader_ok lib snap tables L (opened path c options (Some n) True True L)"
    using num(2) by (intro opened_ok [OF tf opt]) simp
  with fs' rc' nz that show ?thesis
    by (force simp: tr_open_cached_def tr_open_internal_def opened_def)
qed

end
