(* ===== verification/Sst_Table.thy ===== *)
theory Sst_Table
  imports Sst_Reader
begin

text \<open>
  Whole tables: what the builder writes is what the reader returns, through a shared cache, and
  the inspection of a table.  A concrete table shows the hypotheses can be met, and shows a lookup
  that misses a visible version.
\<close>

section \<open>A sample table\<close>

text \<open>
  Two versions of one key, one block each.  The checksum is a constant and the codec stores its
  input; both meet what is assumed of the libraries.
\<close>

definition toy_crc :: crc_lib where
  "toy_crc = \<lparr>crc32c = \<lambda>bs. 0, crc32c_append = \<lambda>c bs. c\<rparr>"

definition toy_snap :: snap_lib where
  "toy_snap = \<lparr>snap_compress = Some, snap_decompress_len = \<lambda>bs. Some (length bs), snap_decompress = Some\<rparr>"

lemma toy_snap_lossless: "snap_lossless toy_snap"
  by (simp add: snap_lossless_def toy_snap_def)

definition sample_new :: internal_key where
  "sample_new = \<lparr>ik_encoded = [97, 0, 0, 255, 255, 255, 255, 255, 255, 250, 239, 1], ik_user_key = [97]\<rparr>"

definition sample_old :: internal_key where
  "sample_old = \<lparr>ik_encoded = [97, 0, 0, 255, 255, 255, 255, 255, 255, 254, 255, 1], ik_user_key = [97]\<rparr>"

lemma sample_keys: "ik_try_new [97] 0x510 Value = Ok sample_new" "ik_try_new [97] 0x100 Value = Ok sample_old"
  by (simp_all add: ik_try_new_def sample_new_def sample_old_def MAX_SEQUENCE_NUMBER_def u64_max_def u64_to_be_def
      u64_to_le_def nat_to_le_numeral)

lemmas sample_wf = sample_keys [THEN ik_try_new_Ok]

definition sample_entries :: "raw_entry list" where
  "sample_entries = [(sample_new, [1]), (sample_old, [2])]"

definition sample_fs :: fs where
  "sample_fs = snd (fs_create [''t''] (fs_recording Map.empty))"

definition sample_tb :: table_builder where
  "sample_tb = expect (fst (tb_create [''t''] 7 1 1 10 NoCompression (fs_recording Map.empty)))"

lemmas sample_create_defs = tb_create_def sample_tb_def sample_fs_def bb_try_new_def fs_create_def fs_recording_def
  observe_def track_new_file_def Let_def

lemmas sample_add_defs = sample_create_defs tb_add_def tb_get_def tb_bind_def tb_return_def tb_modify_def
  tb_add_pending_def bb_add_def arith_defs put_varint_append varint_simps usize_max_def sample_new_def sample_old_def
  sample_entries_def

lemmas sample_write_defs = tb_flush_data_block_def bb_finish_def tb_write_payload_def stored_payload_def
  encode_stored_block_def validate_compression_def NO_COMPRESSION_def tb_write_raw_def u32_to_le_def nat_to_le_numeral
  BLOCK_TRAILER_BYTES_def block_masked_checksum_def block_checksum_def CHECKSUM_MASK_DELTA_def toy_crc_def
  fs_write_all_def record_write_def

lemma sample_table_create: "tb_create [''t''] 7 1 1 10 NoCompression (fs_recording Map.empty) = (Ok sample_tb, sample_fs)"
  by (simp add: sample_create_defs)

definition sample_full :: table_builder where
  "sample_full = fst (snd (tb_adds toy_crc toy_snap sample_entries sample_tb sample_fs))"

definition sample_full_fs :: fs where
  "sample_full_fs = snd (snd (tb_adds toy_crc toy_snap sample_entries sample_tb sample_fs))"

lemma sample_adds: "tb_adds toy_crc toy_snap sample_entries sample_tb sample_fs = (Ok (), sample_full, sample_full_fs)"
  by (simp add: sample_full_def sample_full_fs_def sample_add_defs sample_write_defs)

lemma sample_bloom: "\<exists>B. bf_from_keys [[97], [97]] 10 = Ok B \<and> length (bf_encoded B) = 9"
proof -
  obtain B where B: "bf_from_keys [[97], [97]] 10 = Ok B"
    by (simp add: bf_from_keys_def arith_defs usize_max_def Let_def MINIMUM_FILTER_BITS_def)
  obtain n bits where "length bits = n" "B = \<lparr>bf_encoded = bits @ [probe_count 10], bf_bit_count = 8 * n\<rparr>"
    "n = (max (length [[97 :: u8], [97]] * unat (10 :: u8)) 64 + 7) div 8"
    by (rule bf_from_keys_Ok [OF B])
  then have "length (bf_encoded B) = 9" by simp
  with B show ?thesis by blast
qed

lemma sample_full_eq: "sample_full = sample_tb\<lparr>tb_offset := 29, tb_block := Some \<lparr>bb_restart_interval = 1,
      bb_entries_since_restart = 1, bb_entries = [0, 12, 1, 97, 0, 0, 255, 255, 255, 255, 255, 255, 254, 255, 1, 2],
      bb_restarts = [0], bb_previous_key = ik_encoded sample_old, bb_entry_count = 1\<rparr>, tb_pending_bytes := 13,
    tb_pending_first := Some (ik_encoded sample_old), tb_pending_last := Some (ik_encoded sample_old),
    tb_previous_key := Some (ik_encoded sample_old), tb_filter_keys := [[97], [97]],
    tb_data_blocks := [\<lparr>dbm_first = ik_encoded sample_new, dbm_last = ik_encoded sample_new,
      dbm_handle = \<lparr>bh_offset = 0, bh_size = 29\<rparr>\<rparr>],
    tb_entries := 2, tb_smallest := Some sample_new, tb_largest := Some sample_old, tb_max_data_block_bytes := 24\<rparr>"
  by (simp add: sample_full_def sample_add_defs sample_write_defs)

lemma sample_finish:
  "\<exists>r tb fs. tb_finish toy_crc toy_snap sample_full sample_full_fs = (Ok r, tb, fs) \<and>
    unat (tb_max_data_block_bytes tb) \<le> 64 \<and> tb_data_blocks tb =
      [\<lparr>dbm_first = ik_encoded sample_new, dbm_last = ik_encoded sample_new, dbm_handle = \<lparr>bh_offset = 0, bh_size = 29\<rparr>\<rparr>,
       \<lparr>dbm_first = ik_encoded sample_old, dbm_last = ik_encoded sample_old, dbm_handle = \<lparr>bh_offset = 29, bh_size = 29\<rparr>\<rparr>]"
proof -
  obtain B where B: "bf_from_keys [[97], [97]] 10 = Ok B" "length (bf_encoded B) = 9" using sample_bloom by blast
  show ?thesis
    by (simp add: sample_full_eq sample_full_fs_def sample_add_defs sample_write_defs tb_finish_def B
      shortest_separator_def bh_encode_varints
      encode_properties_def put_property_key_def compression_marker_def footer_slot_def encode_footer_def SSTABLE_FORMAT_VERSION_def
      FOOTER_HANDLE_BYTES_def tb_sync_def fs_sync_all_def record_file_sync_def SSTABLE_MAGIC_def)
qed
section \<open>What is built is what is read\<close>

text \<open>What the builder tells about the limits a reader needs.\<close>

definition layout_size :: "table_layout \<Rightarrow> table_builder \<Rightarrow> table_build_result \<Rightarrow> bool" where
  "layout_size L tb r \<longleftrightarrow> tp_max_data_block_bytes (tl_properties L) = tb_max_data_block_bytes tb \<and>
    metadata_bytes L \<le> unat (tbr_file_size r)"

lemma metadata_bytes_le:
  assumes "table_file lib snap c L"
  shows "metadata_bytes L \<le> length c"
proof -
  obtain n where "handle_chain n [tl_filter L, tl_index L, tl_properties_handle L] (length c - 72)"
    using assms by (auto simp: table_file_def handle_chain_append simp del: handle_chain.simps)
  then show ?thesis by (auto simp: metadata_bytes_def)
qed

lemma built_table:
  assumes "tb_create path n block_bytes restart_interval bits cmp fs = (Ok tb0, fs0)"
    and "tb_adds lib snap es tb0 fs0 = (Ok (), tb1, fs1)" "tb_finish lib snap tb1 fs1 = (Ok r, tb2, fs2)"
    and wf: "\<forall>(k, v) \<in> set es. wf_key k"
  obtains c L where "table_file lib snap c L" "os_files fs2 path = Some c" "tl_entries L = es"
    "tl_metas L = tb_data_blocks tb2" "tp_file_number (tl_properties L) = n"
    "layout_size L tb2 r"
proof -
  note inv0 = tb_create_inv [OF assms(1)]
  from tb_adds_Ok [OF assms(2) inv0(1) wf] obtain c1 B1 p1 where
    inv1: "tb_inv lib snap tb1 fs1 c1 B1 p1 es" "tb_config tb1 = tb_config tb0" by auto
  from tb_finish_Ok [OF assms(3) inv1(1)] obtain C L where tf: "table_file lib snap C L"
    and L: "os_files fs2 (tb_path tb1) = Some C" "tl_entries L = es" "tl_metas L = tb_data_blocks tb2"
    "tp_file_number (tl_properties L) = tb_file_number tb1"
    "tp_max_data_block_bytes (tl_properties L) = tb_max_data_block_bytes tb2" "tbr_file_size r = word_of_nat (length C)"
    by (metis table_properties.select_convs(1,7) table_build_result.select_convs(2))
  have "unat (tbr_file_size r) = length C"
    using tf L(6) by (auto simp: table_file_def intro!: unat_of_nat_eq)
  with L metadata_bytes_le [OF tf] have "layout_size L tb2 r" by (simp add: layout_size_def)
  moreover have "tb_path tb1 = path" "tb_file_number tb1 = n"
    using inv0(2) inv1(2) by (auto simp: tb_config_def)
  ultimately show ?thesis using that [OF tf] L by simp
qed

text \<open>
  C4. A table that was built without an error is read back completely: opened through any
  coherent shared cache under limits that admit it, its iterator yields exactly the entries that
  were added, in order and without an error, and an exact lookup returns the value of every key of
  the table and nothing for any other key.
\<close>

theorem table_roundtrip:
  assumes "tb_create path n block_bytes restart_interval bits cmp fs = (Ok tb0, fs0)"
    and "tb_adds lib snap es tb0 fs0 = (Ok (), tb1, fs1)" "tb_finish lib snap tb1 fs1 = (Ok r, tb2, fs2)"
    and "\<forall>(k, v) \<in> set es. wf_key k" "snap_lossless snap"
  shows "\<exists>L. tl_entries L = es \<and> layout_size L tb2 r \<and> (\<forall>options tables rc. options_admit options L \<longrightarrow> ctx_ok tables rc \<longrightarrow>
    tables n = Some L \<longrightarrow> (\<exists>tr fs' rc'. tr_open_cached lib path n options fs2 rc = (Ok tr, fs', rc') \<and>
      fst (ti_collect lib snap tr ti_new rc') = map Ok es \<and>
      (\<forall>key. wf_key key \<longrightarrow> fst (tr_get lib snap tr key rc') = Ok (map_of es key))))"
proof -
  obtain c L where L: "table_file lib snap c L" "os_files fs2 path = Some c" "tl_entries L = es"
    "tp_file_number (tl_properties L) = n" "layout_size L tb2 r"
    by (rule built_table [OF assms(1-4)])
  have "\<exists>tr fs' rc'. tr_open_cached lib path n options fs2 rc = (Ok tr, fs', rc') \<and>
      fst (ti_collect lib snap tr ti_new rc') = map Ok es \<and>
      (\<forall>key. wf_key key \<longrightarrow> fst (tr_get lib snap tr key rc') = Ok (map_of es key))"
    if h: "options_admit options L" "ctx_ok tables rc" "tables n = Some L" for options tables rc
  proof -
    obtain tr fs' rc' where o: "tr_open_cached lib path n options fs2 rc = (Ok tr, fs', rc')"
      "reader_ok lib snap tables L tr" "ctx_ok tables rc'"
      by (rule tr_open_cached_Ok [OF L(1) h(1,2) L(2,4) h(3)])
    from ti_collect_all [OF o(2,3) assms(5)] tr_get_Ok [OF o(2,3) assms(5)] o(1) L(3) show ?thesis by fastforce
  qed
  with L(3,5) show ?thesis by blast
qed


lemma sample_wf_entries: "\<forall>(k, v) \<in> set sample_entries. wf_key k"
  using sample_wf by (simp add: sample_entries_def)

definition sample_options :: table_reader_options where
  "sample_options = \<lparr>tro_max_uncompressed_data_block_bytes = 64, tro_max_metadata_bytes = usize_max\<rparr>"

definition sample_ctx :: read_ctx where
  "sample_ctx = \<lparr>rc_cache = expect (bc_new 1000), rc_stats = rs_default\<rparr>"

lemma sample_ctx_ok: "ctx_ok tables sample_ctx"
  unfolding ctx_ok_def sample_ctx_def
  by (simp, rule bc_coherent_new [of 1000]) (simp_all add: bc_new_def Let_def cached_ok_def)

lemma sample_admits:
  assumes "layout_size L tb r" "unat (tb_max_data_block_bytes tb) \<le> 64"
  shows "options_admit sample_options L"
  using assms unat_lt2p [of "tbr_file_size r"]
  by (auto simp: options_admit_def sample_options_def layout_size_def usize_max_def Let_def)

theorem table_roundtrip_witness:
  "\<exists>r tb fs tr fs' rc'. tb_finish toy_crc toy_snap sample_full sample_full_fs = (Ok r, tb, fs) \<and>
    tr_open_cached toy_crc [''t''] 7 sample_options fs sample_ctx = (Ok tr, fs', rc') \<and>
    fst (ti_collect toy_crc toy_snap tr ti_new rc') = map Ok sample_entries"
proof -
  obtain r tb fs where fin: "tb_finish toy_crc toy_snap sample_full sample_full_fs = (Ok r, tb, fs)"
    and mx: "unat (tb_max_data_block_bytes tb) \<le> 64"
    using sample_finish by blast
  from table_roundtrip [OF sample_table_create sample_adds fin sample_wf_entries toy_snap_lossless] obtain L where
    L: "layout_size L tb r" "\<forall>options tables rc. options_admit options L \<longrightarrow> ctx_ok tables rc \<longrightarrow>
      tables 7 = Some L \<longrightarrow> (\<exists>tr fs' rc'. tr_open_cached toy_crc [''t''] 7 options fs rc = (Ok tr, fs', rc') \<and>
        fst (ti_collect toy_crc toy_snap tr ti_new rc') = map Ok sample_entries \<and>
        (\<forall>key. wf_key key \<longrightarrow> fst (tr_get toy_crc toy_snap tr key rc') = Ok (map_of sample_entries key)))" by blast
  from L(2) [rule_format, OF sample_admits [OF L(1) mx] sample_ctx_ok, of "[7 \<mapsto> L]"] fin show ?thesis by auto
qed


section \<open>A lookup that misses a visible version\<close>

text \<open>
  \<open>shortest_separator\<close> shortens the last key of a block inside the sequence number when the
  next block starts with an older version of the same user key.  A read between the two sequence
  numbers can then compare below the separator, so that only the first block is searched.
\<close>

lemma sample_layout:
  assumes tf: "table_file lib snap c L" and es: "tl_entries L = sample_entries" and ms: "tl_metas L = [m1, m2]"
  shows "tl_blocks L = [[(ik_encoded sample_new, [1])], [(ik_encoded sample_old, [2])]]"
proof -
  obtain k1 k2 where B: "tl_blocks L = [k1, k2]"
    using table_file_metas(1) [OF tf] ms by (cases "tl_blocks L"; cases "tl (tl_blocks L)") auto
  have "k1 \<noteq> []" "k2 \<noteq> []"
    using table_file_metas(2) [OF tf, of m1 k1] table_file_metas(2) [OF tf, of m2 k2] ms B by (auto simp: meta_ok_def)
  moreover have "k1 @ k2 = [(ik_encoded sample_new, [1]), (ik_encoded sample_old, [2])]"
    using table_file_entries(3) [OF tf] es B by (simp add: sample_entries_def)
  ultimately have "k1 = [(ik_encoded sample_new, [1])] \<and> k2 = [(ik_encoded sample_old, [2])]"
    by (auto simp: append_eq_Cons_conv)
  with B show ?thesis by simp
qed

definition sample_metas :: "data_block_meta list" where
  "sample_metas =
    [\<lparr>dbm_first = ik_encoded sample_new, dbm_last = ik_encoded sample_new, dbm_handle = \<lparr>bh_offset = 0, bh_size = 29\<rparr>\<rparr>,
     \<lparr>dbm_first = ik_encoded sample_old, dbm_last = ik_encoded sample_old, dbm_handle = \<lparr>bh_offset = 29, bh_size = 29\<rparr>\<rparr>]"

lemma sample_reader:
  "\<exists>r tb fs L tr fs' rc. tb_finish toy_crc toy_snap sample_full sample_full_fs = (Ok r, tb, fs) \<and>
    tr_open_cached toy_crc [''t''] 7 sample_options fs sample_ctx = (Ok tr, fs', rc) \<and>
    reader_ok toy_crc toy_snap [7 \<mapsto> L] L tr \<and> ctx_ok [7 \<mapsto> L] rc \<and> tl_entries L = sample_entries \<and>
    tl_metas L = sample_metas"
proof -
  obtain r tb fs where fin: "tb_finish toy_crc toy_snap sample_full sample_full_fs = (Ok r, tb, fs)"
    and mx: "unat (tb_max_data_block_bytes tb) \<le> 64" and blocks: "tb_data_blocks tb = sample_metas"
    using sample_finish unfolding sample_metas_def by blast
  obtain c L where L: "table_file toy_crc toy_snap c L" "os_files fs [''t''] = Some c" "tl_entries L = sample_entries"
    "tl_metas L = tb_data_blocks tb" "tp_file_number (tl_properties L) = 7" "layout_size L tb r"
    by (rule built_table [OF sample_table_create sample_adds fin sample_wf_entries])
  obtain tr fs' rc' where o: "tr_open_cached toy_crc [''t''] 7 sample_options fs sample_ctx = (Ok tr, fs', rc')"
    "reader_ok toy_crc toy_snap [7 \<mapsto> L] L tr" "ctx_ok [7 \<mapsto> L] rc'"
    by (rule tr_open_cached_Ok [OF L(1) sample_admits [OF L(6) mx] sample_ctx_ok L(2) L(5), of "[7 \<mapsto> L]"]) simp
  with fin L(3,4) blocks show ?thesis by metis
qed

text \<open>
  C5. A snapshot read can miss a version that it should see.  In a table with the versions
  \<open>0x510\<close> and \<open>0x100\<close> of one key in two blocks, the older version is the newest one
  visible at \<open>0x505\<close>, iteration yields it, and \<open>get_visible\<close> at \<open>0x505\<close>
  answers that the key is absent.
\<close>

theorem split_read_lost:
  "\<exists>r tb fs tr fs' rc'. tb_finish toy_crc toy_snap sample_full sample_full_fs = (Ok r, tb, fs) \<and>
    tr_open_cached toy_crc [''t''] 7 sample_options fs sample_ctx = (Ok tr, fs', rc') \<and>
    fst (ti_collect toy_crc toy_snap tr ti_new rc') = map Ok sample_entries \<and>
    newest_visible [97] 0x505 sample_entries = Some (sample_old, [2]) \<and>
    fst (tr_get_visible toy_crc toy_snap tr [97] 0x505 rc') = Ok Absent"
proof -
  obtain r tb fs L tr fs' rc' where fin: "tb_finish toy_crc toy_snap sample_full sample_full_fs = (Ok r, tb, fs)"
    and o: "tr_open_cached toy_crc [''t''] 7 sample_options fs sample_ctx = (Ok tr, fs', rc')"
    "reader_ok toy_crc toy_snap [7 \<mapsto> L] L tr" "ctx_ok [7 \<mapsto> L] rc'" and L: "tl_entries L = sample_entries" "tl_metas L = sample_metas"
    using sample_reader by blast
  have tf: "table_file toy_crc toy_snap (tr_file tr) L" using o(2) by (simp add: reader_ok_def)
  note B = sample_layout [OF tf L(1) L(2) [unfolded sample_metas_def]]
  define seek where "seek = \<lparr>ik_encoded = [97, 0, 0, 255, 255, 255, 255, 255, 255, 250, 250, 0], ik_user_key = [97]\<rparr>"
  have seek: "ik_try_new [97] 0x505 Deletion = Inr seek"
    by (simp add: ik_try_new_def seek_def MAX_SEQUENCE_NUMBER_def u64_max_def u64_to_be_def u64_to_le_def nat_to_le_numeral)
  have may: "bf_may_contain (tl_bloom L) [97]"
    using table_bloom [OF tf, of sample_new "[1]"] L(1) sample_wf by (simp add: sample_entries_def)
  have idx: "find (\<lambda>(separator, h). separator \<ge> ik_encoded seek) (tr_index tr) =
      Some ([97, 0, 0, 255, 255, 255, 255, 255, 255, 251], dbm_handle (hd sample_metas))"
    using o(2) L(2)
    by (simp add: reader_ok_def sample_metas_def shortest_separator_def Let_def seek_def sample_new_def sample_old_def)
  have "\<exists>rc2. tr_get_visible toy_crc toy_snap tr [97] 0x505 rc' = (Ok Absent, rc2)"
    using tr_get_visible_block [OF o(2,3) toy_snap_lossless seek may idx, of "[(ik_encoded sample_new, [1])]"]
      L(2) B by (auto simp: seek_def sample_new_def sample_metas_def)
  moreover have "newest_visible [97] 0x505 sample_entries = Some (sample_old, [2])"
    using sample_wf by (simp add: sample_entries_def visible_def)
  moreover have "fst (ti_collect toy_crc toy_snap tr ti_new rc') = map Ok sample_entries"
    using ti_collect_all [OF o(2,3) toy_snap_lossless] L(1) by auto
  ultimately show ?thesis using fin o(1) by auto
qed

end
