(* ===== verification/Sst_Inspect.thy ===== *)
theory Sst_Inspect
  imports Sst_Table "HOL-Library.Sublist"
begin

text \<open>
  The inspection of a table (\<open>TableReader::inspect_with_limits\<close>): every record is read and
  checked, and a bounded part of them is retained for display.
\<close>

section \<open>Definitions\<close>

record sstable_block_inspection =
  sbi_index :: usize
  sbi_offset :: u64
  sbi_size :: u64

record sstable_entry_inspection =
  sei_key_hex :: string
  sei_user_key_hex :: string
  sei_sequence :: sequence_number
  sei_kind :: string
  sei_value_bytes :: usize

record sstable_inspection =
  si_format_version :: u32
  si_file_bytes :: u64
  si_file_number :: u64
  si_entries :: u64
  si_data_blocks :: u64
  si_compression :: string
  si_smallest_key_hex :: string
  si_largest_key_hex :: string
  si_max_data_block_bytes :: u64
  si_engine_value_encoding :: bool
  si_blocks :: "sstable_block_inspection list"
  si_blocks_truncated :: bool
  si_shown :: "sstable_entry_inspection list"
  si_shown_bytes :: usize
  si_bytes_truncated :: bool
  si_truncated :: bool

definition hex_digit :: "nat \<Rightarrow> char" where
  "hex_digit n = ''0123456789abcdef'' ! n"

definition encode_hex :: "bytes \<Rightarrow> string" where
  "encode_hex bs = concat (map (\<lambda>b. [hex_digit (unat b div 16), hex_digit (unat b mod 16)]) bs)"

definition inspect_entry :: "internal_key \<Rightarrow> bytes \<Rightarrow> sstable_entry_inspection" where
  "inspect_entry key v = \<lparr>sei_key_hex = encode_hex (ik_encoded key), sei_user_key_hex = encode_hex (ik_user_key key),
    sei_sequence = ik_sequence key, sei_kind = (case ik_kind key of Value \<Rightarrow> ''value'' | Deletion \<Rightarrow> ''deletion''),
    sei_value_bytes = length v\<rparr>"

record inspect_state =
  is_shown :: "sstable_entry_inspection list"
  is_shown_bytes :: usize
  is_bytes_truncated :: bool
  is_checked_entries :: u64

text \<open>
  The loop over the iterator.  The addition to \<open>shown_bytes\<close> cannot overflow, because the
  checked sum was just compared with the limit.
\<close>

fun inspect_entries :: "usize \<Rightarrow> usize \<Rightarrow> (internal_key \<times> bytes) result list \<Rightarrow> inspect_state \<Rightarrow> inspect_state result" where
  "inspect_entries max_entries max_bytes [] st = Ok st"
| "inspect_entries max_entries max_bytes (item # items) st =
    rbind item (\<lambda>(key, v).
    let st = st\<lparr>is_checked_entries := saturating_add_u64 (is_checked_entries st) 1\<rparr>;
        retained = saturating_add_usize (length (ik_encoded key)) (length (ik_user_key key));
        st = (if length (is_shown st) < max_entries then
                (if (case checked_add_usize (is_shown_bytes st) retained of Some n \<Rightarrow> n \<le> max_bytes | None \<Rightarrow> False)
                 then st\<lparr>is_shown_bytes := is_shown_bytes st + retained, is_shown := is_shown st @ [inspect_entry key v]\<rparr>
                 else st\<lparr>is_bytes_truncated := True\<rparr>)
              else st)
    in inspect_entries max_entries max_bytes items st)"

definition inspect_blocks :: "usize \<Rightarrow> (bytes \<times> block_handle) list \<Rightarrow> sstable_block_inspection list" where
  "inspect_blocks max_blocks index =
    map (\<lambda>(i, (separator, h)). \<lparr>sbi_index = i, sbi_offset = bh_offset h, sbi_size = bh_size h\<rparr>)
      (enumerate 0 (take max_blocks index))"

definition tr_inspect_internal ::
  "crc_lib \<Rightarrow> snap_lib \<Rightarrow> table_reader \<Rightarrow> usize \<Rightarrow> usize \<Rightarrow> usize \<Rightarrow> sstable_inspection rd" where
  "tr_inspect_internal lib snap tr max_entries max_blocks max_bytes rc =
    (let P = tr_properties tr in
     case ok_or (checked_add_usize (length (ik_encoded (tp_smallest P))) (length (ik_encoded (tp_largest P)))) InvalidArgument of
       Inl e \<Rightarrow> (Err e, rc)
     | Inr property_key_bytes \<Rightarrow>
         if property_key_bytes > max_bytes then (Err InvalidArgument, rc)
         else
           let (items, rc) = ti_collect lib snap tr ti_new rc in
           (rbind (inspect_entries max_entries max_bytes items \<lparr>is_shown = [], is_shown_bytes = property_key_bytes,
              is_bytes_truncated = False, is_checked_entries = 0\<rparr>) (\<lambda>st.
            if is_checked_entries st \<noteq> tp_entries P then Err (Corruption PropertiesCtx)
            else Ok \<lparr>si_format_version = 1, si_file_bytes = tr_file_size tr, si_file_number = tp_file_number P,
              si_entries = is_checked_entries st, si_data_blocks = tp_data_blocks P,
              si_compression = (case tp_compression P of NoCompression \<Rightarrow> ''none'' | Snappy \<Rightarrow> ''snappy''),
              si_smallest_key_hex = encode_hex (ik_encoded (tp_smallest P)),
              si_largest_key_hex = encode_hex (ik_encoded (tp_largest P)),
              si_max_data_block_bytes = tp_max_data_block_bytes P,
              si_engine_value_encoding = tp_engine_value_encoding P,
              si_blocks = inspect_blocks max_blocks (tr_index tr),
              si_blocks_truncated = (length (tr_index tr) > max_blocks),
              si_shown = is_shown st, si_shown_bytes = is_shown_bytes st,
              si_bytes_truncated = is_bytes_truncated st,
              si_truncated = (is_checked_entries st > word_of_nat (length (is_shown st)))\<rparr>), rc))"

definition tr_inspect_with_limits ::
  "crc_lib \<Rightarrow> snap_lib \<Rightarrow> table_reader \<Rightarrow> usize \<Rightarrow> usize \<Rightarrow> usize \<Rightarrow> sstable_inspection rd" where
  "tr_inspect_with_limits lib snap tr max_entries max_blocks max_bytes rc =
    (if max_entries = 0 \<or> max_blocks = 0 \<or> max_bytes = 0 then (Err InvalidArgument, rc)
     else tr_inspect_internal lib snap tr max_entries max_blocks max_bytes rc)"

section \<open>Bounds\<close>

lemma inspect_entries_ok:
  assumes "is_shown_bytes st \<le> max_bytes" "length (is_shown st) \<le> max_entries"
    "unat (is_checked_entries st) + length es < 2 ^ 64"
  shows "\<exists>st' ks. inspect_entries max_entries max_bytes (map Ok es) st = Ok st' \<and>
    unat (is_checked_entries st') = unat (is_checked_entries st) + length es \<and>
    is_shown_bytes st' \<le> max_bytes \<and> length (is_shown st') \<le> max_entries \<and>
    subseq ks es \<and> is_shown st' = is_shown st @ map (\<lambda>(k, v). inspect_entry k v) ks"
  using assms
proof (induction es arbitrary: st)
  case Nil
  then show ?case by auto
next
  case (Cons e es)
  obtain k v where e: "e = (k, v)" by fastforce
  define n where "n = saturating_add_usize (length (ik_encoded k)) (length (ik_user_key k))"
  define st1 where "st1 = st\<lparr>is_checked_entries := saturating_add_u64 (is_checked_entries st) 1\<rparr>"
  define fits where "fits \<longleftrightarrow> length (is_shown st) < max_entries \<and>
    (case checked_add_usize (is_shown_bytes st) n of Some m \<Rightarrow> m \<le> max_bytes | None \<Rightarrow> False)"
  define st2 where "st2 = (if fits
    then st1\<lparr>is_shown_bytes := is_shown_bytes st + n, is_shown := is_shown st @ [inspect_entry k v]\<rparr>
    else if length (is_shown st) < max_entries then st1\<lparr>is_bytes_truncated := True\<rparr> else st1)"
  have cnt: "unat (is_checked_entries st2) = unat (is_checked_entries st) + 1"
    using Cons.prems(3) by (simp add: st2_def st1_def saturating_add_count)
  have b: "is_shown_bytes st2 \<le> max_bytes" "length (is_shown st2) \<le> max_entries"
    using Cons.prems(1,2) by (auto simp: st2_def st1_def fits_def checked_add_usize_def split: if_splits)
  have step: "inspect_entries max_entries max_bytes (map Ok (e # es)) st = inspect_entries max_entries max_bytes (map Ok es) st2"
    by (auto simp: e Let_def st2_def st1_def fits_def n_def)
  from Cons.IH [OF b] Cons.prems(3) cnt obtain st' ks where ih:
    "inspect_entries max_entries max_bytes (map Ok es) st2 = Ok st'"
    "unat (is_checked_entries st') = unat (is_checked_entries st2) + length es" "is_shown_bytes st' \<le> max_bytes"
    "length (is_shown st') \<le> max_entries" "subseq ks es"
    "is_shown st' = is_shown st2 @ map (\<lambda>(k, v). inspect_entry k v) ks" by auto
  have res: "inspect_entries max_entries max_bytes (map Ok (e # es)) st = Ok st'"
    "unat (is_checked_entries st') = unat (is_checked_entries st) + length (e # es)"
    using ih(1,2) step cnt by simp_all
  show ?case
  proof (cases fits)
    case True
    then have "is_shown st' = is_shown st @ map (\<lambda>(k, v). inspect_entry k v) (e # ks)" using ih(6) e by (simp add: st2_def st1_def)
    moreover have "subseq (e # ks) (e # es)" using ih(5) by simp
    ultimately show ?thesis using res ih(3,4) by blast
  next
    case False
    then have "is_shown st' = is_shown st @ map (\<lambda>(k, v). inspect_entry k v) ks" using ih(6) by (simp add: st2_def st1_def)
    moreover have "subseq ks (e # es)" using ih(5) by (rule list_emb_Cons)
    ultimately show ?thesis using res ih(3,4) by blast
  qed
qed



end
