(* ===== verification/Merge_Iter.thy ===== *)
theory Merge_Iter
  imports Mvcc Versions "HOL-Library.Multiset" "HOL-Library.Sublist" "HOL-Library.Product_Lexorder"
begin

text \<open>
  Forward scans (\<open>iter.rs\<close>): the k-way merge of sorted children through a binary heap and the
  iterator that yields the visible values of a key range.  A child iterator is the list of the
  items it has still to yield.
\<close>

section \<open>Definitions\<close>

datatype 'a bound = Included 'a | Excluded 'a | Unbounded

record scan_bounds =
  sb_start :: "bytes bound"
  sb_end :: "bytes bound"

definition sb_all :: scan_bounds where
  "sb_all = \<lparr>sb_start = Unbounded, sb_end = Unbounded\<rparr>"

type_synonym child_iterator = "entry result list"

record heap_entry =
  he_entry :: entry
  he_child :: usize

text \<open>\<open>HeapEntry::cmp\<close> is reversed, so the greatest element has the least key, then the least child.\<close>

definition heap_less :: "heap_entry \<Rightarrow> heap_entry \<Rightarrow> bool" where
  "heap_less a b \<longleftrightarrow>
    ik_less (fst (he_entry b)) (fst (he_entry a)) \<or>
    ik_encoded (fst (he_entry b)) = ik_encoded (fst (he_entry a)) \<and> he_child b < he_child a"

record merging_iterator =
  mi_children :: "child_iterator list"
  mi_heap :: "heap_entry list"
  mi_failed :: bool
  mi_pending_error :: "error option"

text \<open>\<open>BinaryHeap::pop\<close>: the greatest element and the heap without it.\<close>

fun heap_pop :: "heap_entry list \<Rightarrow> (heap_entry \<times> heap_entry list) option" where
  "heap_pop [] = None"
| "heap_pop (x # xs) =
    (case heap_pop xs of
       None \<Rightarrow> Some (x, [])
     | Some (y, ys) \<Rightarrow> if heap_less x y then Some (y, x # ys) else Some (x, y # ys))"

text \<open>The heap only names existing children (\<open>mi_ok\<close> below), so the index of \<open>advance_child\<close> is in range.\<close>

definition child_items :: "usize \<Rightarrow> merging_iterator \<Rightarrow> child_iterator" where
  "child_items child m = (if child < length (mi_children m) then mi_children m ! child else [])"

definition advance_child :: "usize \<Rightarrow> merging_iterator \<Rightarrow> bool \<times> merging_iterator" where
  "advance_child child m =
    (case child_items child m of
       Inr e # rest \<Rightarrow> (True, m\<lparr>mi_children := (mi_children m)[child := rest],
         mi_heap := \<lparr>he_entry = e, he_child = child\<rparr> # mi_heap m\<rparr>)
     | Inl err # rest \<Rightarrow> (False, m\<lparr>mi_children := (mi_children m)[child := rest],
         mi_pending_error := Some err\<rparr>)
     | [] \<Rightarrow> (True, m))"

fun advance_children :: "usize list \<Rightarrow> merging_iterator \<Rightarrow> merging_iterator" where
  "advance_children [] m = m"
| "advance_children (child # cs) m =
    (case advance_child child m of (go, m) \<Rightarrow> if go then advance_children cs m else m)"

definition mi_new :: "child_iterator list \<Rightarrow> merging_iterator" where
  "mi_new children = advance_children [0..<length children]
    \<lparr>mi_children = children, mi_heap = [], mi_failed = False, mi_pending_error = None\<rparr>"

definition mi_next :: "merging_iterator \<Rightarrow> entry result option \<times> merging_iterator" where
  "mi_next m =
    (if mi_failed m then (None, m)
     else case mi_pending_error m of
       Some err \<Rightarrow> (Some (Err err), m\<lparr>mi_pending_error := None, mi_failed := True, mi_heap := []\<rparr>)
     | None \<Rightarrow>
         (case heap_pop (mi_heap m) of
            None \<Rightarrow> (None, m)
          | Some (next, heap) \<Rightarrow>
              (Some (Ok (he_entry next)), snd (advance_child (he_child next) (m\<lparr>mi_heap := heap\<rparr>)))))"

text \<open>The number of items a merge can still yield, which bounds every loop over it.\<close>

definition mi_size :: "merging_iterator \<Rightarrow> nat" where
  "mi_size m = (if mi_failed m then 0 else sum_list (map length (mi_children m)) + length (mi_heap m) +
    (case mi_pending_error m of None \<Rightarrow> 0 | Some _ \<Rightarrow> 1))"

lemma heap_pop_length: "heap_pop h = Some (x, h') \<Longrightarrow> length h = Suc (length h')"
proof (induction h arbitrary: x h')
  case (Cons a h)
  then show ?case by (cases h) (auto split: option.splits if_splits)
qed simp

lemma sum_lengths_update:
  "c < length xs \<Longrightarrow> sum_list (map length (xs[c := ys])) + length (xs ! c) = sum_list (map length xs) + length ys"
  by (induction xs arbitrary: c) (auto split: nat.splits simp: nth_Cons' gr0_conv_Suc)

lemma advance_child_size:
  assumes "\<not> mi_failed m"
  shows "mi_size (snd (advance_child c m)) \<le> mi_size m"
proof (cases "child_items c m")
  case (Cons r rest)
  then have c: "c < length (mi_children m)" "mi_children m ! c = r # rest"
    by (auto simp: child_items_def split: if_splits)
  with sum_lengths_update [OF c(1), of rest] have
    "sum_list (map length ((mi_children m)[c := rest])) + 1 = sum_list (map length (mi_children m))" by simp
  with Cons assms show ?thesis
    by (auto simp: advance_child_def mi_size_def split: sum.splits option.splits)
qed (simp add: advance_child_def)

lemma advance_child_failed [simp]: "mi_failed (snd (advance_child c m)) = mi_failed m"
  by (simp add: advance_child_def split: list.splits sum.splits)

lemma mi_next_size: "mi_next m = (Some r, m') \<Longrightarrow> mi_size m' < mi_size m"
proof -
  assume n: "mi_next m = (Some r, m')"
  then have f: "\<not> mi_failed m" by (auto simp: mi_next_def)
  show ?thesis
  proof (cases "mi_pending_error m")
    case None
    with n f obtain x h where h: "heap_pop (mi_heap m) = Some (x, h)"
      "m' = snd (advance_child (he_child x) (m\<lparr>mi_heap := h\<rparr>))"
      by (auto simp: mi_next_def split: option.splits)
    have "mi_size (m\<lparr>mi_heap := h\<rparr>) < mi_size m"
      using heap_pop_length [OF h(1)] f None by (simp add: mi_size_def)
    with advance_child_size [of "m\<lparr>mi_heap := h\<rparr>" "he_child x"] f h(2) show ?thesis by simp
  next
    case (Some e)
    with n f show ?thesis by (auto simp: mi_next_def mi_size_def)
  qed
qed

text \<open>Every item of a merge, until its \<open>next\<close> returns \<open>None\<close>.\<close>

function mi_collect :: "merging_iterator \<Rightarrow> entry result list" where
  "mi_collect m = (case mi_next m of (None, _) \<Rightarrow> [] | (Some r, m') \<Rightarrow> r # mi_collect m')"
  by pat_completeness auto

termination
  by (relation "measure mi_size") (auto dest: mi_next_size [OF sym])

declare mi_collect.simps [simp del]

subsection \<open>Visible values\<close>

record kv_iterator =
  kv_merged :: merging_iterator
  kv_bounds :: scan_bounds
  kv_sequence :: sequence_number
  kv_read_time_unix_ms :: u64
  kv_remaining :: usize
  kv_failed :: bool
  kv_pending :: "entry option"

definition kv_empty :: "scan_bounds \<Rightarrow> sequence_number \<Rightarrow> u64 \<Rightarrow> kv_iterator" where
  "kv_empty bounds sequence read_time_unix_ms = \<lparr>kv_merged = mi_new [], kv_bounds = bounds,
    kv_sequence = sequence, kv_read_time_unix_ms = read_time_unix_ms, kv_remaining = 0,
    kv_failed = False, kv_pending = None\<rparr>"

definition kv_new :: "child_iterator list \<Rightarrow> scan_bounds \<Rightarrow> sequence_number \<Rightarrow> u64 \<Rightarrow> usize \<Rightarrow> kv_iterator" where
  "kv_new children bounds sequence read_time_unix_ms limit = \<lparr>kv_merged = mi_new children,
    kv_bounds = bounds, kv_sequence = sequence, kv_read_time_unix_ms = read_time_unix_ms,
    kv_remaining = limit, kv_failed = False, kv_pending = None\<rparr>"

definition consider_visible ::
    "(sequence_number \<times> value_record) option \<Rightarrow> entry \<Rightarrow> sequence_number \<Rightarrow>
     (sequence_number \<times> value_record) option" where
  "consider_visible newest e sequence =
    (let entry_sequence = ik_sequence (fst e) in
     if entry_sequence \<le> sequence \<and>
        (case newest of None \<Rightarrow> True | Some (newest_sequence, _) \<Rightarrow> entry_sequence > newest_sequence)
     then Some (entry_sequence, snd e) else newest)"

definition lower_allows :: "scan_bounds \<Rightarrow> bytes \<Rightarrow> bool" where
  "lower_allows bounds key =
    (case sb_start bounds of Included start \<Rightarrow> key \<ge> start | Excluded start \<Rightarrow> key > start | Unbounded \<Rightarrow> True)"

definition upper_allows :: "scan_bounds \<Rightarrow> bytes \<Rightarrow> bool" where
  "upper_allows bounds key =
    (case sb_end bounds of Included stop \<Rightarrow> key \<le> stop | Excluded stop \<Rightarrow> key < stop | Unbounded \<Rightarrow> True)"

definition user_key_in_bounds :: "scan_bounds \<Rightarrow> bytes \<Rightarrow> bool" where
  "user_key_in_bounds bounds key \<longleftrightarrow> lower_allows bounds key \<and> upper_allows bounds key"

definition overlaps_bounds :: "bytes \<Rightarrow> bytes \<Rightarrow> scan_bounds \<Rightarrow> bool" where
  "overlaps_bounds smallest largest bounds \<longleftrightarrow>
    (case sb_start bounds of Included start \<Rightarrow> start \<le> largest | Excluded start \<Rightarrow> start < largest | Unbounded \<Rightarrow> True) \<and>
    (case sb_end bounds of Included stop \<Rightarrow> stop \<ge> smallest | Excluded stop \<Rightarrow> stop > smallest | Unbounded \<Rightarrow> True)"

text \<open>
  The inner loop of \<open>KvIterator::next\<close> reads the remaining versions of one user key.  It ends
  with the newest visible record and the first entry of the next user key, or with an error.
\<close>

function kv_group ::
    "bytes \<Rightarrow> sequence_number \<Rightarrow> (sequence_number \<times> value_record) option \<Rightarrow> merging_iterator \<Rightarrow>
     ((sequence_number \<times> value_record) option \<times> entry option) result \<times> merging_iterator" where
  "kv_group user_key sequence newest m =
    (case mi_next m of
       (Some (Inr e), m') \<Rightarrow>
         if ik_user_key (fst e) = user_key
         then kv_group user_key sequence (consider_visible newest e sequence) m'
         else (Ok (newest, Some e), m')
     | (Some (Inl err), m') \<Rightarrow> (Err err, m')
     | (None, m') \<Rightarrow> (Ok (newest, None), m'))"
  by pat_completeness auto

termination
  by (relation "measure (\<lambda>(u, s, n, m). mi_size m)") (auto dest: mi_next_size [OF sym])

declare kv_group.simps [simp del]

lemma mi_next_None_size: "mi_next m = (None, m') \<Longrightarrow> m' = m"
  by (auto simp: mi_next_def split: if_splits option.splits)

lemma kv_group_size:
  "kv_group u s n m = (Inr (n', p), m') \<Longrightarrow>
    mi_size m' + (case p of None \<Rightarrow> 0 | Some _ \<Rightarrow> 1) \<le> mi_size m"
proof (induction u s n m rule: kv_group.induct)
  case (1 u s n m)
  obtain r m1 where nx: "mi_next m = (r, m1)" by fastforce
  show ?case
  proof (cases r)
    case None
    with 1(2) nx show ?thesis by (subst (asm) kv_group.simps) (auto dest!: mi_next_None_size)
  next
    case (Some r1)
    note less = mi_next_size [OF nx [unfolded Some]]
    show ?thesis
    proof (cases r1)
      case (Inr e)
      with 1(2) nx Some less 1(1) [OF nx [symmetric] Some Inr] show ?thesis
        by (subst (asm) kv_group.simps) (auto split: if_splits)
    qed (use 1(2) nx Some in \<open>subst (asm) kv_group.simps, simp\<close>)
  qed
qed

text \<open>
  The outer loop.  \<open>take_pending\<close> is \<open>pending.take().map(Ok).or_else(|| merged.next())\<close>.
\<close>

definition take_pending :: "kv_iterator \<Rightarrow> entry result option \<times> kv_iterator" where
  "take_pending it =
    (case kv_pending it of
       Some e \<Rightarrow> (Some (Ok e), it\<lparr>kv_pending := None\<rparr>)
     | None \<Rightarrow> (case mi_next (kv_merged it) of (r, m) \<Rightarrow> (r, it\<lparr>kv_merged := m\<rparr>)))"

definition kv_size :: "kv_iterator \<Rightarrow> nat" where
  "kv_size it = mi_size (kv_merged it) + (case kv_pending it of None \<Rightarrow> 0 | Some _ \<Rightarrow> 1)"

lemma take_pending_size: "take_pending it = (Some r, it') \<Longrightarrow> kv_size it' < kv_size it \<and> kv_pending it' = None"
  by (auto simp: take_pending_def kv_size_def split: option.splits prod.splits dest!: mi_next_size)

lemma kv_step_size:
  "take_pending it = (Some (Inr e), it1) \<Longrightarrow> kv_group u s n (kv_merged it1) = (Inr (n1, p), m) \<Longrightarrow>
    kv_size (it1\<lparr>kv_merged := m, kv_pending := p\<rparr>) < kv_size it"
  using take_pending_size [of it "Inr e" it1] kv_group_size [of u s n "kv_merged it1" n1 p m]
  by (simp add: kv_size_def)

text \<open>\<open>record_into_value\<close> of \<open>engine.rs\<close>: the value a read at time \<open>now\<close> returns.\<close>

fun record_into_value :: "value_record \<Rightarrow> u64 \<Rightarrow> bytes option" where
  "record_into_value (RecordValue v expires) now =
    (if (case expires of None \<Rightarrow> True | Some t \<Rightarrow> t > now) then Some v else None)"
| "record_into_value Tombstone now = None"

function kv_loop :: "kv_iterator \<Rightarrow> (bytes \<times> bytes) result option \<times> kv_iterator" where
  "kv_loop it =
    (case take_pending it of
       (None, it) \<Rightarrow> (None, it)
     | (Some (Inl err), it) \<Rightarrow> (Some (Err err), it\<lparr>kv_failed := True\<rparr>)
     | (Some (Inr first), it) \<Rightarrow>
         let user_key = ik_user_key (fst first);
             newest = consider_visible None first (kv_sequence it)
         in case kv_group user_key (kv_sequence it) newest (kv_merged it) of
              (Inl err, m) \<Rightarrow> (Some (Err err), it\<lparr>kv_merged := m, kv_failed := True\<rparr>)
            | (Inr (newest, pending), m) \<Rightarrow>
                let it = it\<lparr>kv_merged := m, kv_pending := pending\<rparr> in
                if \<not> lower_allows (kv_bounds it) user_key then kv_loop it
                else if \<not> upper_allows (kv_bounds it) user_key then (None, it)
                else case newest of
                  None \<Rightarrow> kv_loop it
                | Some (_, Tombstone) \<Rightarrow> kv_loop it
                | Some (_, RecordValue v expires) \<Rightarrow>
                    if (case expires of None \<Rightarrow> True | Some t \<Rightarrow> t > kv_read_time_unix_ms it)
                    then (Some (Ok (user_key, v)), it\<lparr>kv_remaining := kv_remaining it - 1\<rparr>)
                    else kv_loop it)"
  by pat_completeness auto

termination
  by (relation "measure kv_size") (auto intro: kv_step_size [OF sym sym])

declare kv_loop.simps [simp del]

definition kv_next :: "kv_iterator \<Rightarrow> (bytes \<times> bytes) result option \<times> kv_iterator" where
  "kv_next it = (if kv_failed it \<or> kv_remaining it = 0 then (None, it) else kv_loop it)"

text \<open>The results of the first \<open>n\<close> calls of \<open>next\<close>.\<close>

fun kv_calls :: "nat \<Rightarrow> kv_iterator \<Rightarrow> (bytes \<times> bytes) result option list" where
  "kv_calls 0 it = []"
| "kv_calls (Suc n) it = (case kv_next it of (r, it') \<Rightarrow> r # kv_calls n it')"

definition disk_entry :: "internal_key \<Rightarrow> bytes \<Rightarrow> bool \<Rightarrow> entry result" where
  "disk_entry key value engine_encoded =
    rbind (decode_sstable_value (ik_kind key) value engine_encoded) (\<lambda>record. Ok (key, record))"

subsection \<open>Prefixes\<close>

text \<open>
  \<open>rposition\<close> finds the last byte other than \<open>0xff\<close>; the bytes after it are cut off and it is
  incremented.  On the reversed prefix that is dropping the leading \<open>0xff\<close> bytes.
\<close>

definition prefix_successor :: "bytes \<Rightarrow> bytes option" where
  "prefix_successor pre =
    (case dropWhile (\<lambda>byte. byte = 0xff) (rev pre) of
       [] \<Rightarrow> None
     | byte # rest \<Rightarrow> Some (rev rest @ [byte + 1]))"

definition prefix_bounds :: "bytes \<Rightarrow> scan_bounds" where
  "prefix_bounds pre =
    \<lparr>sb_start = Included pre,
     sb_end = (case prefix_successor pre of Some successor \<Rightarrow> Excluded successor | None \<Rightarrow> Unbounded)\<rparr>"

section \<open>The merge\<close>

text \<open>A heap pop returns the least key, and of equal keys the one of the least child.\<close>

definition he_key :: "heap_entry \<Rightarrow> bytes \<times> usize" where
  "he_key h = (ik_encoded (fst (he_entry h)), he_child h)"

lemma heap_less_iff: "heap_less a b \<longleftrightarrow> he_key b < he_key a"
  by (auto simp: heap_less_def he_key_def ik_less_def)

lemma heap_pop_min:
  "heap_pop h = Some (x, h') \<Longrightarrow> mset h = add_mset x (mset h') \<and> (\<forall>y \<in> set h'. he_key x \<le> he_key y)"
proof (induction h arbitrary: x h')
  case (Cons a h)
  show ?case
  proof (cases "heap_pop h")
    case None
    then have "h = []" by (cases h) (auto split: option.splits if_splits)
    with Cons.prems show ?thesis by simp
  next
    case (Some p)
    then obtain y ys where p: "heap_pop h = Some (y, ys)" by (cases p) auto
    with Cons.IH [OF p] Cons.prems show ?thesis
      by (fastforce simp: heap_less_iff split: if_splits)
  qed
qed simp

lemma heap_pop_None: "heap_pop h = None \<longleftrightarrow> h = []"
  by (cases h) (auto split: option.splits)

text \<open>The entries a child yields before its first error.\<close>

fun ok_items :: "child_iterator \<Rightarrow> entry list" where
  "ok_items (Inr e # rest) = e # ok_items rest"
| "ok_items _ = []"

abbreviation ekey :: "entry \<Rightarrow> bytes" where
  "ekey e \<equiv> ik_encoded (fst e)"

definition rem_items :: "merging_iterator \<Rightarrow> usize \<Rightarrow> entry list" where
  "rem_items m c = map he_entry (filter (\<lambda>h. he_child h = c) (mi_heap m)) @ ok_items (mi_children m ! c)"

definition remaining :: "merging_iterator \<Rightarrow> entry list" where
  "remaining m = concat (map (rem_items m) [0..<length (mi_children m)])"

text \<open>
  \<open>loaded k m\<close>: every child below \<open>k\<close> that has no entry in the heap is exhausted, and the
  children from \<open>k\<close> on have none in the heap.
\<close>

definition loaded :: "usize \<Rightarrow> merging_iterator \<Rightarrow> bool" where
  "loaded k m \<longleftrightarrow> (\<forall>c < length (mi_children m).
    if c < k then c \<in> he_child ` set (mi_heap m) \<or> mi_children m ! c = []
    else c \<notin> he_child ` set (mi_heap m))"

definition mi_ok :: "merging_iterator \<Rightarrow> bool" where
  "mi_ok m \<longleftrightarrow> \<not> mi_failed m \<and> distinct (map he_child (mi_heap m)) \<and>
    (\<forall>h \<in> set (mi_heap m). he_child h < length (mi_children m)) \<and>
    (\<forall>c < length (mi_children m). sorted (map ekey (rem_items m c)))"

definition child_errors :: "merging_iterator \<Rightarrow> error set" where
  "child_errors m = {err. \<exists>c < length (mi_children m). Inl err \<in> set (mi_children m ! c)}"

lemma sort_key_min_first:
  assumes "\<forall>y \<in> set pre. f e < f y" "\<forall>y \<in> set post. f e \<le> f y"
  shows "sort_key f (pre @ e # post) = e # sort_key f (pre @ post)"
  using assms(1)
proof (induction pre)
  case Nil
  have "insort_key f e ys = e # ys" if "\<forall>y \<in> set ys. f e \<le> f y" for ys
    using that by (cases ys) auto
  with assms(2) show ?case by simp
qed auto

lemma upt_split: "c < n \<Longrightarrow> [0..<n] = [0..<c] @ c # [Suc c..<n]"
  using upt_add_eq_append [of 0 c "n - c"] upt_conv_Cons [of c n] by simp

lemma filter_unique:
  "distinct (map f xs) \<Longrightarrow> x \<in> set xs \<Longrightarrow> filter (\<lambda>y. f y = f x) xs = [x]"
  by (induction xs) (auto simp: filter_empty_conv image_iff)

lemma filter_none: "c \<notin> f ` set xs \<Longrightarrow> filter (\<lambda>y. f y = c) xs = []"
  by (induction xs) auto

lemma rem_items_head:
  assumes "mi_ok m" "h \<in> set (mi_heap m)"
  shows "rem_items m (he_child h) = he_entry h # ok_items (mi_children m ! he_child h)"
  using assms by (simp add: rem_items_def mi_ok_def filter_unique)

lemma rem_items_ge:
  assumes "mi_ok m" "loaded (length (mi_children m)) m" "d < length (mi_children m)"
    and "x \<in> set (mi_heap m)" "\<forall>h \<in> set (mi_heap m). he_key x \<le> he_key h" "y \<in> set (rem_items m d)"
  shows "ekey (he_entry x) \<le> ekey y" "d < he_child x \<Longrightarrow> ekey (he_entry x) < ekey y"
proof -
  obtain h where h: "h \<in> set (mi_heap m)" "he_child h = d"
  proof (cases "d \<in> he_child ` set (mi_heap m)")
    case False
    then have "filter (\<lambda>h. he_child h = d) (mi_heap m) = []" by (rule filter_none)
    moreover have "mi_children m ! d = []" using assms(2,3) False by (auto simp: loaded_def)
    ultimately have "rem_items m d = []" by (simp add: rem_items_def)
    with assms(6) that show thesis by simp
  qed (use that in blast)
  have "sorted (map ekey (rem_items m d))" using assms(1,3) by (simp add: mi_ok_def)
  with assms(6) rem_items_head [OF assms(1) h(1)] h(2) have "ekey (he_entry h) \<le> ekey y" by auto
  moreover have "ekey (he_entry x) \<le> ekey (he_entry h)"
    "d < he_child x \<Longrightarrow> ekey (he_entry x) < ekey (he_entry h)"
    using assms(5) h by (force simp: he_key_def less_eq_prod_def)+
  ultimately show "ekey (he_entry x) \<le> ekey y" "d < he_child x \<Longrightarrow> ekey (he_entry x) < ekey y"
    by auto
qed

lemma remaining_split:
  "c < length (mi_children m) \<Longrightarrow> remaining m =
    concat (map (rem_items m) [0..<c]) @ rem_items m c @ concat (map (rem_items m) [Suc c..<length (mi_children m)])"
  by (simp add: remaining_def upt_split [of c])

lemma filter_perm_unique:
  assumes "mset xs = mset ys" "distinct (map f xs)"
  shows "filter (\<lambda>y. f y = c) xs = filter (\<lambda>y. f y = c) ys"
proof (cases "c \<in> f ` set xs")
  case True
  then obtain x where x: "x \<in> set xs" "c = f x" by blast
  have "distinct (map f ys)" using assms by (metis mset_eq_imp_distinct_iff mset_map)
  with x assms show ?thesis using mset_eq_setD [OF assms(1)] by (simp add: filter_unique)
next
  case False
  then have "filter (\<lambda>y. f y = c) xs = []" "filter (\<lambda>y. f y = c) ys = []"
    using mset_eq_setD [OF assms(1)] by (auto simp: filter_empty_conv)
  then show ?thesis by simp
qed

lemma mi_ok_heap:
  assumes "mset (mi_heap m) = mset h"
  shows "mi_ok m \<Longrightarrow> mi_ok (m\<lparr>mi_heap := h\<rparr>)"
    and "mi_ok m \<Longrightarrow> rem_items (m\<lparr>mi_heap := h\<rparr>) c = rem_items m c"
    and "loaded k (m\<lparr>mi_heap := h\<rparr>) = loaded k m"
proof -
  have s: "set (mi_heap m) = set h" using assms by (rule mset_eq_setD)
  have d: "distinct (map he_child (mi_heap m)) = distinct (map he_child h)"
    using assms by (metis mset_eq_imp_distinct_iff mset_map)
  show r: "mi_ok m \<Longrightarrow> rem_items (m\<lparr>mi_heap := h\<rparr>) c = rem_items m c" for c
    using filter_perm_unique [OF assms, of he_child c] by (simp add: rem_items_def mi_ok_def)
  from r s d show "mi_ok m \<Longrightarrow> mi_ok (m\<lparr>mi_heap := h\<rparr>)" by (simp add: mi_ok_def)
  show "loaded k (m\<lparr>mi_heap := h\<rparr>) = loaded k m" by (simp add: loaded_def s)
qed

lemma advance_loaded:
  assumes ok: "mi_ok m" and c: "c < length (mi_children m)" "c \<notin> he_child ` set (mi_heap m)"
    and a: "advance_child c m = (go, m')"
  shows "length (mi_children m') = length (mi_children m)" "\<not> mi_failed m'"
    and "go \<Longrightarrow> mi_ok m' \<and> mi_pending_error m' = mi_pending_error m \<and>
      rem_items m' = rem_items m \<and> child_errors m' = child_errors m \<and>
      (c \<in> he_child ` set (mi_heap m') \<or> mi_children m' ! c = []) \<and>
      he_child ` set (mi_heap m') \<subseteq> insert c (he_child ` set (mi_heap m)) \<and>
      he_child ` set (mi_heap m) \<subseteq> he_child ` set (mi_heap m') \<and>
      (\<forall>d. d \<noteq> c \<longrightarrow> mi_children m' ! d = mi_children m ! d)"
    and "\<not> go \<Longrightarrow> \<exists>err \<in> child_errors m. mi_pending_error m' = Some err"
proof -
  have nf: "\<not> mi_failed m" using ok by (simp add: mi_ok_def)
  show "length (mi_children m') = length (mi_children m)" "\<not> mi_failed m'"
    using a nf by (auto simp: advance_child_def split: list.splits sum.splits)
  have none: "filter (\<lambda>h. he_child h = c) (mi_heap m) = []" using c(2) by (rule filter_none)
  show "\<exists>err \<in> child_errors m. mi_pending_error m' = Some err" if "\<not> go"
    using a that c(1)
    by (auto simp: advance_child_def child_items_def child_errors_def split: list.splits sum.splits)
      (metis list.set_intros(1))
  assume go: go
  show "mi_ok m' \<and> mi_pending_error m' = mi_pending_error m \<and>
      rem_items m' = rem_items m \<and> child_errors m' = child_errors m \<and>
      (c \<in> he_child ` set (mi_heap m') \<or> mi_children m' ! c = []) \<and>
      he_child ` set (mi_heap m') \<subseteq> insert c (he_child ` set (mi_heap m)) \<and>
      he_child ` set (mi_heap m) \<subseteq> he_child ` set (mi_heap m') \<and>
      (\<forall>d. d \<noteq> c \<longrightarrow> mi_children m' ! d = mi_children m ! d)"
  proof (cases "mi_children m ! c")
    case Nil
    with a c(1) ok show ?thesis by (auto simp: advance_child_def child_items_def)
  next
    case (Cons r rest)
    with a c(1) go obtain e where r: "r = Inr e"
      by (cases r) (auto simp: advance_child_def child_items_def)
    have m': "m' = m\<lparr>mi_children := (mi_children m)[c := rest],
         mi_heap := \<lparr>he_entry = e, he_child = c\<rparr> # mi_heap m\<rparr>"
      using a c(1) Cons r by (simp add: advance_child_def child_items_def)
    have rem: "rem_items m' d = rem_items m d" for d
      using none c(1) Cons r by (cases "d = c") (simp_all add: rem_items_def m')
    moreover have "Inl err \<in> set (mi_children m' ! d) \<longleftrightarrow> Inl err \<in> set (mi_children m ! d)" for err d
      using Cons r c(1) by (cases "d = c") (simp_all add: m')
    then have "child_errors m' = child_errors m" by (simp add: child_errors_def) (simp add: m')
    moreover have "mi_ok m'"
      using ok c rem by (auto simp: mi_ok_def m')
    ultimately show ?thesis by (auto simp: m')
  qed
qed

lemma pop_remaining:
  assumes ok: "mi_ok m" and ld: "loaded (length (mi_children m)) m"
    and pop: "heap_pop (mi_heap m) = Some (x, h)"
  shows "mi_ok (m\<lparr>mi_heap := h\<rparr>)" "he_child x < length (mi_children m)" "he_child x \<notin> he_child ` set h"
    and "set (mi_heap m) = insert x (set h)"
    and "sort_key ekey (remaining m) = he_entry x # sort_key ekey (remaining (m\<lparr>mi_heap := h\<rparr>))"
proof -
  let ?c = "he_child x" and ?n = "length (mi_children m)" and ?m0 = "m\<lparr>mi_heap := h\<rparr>"
  from heap_pop_min [OF pop] have ms: "mset (mi_heap m) = mset (x # h)"
    and min: "\<forall>y \<in> set h. he_key x \<le> he_key y" by simp_all
  show sets: "set (mi_heap m) = insert x (set h)" using mset_eq_setD [OF ms] by simp
  note ok1 = mi_ok_heap(1) [OF ms ok] and rem1 = mi_ok_heap(2) [OF ms ok]
  show c: "?c < ?n" "?c \<notin> he_child ` set h" using ok1 by (auto simp: mi_ok_def)
  have "filter (\<lambda>k. he_child k = ?c) h = []" using c(2) by (rule filter_none)
  then have rem0: "rem_items ?m0 d = (if d = ?c then ok_items (mi_children m ! ?c) else rem_items m d)" for d
    using rem1 [of d] by (cases "d = ?c") (auto simp: rem_items_def)
  have remc: "rem_items m ?c = he_entry x # ok_items (mi_children m ! ?c)"
    using rem_items_head [OF ok] sets by simp
  have "sorted (map ekey (rem_items m ?c))" using ok c(1) by (simp add: mi_ok_def)
  with ok1 ok remc show "mi_ok ?m0" by (auto simp: mi_ok_def rem0)
  let ?pre = "concat (map (rem_items m) [0..<?c])" and ?post = "concat (map (rem_items m) [Suc ?c..<?n])"
  have eqs: "map (rem_items ?m0) [0..<?c] = map (rem_items m) [0..<?c]"
    "map (rem_items ?m0) [Suc ?c..<?n] = map (rem_items m) [Suc ?c..<?n]" by (auto simp: rem0)
  have "remaining ?m0 = ?pre @ ok_items (mi_children m ! ?c) @ ?post"
    using remaining_split [of ?c ?m0] c(1) by (simp add: rem0 eqs)
  moreover have "remaining m = ?pre @ he_entry x # ok_items (mi_children m ! ?c) @ ?post"
    using remaining_split [OF c(1)] remc by simp
  moreover have "x \<in> set (mi_heap m)" "\<forall>y \<in> set (mi_heap m). he_key x \<le> he_key y"
    using sets min by auto
  note ge = rem_items_ge [OF ok ld _ this]
  have "\<forall>y \<in> set ?pre. ekey (he_entry x) < ekey y" using ge(2) c(1) by auto
  moreover have "\<forall>y \<in> set (ok_items (mi_children m ! ?c) @ ?post). ekey (he_entry x) \<le> ekey y"
    using ge(1) [OF c(1), unfolded remc] ge(1) by auto
  ultimately show "sort_key ekey (remaining m) = he_entry x # sort_key ekey (remaining ?m0)"
    by (simp add: sort_key_min_first)
qed

lemma pending_collect:
  assumes "\<not> mi_failed m" "mi_pending_error m = Some err"
  shows "mi_collect m = [Err err]"
  using assms by (subst mi_collect.simps, simp add: mi_next_def, subst mi_collect.simps) (simp add: mi_next_def)

lemma merge_collect:
  assumes "mi_ok m" "loaded (length (mi_children m)) m" "mi_pending_error m = None"
  shows "\<exists>ys. prefix ys (sort_key ekey (remaining m)) \<and>
    (child_errors m = {} \<and> ys = sort_key ekey (remaining m) \<and> mi_collect m = map Ok ys \<or>
     (\<exists>err \<in> child_errors m. mi_collect m = map Ok ys @ [Err err]))"
  using assms
proof (induction m rule: mi_collect.induct)
  case (1 m)
  have nf: "\<not> mi_failed m" using "1.prems"(1) by (simp add: mi_ok_def)
  show ?case
  proof (cases "heap_pop (mi_heap m)")
    case None
    then have "mi_heap m = []" by (simp add: heap_pop_None)
    with "1.prems"(2) have e: "\<forall>c < length (mi_children m). mi_children m ! c = []" by (simp add: loaded_def)
    then have "remaining m = []" using \<open>mi_heap m = []\<close> by (simp add: remaining_def rem_items_def)
    moreover have "child_errors m = {}" using e by (simp add: child_errors_def)
    moreover have "mi_collect m = []"
      using None nf "1.prems"(3) by (subst mi_collect.simps) (simp add: mi_next_def)
    ultimately show ?thesis by simp
  next
    case (Some p)
    then obtain x h where pop: "heap_pop (mi_heap m) = Some (x, h)" by (cases p) auto
    obtain go m' where a: "advance_child (he_child x) (m\<lparr>mi_heap := h\<rparr>) = (go, m')" by fastforce
    have nx: "mi_next m = (Some (Ok (he_entry x)), m')"
      using nf "1.prems"(3) pop a by (simp add: mi_next_def)
    then have col: "mi_collect m = Ok (he_entry x) # mi_collect m'"
      by (subst mi_collect.simps) simp
    note pr = pop_remaining [OF "1.prems"(1,2) pop]
    note adv = advance_loaded [OF pr(1) _ _ a, simplified, OF pr(2,3)]
    have errs: "child_errors (m\<lparr>mi_heap := h\<rparr>) = child_errors m" by (simp add: child_errors_def)
    show ?thesis
    proof (cases go)
      case True
      note adv3 = adv(3) [OF True]
      have "d \<in> he_child ` set (mi_heap m') \<or> mi_children m' ! d = []"
        if "d < length (mi_children m)" for d
      proof (cases "d = he_child x")
        case False
        from "1.prems"(2) that have "d \<in> he_child ` set (mi_heap m) \<or> mi_children m ! d = []"
          by (auto simp: loaded_def)
        with False pr(4) have "d \<in> he_child ` set h \<or> mi_children m ! d = []" by auto
        with False adv3 show ?thesis by auto
      qed (use adv3 in blast)
      then have "loaded (length (mi_children m')) m'" by (simp add: loaded_def adv(1))
      moreover have "remaining m' = remaining (m\<lparr>mi_heap := h\<rparr>)"
        using adv(1,3) True by (simp add: remaining_def)
      ultimately obtain ys where
        "prefix ys (sort_key ekey (remaining (m\<lparr>mi_heap := h\<rparr>)))"
        "child_errors m = {} \<and> ys = sort_key ekey (remaining (m\<lparr>mi_heap := h\<rparr>)) \<and> mi_collect m' = map Ok ys \<or>
         (\<exists>err \<in> child_errors m. mi_collect m' = map Ok ys @ [Err err])"
        using "1.IH" [OF nx [symmetric] refl] adv3 "1.prems"(3) errs by auto
      with pr(5) col show ?thesis by (intro exI [of _ "he_entry x # ys"]) auto
    next
      case False
      with adv(4) obtain err where err: "err \<in> child_errors m" "mi_pending_error m' = Some err"
        using errs by auto
      with pending_collect [OF adv(2)] col pr(5) show ?thesis
        by (intro exI [of _ "[he_entry x]"]) auto
    qed
  qed
qed

lemma advance_children_ok:
  assumes "mi_ok m" "loaded k m" "mi_pending_error m = None"
  defines "m' \<equiv> advance_children [k..<length (mi_children m)] m"
  shows "mi_ok m' \<and> loaded (length (mi_children m')) m' \<and> mi_pending_error m' = None \<and>
      remaining m' = remaining m \<and> child_errors m' = child_errors m \<or>
    (\<exists>err \<in> child_errors m. mi_pending_error m' = Some err \<and> \<not> mi_failed m')"
  using assms(1-3) unfolding m'_def
proof (induction "length (mi_children m) - k" arbitrary: k m)
  case 0
  then have "loaded (length (mi_children m)) m" by (auto simp: loaded_def)
  with 0 show ?case by simp
next
  case (Suc j)
  then have k: "k < length (mi_children m)" by simp
  with Suc.prems(2) have nh: "k \<notin> he_child ` set (mi_heap m)" by (auto simp: loaded_def)
  obtain go m1 where a: "advance_child k m = (go, m1)" by fastforce
  note adv = advance_loaded [OF Suc.prems(1) k nh a]
  show ?case
  proof (cases go)
    case True
    note adv3 = adv(3) [OF True]
    have "loaded (Suc k) m1"
      unfolding loaded_def
    proof (intro allI impI)
      fix c assume c: "c < length (mi_children m1)"
      show "if c < Suc k then c \<in> he_child ` set (mi_heap m1) \<or> mi_children m1 ! c = []
        else c \<notin> he_child ` set (mi_heap m1)"
      proof (cases "c = k")
        case False
        from Suc.prems(2) c adv(1) have "if c < k then c \<in> he_child ` set (mi_heap m) \<or> mi_children m ! c = []
          else c \<notin> he_child ` set (mi_heap m)" by (simp add: loaded_def)
        with False adv3 show ?thesis by (auto split: if_splits)
      qed (use adv3 in simp)
    qed
    moreover have "j = length (mi_children m1) - Suc k" using Suc.hyps(2) adv(1) by simp
    moreover have "remaining m1 = remaining m" using adv3 adv(1) by (simp add: remaining_def)
    ultimately show ?thesis
      using Suc.hyps(1) [of m1 "Suc k"] adv3 Suc.prems(3) adv(1) k True
      by (simp add: upt_conv_Cons a)
  next
    case False
    with adv(2,4) a k show ?thesis by (simp add: upt_conv_Cons)
  qed
qed

definition errors_of :: "child_iterator list \<Rightarrow> error set" where
  "errors_of cs = {err. \<exists>items \<in> set cs. Inl err \<in> set items}"

lemma ex_nth_set: "(\<exists>c < length cs. P (cs ! c)) \<longleftrightarrow> (\<exists>x \<in> set cs. P x)"
  by (metis in_set_conv_nth)

lemma merge_new:
  assumes "\<forall>items \<in> set cs. sorted (map ekey (ok_items items))"
  defines "merged \<equiv> sort_key ekey (concat (map ok_items cs))"
  shows "\<exists>ys. prefix ys merged \<and>
    (errors_of cs = {} \<and> ys = merged \<and> mi_collect (mi_new cs) = map Ok ys \<or>
     (\<exists>err \<in> errors_of cs. mi_collect (mi_new cs) = map Ok ys @ [Err err]))"
proof -
  let ?m = "\<lparr>mi_children = cs, mi_heap = [], mi_failed = False, mi_pending_error = None\<rparr>"
  have rem: "rem_items ?m = (\<lambda>c. ok_items (cs ! c))" by (simp add: rem_items_def fun_eq_iff)
  have "remaining ?m = concat (map ok_items (map ((!) cs) [0..<length cs]))"
    by (simp add: remaining_def rem comp_def)
  then have r: "remaining ?m = concat (map ok_items cs)" by (simp only: map_nth)
  have e: "child_errors ?m = errors_of cs"
    using ex_nth_set [of cs "\<lambda>items. Inl _ \<in> set items"] by (simp add: child_errors_def errors_of_def)
  have "mi_ok ?m" "loaded 0 ?m" using assms(1) by (auto simp: mi_ok_def rem loaded_def)
  from advance_children_ok [OF this] r e consider
    (ok) "mi_ok (mi_new cs)" "loaded (length (mi_children (mi_new cs))) (mi_new cs)"
      "mi_pending_error (mi_new cs) = None" "remaining (mi_new cs) = concat (map ok_items cs)"
      "child_errors (mi_new cs) = errors_of cs"
    | (err) err where "err \<in> errors_of cs" "mi_pending_error (mi_new cs) = Some err" "\<not> mi_failed (mi_new cs)"
    by (auto simp: mi_new_def)
  then show ?thesis
  proof cases
    case ok
    from merge_collect [OF ok(1-3)] show ?thesis by (simp add: ok(4,5) merged_def)
  next
    case err
    with pending_collect [OF err(3,2)] show ?thesis by (intro exI [of _ "[]"]) auto
  qed
qed

section \<open>The scan\<close>

text \<open>What a scan must yield, on the entries in storage order.\<close>

definition scan_key :: "scan_bounds \<Rightarrow> sequence_number \<Rightarrow> u64 \<Rightarrow> entry list \<Rightarrow> bytes \<Rightarrow> (bytes \<times> bytes) option" where
  "scan_key bounds s now es u =
    (if user_key_in_bounds bounds u
     then Option.bind (newest_visible u s es) (\<lambda>e. map_option (Pair u) (record_into_value (snd e) now))
     else None)"

definition user_keys :: "entry list \<Rightarrow> bytes list" where
  "user_keys es = remdups_adj (map (\<lambda>e. ik_user_key (fst e)) es)"

definition scan_spec :: "scan_bounds \<Rightarrow> sequence_number \<Rightarrow> u64 \<Rightarrow> entry list \<Rightarrow> (bytes \<times> bytes) list" where
  "scan_spec bounds s now es = List.map_filter (scan_key bounds s now es) (user_keys es)"

definition ordered :: "entry list \<Rightarrow> bool" where
  "ordered es \<longleftrightarrow> sorted (map ekey es) \<and> (\<forall>e \<in> set es. wf_key (fst e))"

lemma ordered_user_key:
  assumes "ordered (a # es)" "e \<in> set es"
  shows "ik_user_key (fst a) \<le> ik_user_key (fst e)"
    and "ik_user_key (fst e) = ik_user_key (fst a) \<Longrightarrow> ik_sequence (fst e) \<le> ik_sequence (fst a)"
  using assms wf_key_less_iff [of "fst e" "fst a"] by (auto simp: ordered_def not_less)

lemma ordered_append: "ordered (xs @ ys) \<Longrightarrow> ordered ys" "ordered (xs @ ys) \<Longrightarrow> ordered xs"
  by (auto simp: ordered_def sorted_append)

lemma consider_older:
  "\<forall>e \<in> set g. ik_sequence (fst e) \<le> q \<Longrightarrow> fold (\<lambda>e n. consider_visible n e s) g (Some (q, r)) = Some (q, r)"
  by (induction g) (auto simp: consider_visible_def Let_def)

lemma consider_newest:
  assumes "ordered g" "\<forall>e \<in> set g. ik_user_key (fst e) = u"
  shows "fold (\<lambda>e n. consider_visible n e s) g None =
    map_option (\<lambda>e. (ik_sequence (fst e), snd e)) (newest_visible u s g)"
  using assms
proof (induction g)
  case (Cons a g)
  have "ordered g" using Cons.prems(1) ordered_append(1) [of "[a]" g] by simp
  moreover have "\<forall>e \<in> set g. ik_sequence (fst e) \<le> ik_sequence (fst a)"
    using ordered_user_key(2) [OF Cons.prems(1)] Cons.prems(2) by auto
  ultimately show ?case
    using Cons consider_older [of g "ik_sequence (fst a)" s "snd a"]
    by (auto simp: consider_visible_def visible_def)
qed simp

text \<open>The entries of one user key contribute one pair; the rest of the scan does not see them.\<close>

lemma newest_visible_append:
  "newest_visible u s (xs @ ys) = (case newest_visible u s xs of None \<Rightarrow> newest_visible u s ys | Some e \<Rightarrow> Some e)"
  by (induction xs) auto

lemma newest_visible_other: "\<forall>e \<in> set es. ik_user_key (fst e) \<noteq> u \<Longrightarrow> newest_visible u s es = None"
  by (auto simp: newest_visible_None visible_def)

lemma user_keys_set: "set (user_keys es) = (\<lambda>e. ik_user_key (fst e)) ` set es"
  by (simp add: user_keys_def)

lemma user_keys_group:
  assumes "g \<noteq> []" "\<forall>e \<in> set g. ik_user_key (fst e) = u" "\<forall>e \<in> set rest. ik_user_key (fst e) \<noteq> u"
  shows "user_keys (g @ rest) = u # user_keys rest"
  using assms
proof (induction g)
  case (Cons a g)
  show ?case
  proof (cases g)
    case Nil
    with Cons.prems show ?thesis by (cases rest) (auto simp: user_keys_def)
  next
    case (Cons b g')
    with Cons.IH Cons.prems show ?thesis by (simp add: user_keys_def)
  qed
qed simp

lemma map_filter_cong: "(\<And>x. x \<in> set xs \<Longrightarrow> f x = g x) \<Longrightarrow> List.map_filter f xs = List.map_filter g xs"
  by (induction xs) (auto simp: List.map_filter_simps split: option.split)

lemma scan_spec_group:
  assumes "g \<noteq> []" "\<forall>e \<in> set g. ik_user_key (fst e) = u" "\<forall>e \<in> set rest. ik_user_key (fst e) \<noteq> u"
  shows "scan_spec b s now (g @ rest) =
    (case scan_key b s now g u of None \<Rightarrow> [] | Some p \<Rightarrow> [p]) @ scan_spec b s now rest"
proof -
  have "newest_visible u s (g @ rest) = newest_visible u s g"
    using newest_visible_other [OF assms(3)] by (simp add: newest_visible_append split: option.split)
  then have "scan_key b s now (g @ rest) u = scan_key b s now g u" by (simp add: scan_key_def)
  moreover have "scan_key b s now (g @ rest) v = scan_key b s now rest v" if "v \<in> set (user_keys rest)" for v
  proof -
    have "v \<noteq> u" using that assms(3) by (auto simp: user_keys_set)
    then have "newest_visible v s g = None" using assms(2) by (intro newest_visible_other) auto
    then show ?thesis by (simp add: scan_key_def newest_visible_append)
  qed
  then have "List.map_filter (scan_key b s now (g @ rest)) (user_keys rest) =
      List.map_filter (scan_key b s now rest) (user_keys rest)"
    by (intro map_filter_cong) simp
  ultimately show ?thesis
    by (simp add: scan_spec_def user_keys_group [OF assms] List.map_filter_simps split: option.split)
qed

lemma scan_spec_above:
  assumes "\<forall>e \<in> set es. \<not> upper_allows b (ik_user_key (fst e))"
  shows "scan_spec b s now es = []"
  using assms
  by (auto simp: scan_spec_def scan_key_def List.map_filter_def filter_empty_conv user_keys_set user_key_in_bounds_def)

lemma upper_allows_mono: "\<not> upper_allows b u \<Longrightarrow> u \<le> v \<Longrightarrow> \<not> upper_allows b v"
  by (auto simp: upper_allows_def split: bound.splits)

text \<open>Splitting off the group of the first entry.\<close>

lemma ordered_group:
  assumes "ordered (e # es)"
  defines "u \<equiv> ik_user_key (fst e)"
  obtains g rest where "es = g @ rest" "\<forall>x \<in> set g. ik_user_key (fst x) = u"
    "\<forall>x \<in> set rest. u < ik_user_key (fst x)" "ordered (e # g)" "ordered rest"
    "g = takeWhile (\<lambda>x. ik_user_key (fst x) = u) es" "rest = dropWhile (\<lambda>x. ik_user_key (fst x) = u) es"
proof -
  let ?P = "\<lambda>x. ik_user_key (fst x) = u"
  have es: "es = takeWhile ?P es @ dropWhile ?P es" by simp
  have o: "ordered ((e # takeWhile ?P es) @ dropWhile ?P es)" using assms(1) by simp
  have "u < ik_user_key (fst x)" if x: "x \<in> set (dropWhile ?P es)" for x
  proof -
    obtain y ys where y: "dropWhile ?P es = y # ys" using x by (cases "dropWhile ?P es") auto
    then have d: "es = takeWhile ?P es @ y # ys" "ik_user_key (fst y) \<noteq> u"
      by (auto simp: dropWhile_eq_Cons_conv)
    have "y \<in> set es" by (subst d(1)) simp
    then have "u \<le> ik_user_key (fst y)" using ordered_user_key(1) [OF assms(1)] by (simp add: u_def)
    moreover have "ik_user_key (fst y) \<le> ik_user_key (fst x)"
      using ordered_append(1) [OF o] x y ordered_user_key(1) [of y ys x] by auto
    ultimately show ?thesis using d(2) by auto
  qed
  moreover have "\<forall>x \<in> set (takeWhile ?P es). ?P x" by (auto dest: set_takeWhileD)
  ultimately show thesis
    by (intro that [OF es] ordered_append [OF o] refl) simp_all
qed

subsection \<open>The iterator follows the specification\<close>

lemma mi_collect_Cons:
  assumes "mi_collect m = r # rs"
  obtains m' where "mi_next m = (Some r, m')" "mi_collect m' = rs"
  using assms by (subst (asm) mi_collect.simps) (auto split: prod.splits option.splits)

lemma mi_collect_Nil: "mi_collect m = [] \<Longrightarrow> mi_next m = (None, m)"
  by (subst (asm) mi_collect.simps) (auto split: prod.splits option.splits dest: mi_next_None_size)

lemma kv_group_collect:
  assumes "mi_collect m = map Ok (g @ rest) @ tail" "\<forall>x \<in> set g. ik_user_key (fst x) = u"
    and "\<forall>x \<in> set rest. ik_user_key (fst x) \<noteq> u" "tail = [] \<or> tail = [Err err]"
  shows "\<exists>m'. kv_group u s newest m =
      (if rest = [] \<and> tail \<noteq> [] then Err err
       else Ok (fold (\<lambda>e n. consider_visible n e s) g newest, if rest = [] then None else Some (hd rest)), m') \<and>
    (rest = [] \<and> tail \<noteq> [] \<or> mi_collect m' = map Ok (tl rest) @ tail)"
  using assms(1,2)
proof (induction g arbitrary: m newest)
  case Nil
  show ?case
  proof (cases rest)
    case (Cons y ys)
    with Nil obtain m' where "mi_next m = (Some (Ok y), m')" "mi_collect m' = map Ok ys @ tail"
      by (auto elim: mi_collect_Cons)
    with assms(3) Cons show ?thesis by (subst kv_group.simps) simp
  next
    case rest: Nil
    from assms(4) show ?thesis
    proof
      assume "tail = []"
      with Nil rest mi_collect_Nil [of m] show ?thesis by (subst kv_group.simps) simp
    next
      assume t: "tail = [Err err]"
      with Nil rest obtain m' where "mi_next m = (Some (Err err), m')" by (auto elim: mi_collect_Cons)
      with rest t show ?thesis by (subst kv_group.simps) simp
    qed
  qed
next
  case (Cons a g)
  then obtain m1 where m1: "mi_next m = (Some (Ok a), m1)" "mi_collect m1 = map Ok (g @ rest) @ tail"
    by (auto elim: mi_collect_Cons)
  from Cons.IH [OF m1(2), of "consider_visible newest a s"] Cons.prems(2) m1(1) show ?case
    by (subst kv_group.simps) auto
qed

definition kv_items :: "kv_iterator \<Rightarrow> entry result list" where
  "kv_items it = (case kv_pending it of None \<Rightarrow> [] | Some e \<Rightarrow> [Ok e]) @ mi_collect (kv_merged it)"

definition kv_inv :: "kv_iterator \<Rightarrow> entry list \<Rightarrow> entry result list \<Rightarrow> bool" where
  "kv_inv it es tail \<longleftrightarrow> \<not> kv_failed it \<and> kv_items it = map Ok es @ tail \<and> ordered es \<and>
    (tail = [] \<or> (\<exists>err. tail = [Err err]))"

definition kv_spec :: "kv_iterator \<Rightarrow> entry list \<Rightarrow> (bytes \<times> bytes) list" where
  "kv_spec it = scan_spec (kv_bounds it) (kv_sequence it) (kv_read_time_unix_ms it)"

lemma take_pending_Cons:
  assumes "kv_items it = r # rs"
  obtains m where "take_pending it = (Some r, it\<lparr>kv_merged := m, kv_pending := None\<rparr>)" "mi_collect m = rs"
proof (cases "kv_pending it")
  case None
  with assms have "mi_collect (kv_merged it) = r # rs" by (simp add: kv_items_def)
  then obtain m where "mi_next (kv_merged it) = (Some r, m)" "mi_collect m = rs"
    by (rule mi_collect_Cons)
  moreover have "it\<lparr>kv_merged := m\<rparr> = it\<lparr>kv_merged := m, kv_pending := None\<rparr>" for m
    using None by (cases it) simp
  ultimately show thesis using None by (intro that [of m]) (auto simp: take_pending_def)
next
  case (Some e)
  have "it\<lparr>kv_merged := kv_merged it, kv_pending := None\<rparr> = it\<lparr>kv_pending := None\<rparr>" by (cases it) simp
  with Some assms show thesis
    by (intro that [of "kv_merged it"]) (simp_all add: kv_items_def take_pending_def)
qed

lemma take_pending_Nil: "kv_items it = [] \<Longrightarrow> take_pending it = (None, it)"
  using mi_collect_Nil [of "kv_merged it"] by (auto simp: kv_items_def take_pending_def split: option.splits)

text \<open>One pass of the outer loop: the group of the first entry, then an answer or another pass.\<close>

lemma kv_loop_group:
  assumes inv: "kv_inv it (e # g @ rest) tail" and g: "\<forall>x \<in> set g. ik_user_key (fst x) = ik_user_key (fst e)"
    and rest: "\<forall>x \<in> set rest. ik_user_key (fst e) < ik_user_key (fst x)" and o: "ordered (e # g)"
  defines "u \<equiv> ik_user_key (fst e)"
  shows "rest = [] \<and> (\<exists>err it'. tail = [Err err] \<and> kv_loop it = (Some (Err err), it') \<and> kv_failed it') \<or>
    (\<exists>it'. (rest = [] \<longrightarrow> tail = []) \<and> kv_inv it' rest tail \<and> kv_spec it' = kv_spec it \<and>
      kv_bounds it' = kv_bounds it \<and> kv_remaining it' = kv_remaining it \<and>
      kv_loop it =
        (if \<not> lower_allows (kv_bounds it) u then kv_loop it'
         else if \<not> upper_allows (kv_bounds it) u then (None, it')
         else case scan_key (kv_bounds it) (kv_sequence it) (kv_read_time_unix_ms it) (e # g) u of
           None \<Rightarrow> kv_loop it'
         | Some p \<Rightarrow> (Some (Ok p), it'\<lparr>kv_remaining := kv_remaining it - 1\<rparr>)))"
proof -
  from inv obtain m where tp: "take_pending it = (Some (Ok e), it\<lparr>kv_merged := m, kv_pending := None\<rparr>)"
    and m: "mi_collect m = map Ok (g @ rest) @ tail"
    by (auto simp: kv_inv_def elim: take_pending_Cons)
  from inv obtain err where tail: "tail = [] \<or> tail = [Err err]" by (auto simp: kv_inv_def)
  have nu: "\<forall>x \<in> set rest. ik_user_key (fst x) \<noteq> u" and gu: "\<forall>x \<in> set g. ik_user_key (fst x) = u"
    using rest g by (auto simp: u_def)
  let ?n = "map_option (\<lambda>e. (ik_sequence (fst e), snd e)) (newest_visible u (kv_sequence it) (e # g))"
  have n: "fold (\<lambda>e n. consider_visible n e (kv_sequence it)) g (consider_visible None e (kv_sequence it)) = ?n"
    using consider_newest [OF o, of u "kv_sequence it"] gu by (simp add: u_def)
  from kv_group_collect [OF m gu nu tail, of "kv_sequence it" "consider_visible None e (kv_sequence it)"] n
  obtain m' where m': "kv_group u (kv_sequence it) (consider_visible None e (kv_sequence it)) m =
      (if rest = [] \<and> tail \<noteq> [] then Err err else Ok (?n, if rest = [] then None else Some (hd rest)), m')"
    "rest = [] \<and> tail \<noteq> [] \<or> mi_collect m' = map Ok (tl rest) @ tail" by auto
  show ?thesis
  proof (cases "rest = [] \<and> tail \<noteq> []")
    case True
    with tail have "tail = [Err err]" by simp
    with True tp m' show ?thesis by (subst (1 2) kv_loop.simps) (simp add: u_def Let_def)
  next
    case False
    define pd where "pd = (if rest = [] then None else Some (hd rest))"
    define nv where "nv = newest_visible u (kv_sequence it) (e # g)"
    define it' where "it' = it\<lparr>kv_merged := m', kv_pending := pd\<rparr>"
    have "ordered rest" using inv ordered_append(1) [of "e # g" rest] by (simp add: kv_inv_def)
    then have "kv_inv it' rest tail"
      using inv m'(2) False by (cases rest) (auto simp: kv_inv_def kv_items_def it'_def pd_def)
    moreover have frame: "kv_spec it' = kv_spec it" "kv_bounds it' = kv_bounds it" "kv_remaining it' = kv_remaining it"
      "kv_read_time_unix_ms it' = kv_read_time_unix_ms it"
      by (simp_all add: it'_def kv_spec_def)
    moreover have grp: "kv_group u (kv_sequence it) (consider_visible None e (kv_sequence it)) m =
      (Ok (map_option (\<lambda>e. (ik_sequence (fst e), snd e)) nv, pd), m')"
      using m'(1) False by (simp only: nv_def pd_def if_False)
    have "kv_loop it =
        (if \<not> lower_allows (kv_bounds it) u then kv_loop it'
         else if \<not> upper_allows (kv_bounds it) u then (None, it')
         else case nv of None \<Rightarrow> kv_loop it' | Some x \<Rightarrow>
           (case record_into_value (snd x) (kv_read_time_unix_ms it) of None \<Rightarrow> kv_loop it'
            | Some v \<Rightarrow> (Some (Ok (u, v)), it'\<lparr>kv_remaining := kv_remaining it - 1\<rparr>)))"
      unfolding kv_loop.simps [of it] tp
      by (simp add: u_def [symmetric] grp Let_def it'_def [symmetric] frame
          split: option.splits value_record.splits)
    then have "kv_loop it =
        (if \<not> lower_allows (kv_bounds it) u then kv_loop it'
         else if \<not> upper_allows (kv_bounds it) u then (None, it')
         else case scan_key (kv_bounds it) (kv_sequence it) (kv_read_time_unix_ms it) (e # g) u of
           None \<Rightarrow> kv_loop it'
         | Some p \<Rightarrow> (Some (Ok p), it'\<lparr>kv_remaining := kv_remaining it - 1\<rparr>))"
      unfolding scan_key_def user_key_in_bounds_def nv_def [symmetric] by (simp split: option.splits)
    moreover have "rest = [] \<longrightarrow> tail = []" using False by simp
    ultimately show ?thesis by blast
  qed
qed

text \<open>
  A failed merge leaves a prefix of the entries; \<open>missing\<close> are the ones after it, which the
  iterator cannot see and which no answer depends on.
\<close>

lemma ordered_group_missing:
  assumes "ordered ((e # g @ rest) @ missing)" "\<forall>x \<in> set rest. ik_user_key (fst e) < ik_user_key (fst x)"
    and "rest = [] \<longrightarrow> missing = []"
  shows "\<forall>x \<in> set (rest @ missing). ik_user_key (fst e) < ik_user_key (fst x)"
proof (cases rest)
  case (Cons y ys)
  have "ordered (y # ys @ missing)" using assms(1) ordered_append(1) [of "e # g"] by (simp add: Cons)
  then have "ik_user_key (fst y) \<le> ik_user_key (fst x)" if "x \<in> set missing" for x
    using that ordered_user_key(1) [of y "ys @ missing" x] by simp
  with assms(2) Cons show ?thesis by (auto dest: less_le_trans)
qed (use assms(3) in simp)

lemma kv_loop_spec:
  assumes "kv_inv it es tail" "kv_loop it = (r, it')" "ordered (es @ missing)" "tail = [] \<longrightarrow> missing = []"
  shows "(\<exists>p ps es'. kv_spec it (es @ missing) = p # ps \<and> r = Some (Ok p) \<and> kv_inv it' es' tail \<and>
      ordered (es' @ missing) \<and> kv_spec it' (es' @ missing) = ps \<and> kv_remaining it' = kv_remaining it - 1) \<or>
    r = None \<and> kv_spec it (es @ missing) = [] \<and> (\<exists>es'. kv_inv it' es' tail \<and> ordered (es' @ missing) \<and>
      kv_spec it' (es' @ missing) = [] \<and> kv_remaining it' = kv_remaining it) \<or>
    (\<exists>err. tail = [Err err] \<and> r = Some (Err err) \<and> kv_failed it')"
  using assms(1-3)
proof (induction "length es" arbitrary: it es rule: less_induct)
  case less
  show ?case
  proof (cases es)
    case Nil
    show ?thesis
    proof (cases tail)
      case _: Nil
      with less.prems assms(4) \<open>es = []\<close> show ?thesis
        using take_pending_Nil [of it]
        by (subst (asm) kv_loop.simps)
          (auto simp: kv_inv_def kv_spec_def scan_spec_def user_keys_def List.map_filter_simps intro!: exI [of _ "[]"])
    next
      case (Cons t ts)
      with less.prems(1) Nil obtain err m where "tail = [Err err]"
        "take_pending it = (Some (Err err), it\<lparr>kv_merged := m, kv_pending := None\<rparr>)"
        by (auto simp: kv_inv_def elim: take_pending_Cons)
      with less.prems(2) show ?thesis by (subst (asm) kv_loop.simps) auto
    qed
  next
    case (Cons e es1)
    with less.prems(1) have o: "ordered (e # es1)" by (simp add: kv_inv_def)
    from ordered_group [OF o] obtain g rest where g: "es1 = g @ rest"
      "\<forall>x \<in> set g. ik_user_key (fst x) = ik_user_key (fst e)"
      "\<forall>x \<in> set rest. ik_user_key (fst e) < ik_user_key (fst x)" "ordered (e # g)" by blast
    let ?u = "ik_user_key (fst e)"
    let ?k = "scan_key (kv_bounds it) (kv_sequence it) (kv_read_time_unix_ms it) (e # g) ?u"
    have inv: "kv_inv it (e # g @ rest) tail" using less.prems(1) Cons g(1) by simp
    from kv_loop_group [OF inv g(2-4)] show ?thesis
    proof
      assume "rest = [] \<and> (\<exists>err it'. tail = [Err err] \<and> kv_loop it = (Some (Err err), it') \<and> kv_failed it')"
      with less.prems(2) show ?thesis by auto
    next
      assume "\<exists>it'. (rest = [] \<longrightarrow> tail = []) \<and> kv_inv it' rest tail \<and> kv_spec it' = kv_spec it \<and>
        kv_bounds it' = kv_bounds it \<and> kv_remaining it' = kv_remaining it \<and> kv_loop it =
        (if \<not> lower_allows (kv_bounds it) ?u then kv_loop it'
         else if \<not> upper_allows (kv_bounds it) ?u then (None, it')
         else case ?k of None \<Rightarrow> kv_loop it'
           | Some p \<Rightarrow> (Some (Ok p), it'\<lparr>kv_remaining := kv_remaining it - 1\<rparr>))"
      then obtain it1 where it1: "kv_inv it1 rest tail" "kv_spec it1 = kv_spec it"
        "kv_remaining it1 = kv_remaining it" "rest = [] \<longrightarrow> tail = []" and loop: "kv_loop it =
        (if \<not> lower_allows (kv_bounds it) ?u then kv_loop it1
         else if \<not> upper_allows (kv_bounds it) ?u then (None, it1)
         else case ?k of None \<Rightarrow> kv_loop it1
           | Some p \<Rightarrow> (Some (Ok p), it1\<lparr>kv_remaining := kv_remaining it - 1\<rparr>))" by blast
      have om: "ordered ((e # g @ rest) @ missing)" using less.prems(3) by (simp add: Cons g(1))
      then have o1: "ordered (rest @ missing)" using ordered_append(1) [of "e # g" "rest @ missing"] by simp
      have above: "\<forall>x \<in> set (rest @ missing). ?u < ik_user_key (fst x)"
        using it1(4) assms(4) by (intro ordered_group_missing [OF om g(3)]) simp
      then have others: "\<forall>x \<in> set (rest @ missing). ik_user_key (fst x) \<noteq> ?u" by (metis order_less_irrefl)
      have "\<forall>x \<in> set (e # g). ik_user_key (fst x) = ?u" using g(2) by simp
      from scan_spec_group [OF _ this others] have spec: "kv_spec it (es @ missing) = (case ?k of None \<Rightarrow> [] | Some p \<Rightarrow> [p]) @ kv_spec it (rest @ missing)"
        by (simp add: Cons g(1) kv_spec_def)
      have IH: ?thesis if "kv_loop it = kv_loop it1" "?k = None"
        using less.hyps [OF _ it1(1) _ o1] Cons g(1) that less.prems(2) spec it1(2,3) by auto
      consider "\<not> lower_allows (kv_bounds it) ?u" | "lower_allows (kv_bounds it) ?u" "\<not> upper_allows (kv_bounds it) ?u"
        | "lower_allows (kv_bounds it) ?u" "upper_allows (kv_bounds it) ?u" by blast
      then show ?thesis
      proof cases
        case 1
        then show ?thesis by (intro IH) (simp_all add: loop scan_key_def user_key_in_bounds_def)
      next
        case 2
        have "\<forall>x \<in> set (rest @ missing). \<not> upper_allows (kv_bounds it) (ik_user_key (fst x))"
          using upper_allows_mono [OF 2(2)] above by (auto dest: less_imp_le)
        then have "kv_spec it (rest @ missing) = []" by (simp add: kv_spec_def scan_spec_above)
        moreover from 2 have "?k = None" by (simp add: scan_key_def user_key_in_bounds_def)
        ultimately show ?thesis using 2 loop less.prems(2) it1 spec o1 by auto
      next
        case 3
        show ?thesis
        proof (cases ?k)
          case None
          with 3 show ?thesis by (intro IH) (simp_all add: loop)
        next
          case (Some p)
          with 3 loop less.prems(2) have r: "r = Some (Ok p)" "it' = it1\<lparr>kv_remaining := kv_remaining it - 1\<rparr>"
            by auto
          have "kv_inv it' rest tail" "kv_spec it' = kv_spec it1"
            using it1(1) by (simp_all add: r(2) kv_inv_def kv_items_def kv_spec_def)
          with Some spec r it1 o1 show ?thesis by auto
        qed
      qed
    qed
  qed
qed

lemma kv_failed_calls: "kv_failed it \<or> kv_remaining it = 0 \<Longrightarrow> kv_calls n it = replicate n None"
  by (induction n) (auto simp: kv_next_def)

text \<open>What the calls return: answers of the specification, and after an error nothing.\<close>

fun values_of :: "(bytes \<times> bytes) result option list \<Rightarrow> (bytes \<times> bytes) list" where
  "values_of (Some (Inr p) # rs) = p # values_of rs"
| "values_of (_ # rs) = values_of rs"
| "values_of [] = []"

lemma values_of_None [simp]: "values_of (replicate n None) = []"
  by (induction n) auto

lemma replicate_None_split: "replicate n None = xs @ Some x # ys \<Longrightarrow> False"
  by (drule arg_cong [where f = set]) (auto simp: set_replicate_conv_if split: if_splits)

lemma kv_calls_spec:
  assumes "kv_inv it es []"
  shows "kv_calls n it = take n (map (\<lambda>p. Some (Ok p)) (take (kv_remaining it) (kv_spec it es)) @ replicate n None)"
  using assms
proof (induction n arbitrary: it es)
  case (Suc n)
  show ?case
  proof (cases "kv_remaining it")
    case 0
    then show ?thesis using kv_failed_calls [of it "Suc n"] by simp
  next
    case (Suc k)
    obtain r it' where l: "kv_loop it = (r, it')" by fastforce
    with Suc Suc.prems have nx: "kv_next it = (r, it')" by (simp add: kv_next_def kv_inv_def)
    from kv_loop_spec [OF Suc.prems l, of "[]"] Suc.prems show ?thesis
      using Suc.IH [of it'] Suc
      by (auto simp: nx kv_inv_def replicate_append_same simp flip: replicate_Suc)
  qed
qed simp

lemma kv_calls_failing:
  assumes "kv_inv it es tail" "ordered (es @ missing)" "tail = [] \<longrightarrow> missing = []"
  shows "prefix (values_of (kv_calls n it)) (take (kv_remaining it) (kv_spec it (es @ missing)))"
    and "kv_calls n it = xs @ Some (Inl err) # ys \<Longrightarrow> tail = [Err err] \<and> set ys \<subseteq> {None}"
proof -
  show "prefix (values_of (kv_calls n it)) (take (kv_remaining it) (kv_spec it (es @ missing)))"
    using assms
  proof (induction n arbitrary: it es)
    case (Suc n)
    obtain r it' where l: "kv_loop it = (r, it')" by fastforce
    show ?case
    proof (cases "kv_remaining it")
      case 0
      then show ?thesis using kv_failed_calls [of it "Suc n"] by simp
    next
      case (Suc k)
      with l Suc.prems(1) have nx: "kv_next it = (r, it')" by (simp add: kv_next_def kv_inv_def)
      from kv_loop_spec [OF Suc.prems(1) l Suc.prems(2,3)] show ?thesis
        using Suc.IH [of it'] Suc.prems(3) Suc kv_failed_calls [of it' n] by (fastforce simp: nx)
    qed
  qed simp
  show "tail = [Err err] \<and> set ys \<subseteq> {None}" if "kv_calls n it = xs @ Some (Inl err) # ys"
    using assms that
  proof (induction n arbitrary: it es xs)
    case (Suc n)
    obtain r it' where l: "kv_loop it = (r, it')" by fastforce
    show ?case
    proof (cases "kv_remaining it")
      case 0
      then have "kv_calls (Suc n) it = replicate (Suc n) None" by (intro kv_failed_calls) simp
      with Suc.prems(4) show ?thesis using replicate_None_split by metis
    next
      case (Suc k)
      with l Suc.prems(1) have nx: "kv_next it = (r, it')" by (simp add: kv_next_def kv_inv_def)
      with Suc.prems(4) have rs: "r # kv_calls n it' = xs @ Some (Inl err) # ys" by simp
      have again: ?thesis if "r \<noteq> Some (Inl err)" "kv_inv it' es' tail" "ordered (es' @ missing)" for es'
      proof -
        from rs that(1) obtain xs' where "kv_calls n it' = xs' @ Some (Inl err) # ys" by (cases xs) auto
        with Suc.IH [OF that(2,3) Suc.prems(3)] show ?thesis .
      qed
      from kv_loop_spec [OF Suc.prems(1) l Suc.prems(2,3)] consider
        (item) es' where "r \<noteq> Some (Inl err)" "kv_inv it' es' tail" "ordered (es' @ missing)"
        | (error) e where "tail = [Err e]" "r = Some (Err e)" "kv_failed it'" by force
      then show ?thesis
      proof cases
        case error
        have c: "kv_calls n it' = replicate n None" using error(3) by (simp add: kv_failed_calls)
        show ?thesis
        proof (cases xs)
          case Nil
          with rs error(2) have "e = err" "ys = replicate n None" unfolding c by simp_all
          with error(1) show ?thesis by auto
        next
          case (Cons x xs')
          with rs c have "replicate n None = xs' @ Some (Inl err) # ys" by simp
          then show ?thesis by (rule replicate_None_split [THEN FalseE])
        qed
      qed (rule again)
    qed
  qed simp
qed

section \<open>Prefixes and ranges\<close>

lemma prefix_successor_cases:
  obtains (none) "prefix_successor p = None" "\<forall>b \<in> set p. b = 0xff"
  | (some) q b n where "p = q @ b # replicate n 0xff" "b \<noteq> 0xff" "prefix_successor p = Some (q @ [b + 1])"
proof (cases "dropWhile (\<lambda>b. b = 0xff) (rev p)")
  case Nil
  show thesis
  proof (rule none)
    show "prefix_successor p = None" unfolding prefix_successor_def Nil by simp
    show "\<forall>b \<in> set p. b = 0xff" using Nil by simp
  qed
next
  case (Cons b rest)
  then have d: "rev p = takeWhile (\<lambda>b. b = 0xff) (rev p) @ b # rest" "b \<noteq> 0xff"
    by (auto simp: dropWhile_eq_Cons_conv)
  define n where "n = length (takeWhile (\<lambda>b. b = 0xff) (rev p))"
  have "takeWhile (\<lambda>b. b = 0xff) (rev p) = replicate n 0xff"
    unfolding n_def by (rule replicate_eqI) (auto dest: set_takeWhileD)
  with d(1) have "p = rev (replicate n 0xff @ b # rest)" by (metis rev_rev_ident)
  then show thesis using d(2) Cons by (intro some [of "rev rest" b n]) (simp_all add: prefix_successor_def)
qed

lemma le_replicate_max:
  fixes xs :: bytes
  assumes "\<forall>b \<in> set p. b = 0xff"
  shows "p \<le> xs \<longleftrightarrow> prefix p xs"
  using assms
proof (induction p arbitrary: xs)
  case (Cons b p)
  have "x \<le> 0xff" for x :: u8 using unat_lt2p [of x] by (simp add: word_le_nat_alt)
  then have "\<not> (0xff :: u8) < x" for x by (simp add: not_less)
  with Cons show ?case by (cases xs) auto
qed simp

lemma byte_successor:
  fixes b x :: u8
  assumes "b \<noteq> 0xff"
  shows "x < b + 1 \<longleftrightarrow> x \<le> b"
proof -
  have "1 + b \<noteq> 0"
  proof
    assume "1 + b = 0"
    then have "b = - 1" by (metis add.commute eq_neg_iff_add_eq_0)
    with assms show False by simp
  qed
  from unatSuc [OF this] show ?thesis by (simp add: word_less_nat_alt word_le_nat_alt add.commute less_Suc_eq_le)
qed

lemma prefix_range:
  "user_key_in_bounds (prefix_bounds p) k \<longleftrightarrow> prefix p k"
proof (cases p rule: prefix_successor_cases)
  case none
  then show ?thesis
    by (simp add: user_key_in_bounds_def prefix_bounds_def lower_allows_def upper_allows_def le_replicate_max)
next
  case (some q b n)
  have "q @ b # replicate n 0xff \<le> k \<and> k < q @ [b + 1] \<longleftrightarrow> prefix (q @ b # replicate n 0xff) k"
  proof (induction q arbitrary: k)
    case Nil
    have r: "replicate n 0xff \<le> xs \<longleftrightarrow> prefix (replicate n 0xff) xs" for xs :: bytes
      by (rule le_replicate_max) simp
    show ?case
    proof (cases k)
      case (Cons x xs)
      have "b < x \<or> b = x \<Longrightarrow> x \<le> b \<Longrightarrow> b = x" by auto
      then show ?thesis unfolding Cons by (auto simp: r byte_successor [OF some(2)])
    qed simp
  next
    case (Cons c q)
    show ?case
    proof (cases k)
      case k: (Cons x xs)
      have "(c < x \<or> c = x \<and> P) \<and> (x < c \<or> x = c \<and> Q) \<longleftrightarrow> c = x \<and> P \<and> Q" for P Q by auto
      with Cons.IH [of xs] show ?thesis unfolding k append_Cons Cons_le_Cons Cons_less_Cons Cons_prefix_Cons
        by metis
    qed simp
  qed
  with some show ?thesis
    by (simp add: user_key_in_bounds_def prefix_bounds_def lower_allows_def upper_allows_def)
qed

text \<open>A file whose range does not overlap the bounds has no key inside them.\<close>

lemma overlaps_complete:
  "lo \<le> k \<Longrightarrow> k \<le> hi \<Longrightarrow> user_key_in_bounds b k \<Longrightarrow> overlaps_bounds lo hi b"
  by (auto simp: user_key_in_bounds_def lower_allows_def upper_allows_def overlaps_bounds_def split: bound.splits)

section \<open>Properties\<close>

lemma kv_inv_new:
  assumes "mi_collect (mi_new cs) = map Ok ys @ tail" "ordered ys" "tail = [] \<or> (\<exists>err. tail = [Err err])"
  shows "kv_inv (kv_new cs b s now limit) ys tail"
  using assms by (simp add: kv_inv_def kv_items_def kv_new_def)

lemma merged_ordered:
  assumes "\<forall>items \<in> set cs. ordered (ok_items items)"
  shows "ordered (sort_key ekey (concat (map ok_items cs)))" "\<forall>items \<in> set cs. sorted (map ekey (ok_items items))"
  using assms by (auto simp: ordered_def)

text \<open>
  C8. Merging sorted children is a stable sort of their concatenation: with no read error the
  merging iterator yields exactly the entries of all children in key order, equal keys in the order
  of the children; if some child fails, it yields a prefix of that sequence, one of the errors, and
  nothing more.
\<close>

theorem merge_is_stable_sort:
  assumes "\<forall>items \<in> set cs. sorted (map ekey (ok_items items))"
  shows "\<exists>ys. prefix ys (sort_key ekey (concat (map ok_items cs))) \<and>
    (errors_of cs = {} \<and> ys = sort_key ekey (concat (map ok_items cs)) \<and> mi_collect (mi_new cs) = map Ok ys \<or>
     (\<exists>err \<in> errors_of cs. mi_collect (mi_new cs) = map Ok ys @ [Err err]))"
  using assms by (rule merge_new)

text \<open>
  C7. A scan without read errors ends and is right: the calls of \<open>KvIterator::next\<close> return, one
  per call, for the user keys inside the bounds in ascending order the newest version visible at
  the snapshot sequence, leaving out tombstones and values that have expired, at most
  \<open>limit\<close> of them, and every later call returns \<open>None\<close>.
\<close>

theorem scan_yields_visible:
  assumes "\<forall>items \<in> set cs. ordered (ok_items items)" "errors_of cs = {}"
  shows "kv_calls n (kv_new cs b s now limit) =
    take n (map (\<lambda>p. Some (Ok p)) (take limit (scan_spec b s now (sort_key ekey (concat (map ok_items cs))))) @
      replicate n None)"
proof -
  have "mi_collect (mi_new cs) = map Ok (sort_key ekey (concat (map ok_items cs))) @ []"
    using merge_new [OF merged_ordered(2) [OF assms(1)]] assms(2) by auto
  from kv_calls_spec [OF kv_inv_new [OF this merged_ordered(1) [OF assms(1)]], of n b s now limit] show ?thesis
    by (simp add: kv_spec_def kv_new_def)
qed


text \<open>
  C33. \<open>prefix_bounds\<close> selects exactly the user keys that start with the prefix, also when the
  prefix ends in \<open>0xff\<close> bytes, consists of them, or is empty.
\<close>

theorem prefix_bounds_exact:
  "user_key_in_bounds (prefix_bounds p) k \<longleftrightarrow> prefix p k"
  by (rule prefix_range)

definition sample_children :: "child_iterator list" where
  "sample_children = [[Ok (sample_key [1] 5, Tombstone)],
    [Ok (sample_key [1] 4, RecordValue [7] None), Ok (sample_key [2] 4, RecordValue [8] (Some 100))]]"

lemma sample_children_ordered: "\<forall>items \<in> set sample_children. ordered (ok_items items)"
  by (auto simp: sample_children_def ordered_def sample_fields wf_key_less_iff simp flip: not_less)

lemma sample_children_sorted:
  "sort_key ekey (concat (map ok_items sample_children)) = concat (map ok_items sample_children)"
  by (rule sort_key_id_if_sorted)
    (auto simp: sample_children_def sample_fields wf_key_less_iff simp flip: not_less)

theorem merge_is_stable_sort_witness:
  "\<exists>ys. prefix ys (sort_key ekey (concat (map ok_items sample_children))) \<and>
    mi_collect (mi_new sample_children) = map Ok ys \<and> length ys = 3"
proof -
  have "\<forall>items \<in> set sample_children. sorted (map ekey (ok_items items))"
    using sample_children_ordered by (simp add: ordered_def)
  from merge_is_stable_sort [OF this] show ?thesis
    by (simp only: sample_children_sorted) (auto simp: errors_of_def sample_children_def)
qed

theorem scan_yields_visible_witness:
  "kv_calls 3 (kv_new sample_children sb_all 5 50 10) = [Some (Ok ([2], [8])), None, None]"
  by (subst scan_yields_visible [OF sample_children_ordered])
    (simp_all only: sample_children_sorted, auto simp: errors_of_def sample_children_def scan_spec_def
      user_keys_def scan_key_def user_key_in_bounds_def lower_allows_def upper_allows_def sb_all_def
      visible_def sample_fields List.map_filter_simps numeral_3_eq_3)


end
