(* ===== verification/Manifest_Edit.thy ===== *)
theory Manifest_Edit
  imports Log_Framing Versions
begin

text \<open>
  The logical records of a manifest and the names of database files (\<open>manifest.rs\<close>): the
  binary codec of version edits with its checked cursor, the contents of \<open>CURRENT\<close>, and the
  canonical names of manifests and SSTables.
\<close>

section \<open>Encoding\<close>

definition FORMAT_VERSION :: u8 where "FORMAT_VERSION = 2"
definition MAX_EDIT_BYTES :: usize where "MAX_EDIT_BYTES = 64 * 1024 * 1024"

abbreviation manifest_corruption :: error where
  "manifest_corruption \<equiv> Corruption ManifestCtx"

fun put_optional_u64 :: "bytes \<Rightarrow> u64 option \<Rightarrow> bytes" where
  "put_optional_u64 encoded (Some w) = encoded @ [1] @ u64_to_le w"
| "put_optional_u64 encoded None = encoded @ [0]"

definition put_count :: "bytes \<Rightarrow> usize \<Rightarrow> bytes result" where
  "put_count encoded n =
    rbind (ok_or (u32_try_from n) InvalidArgument) (\<lambda>w. Ok (encoded @ u32_to_le w))"

definition put_level :: "bytes \<Rightarrow> usize \<Rightarrow> bytes result" where
  "put_level encoded level =
    (if level \<ge> NUM_LEVELS then Err InvalidArgument
     else Ok (encoded @ u32_to_le (word_of_nat level)))"

definition put_bytes :: "bytes \<Rightarrow> bytes \<Rightarrow> bytes result" where
  "put_bytes encoded bs =
    rbind (ok_or (u32_try_from (length bs)) InvalidArgument) (\<lambda>w. Ok (encoded @ u32_to_le w @ bs))"

fun put_deleted :: "bytes \<Rightarrow> (usize \<times> u64) list \<Rightarrow> bytes result" where
  "put_deleted encoded [] = Ok encoded"
| "put_deleted encoded ((level, number) # ds) =
    rbind (put_level encoded level) (\<lambda>encoded. put_deleted (encoded @ u64_to_le number) ds)"

fun put_added :: "bytes \<Rightarrow> (usize \<times> file_meta) list \<Rightarrow> bytes result" where
  "put_added encoded [] = Ok encoded"
| "put_added encoded ((level, f) # as) =
    rbind (put_level encoded level) (\<lambda>encoded.
    rbind (put_bytes (encoded @ u64_to_le (fm_number f) @ u64_to_le (fm_file_size f))
             (ik_encoded (fm_smallest f))) (\<lambda>encoded.
    rbind (put_bytes encoded (ik_encoded (fm_largest f))) (\<lambda>encoded.
    put_added encoded as)))"

definition encode_edit :: "version_edit \<Rightarrow> bytes result" where
  "encode_edit e =
    (let encoded = [FORMAT_VERSION];
         encoded = put_optional_u64 encoded (ve_next_file_number e);
         encoded = put_optional_u64 encoded (ve_last_sequence e);
         encoded = put_optional_u64 encoded (ve_log_number e);
         encoded = put_optional_u64 encoded (ve_active_log_number e);
         encoded = put_optional_u64 encoded (ve_wal_sequence e)
     in rbind (put_count encoded (length (ve_deleted_files e))) (\<lambda>encoded.
        rbind (put_deleted encoded (ve_deleted_files e)) (\<lambda>encoded.
        rbind (put_count encoded (length (ve_added_files e))) (\<lambda>encoded.
        rbind (put_added encoded (ve_added_files e)) (\<lambda>encoded.
        if length encoded > MAX_EDIT_BYTES then Err InvalidArgument else Ok encoded)))))"

section \<open>Decoding\<close>

record cursor =
  cu_bytes :: bytes
  cu_position :: usize

definition cu_new :: "bytes \<Rightarrow> cursor" where
  "cu_new bs = \<lparr>cu_bytes = bs, cu_position = 0\<rparr>"

definition cu_take :: "usize \<Rightarrow> cursor \<Rightarrow> (bytes \<times> cursor) result" where
  "cu_take n c =
    rbind (ok_or (Option.bind (checked_add_usize (cu_position c) n)
             (\<lambda>e. if e \<le> length (cu_bytes c) then Some e else None)) manifest_corruption)
    (\<lambda>e. Ok (take (e - cu_position c) (drop (cu_position c) (cu_bytes c)), c\<lparr>cu_position := e\<rparr>))"

definition cu_u8 :: "cursor \<Rightarrow> (u8 \<times> cursor) result" where
  "cu_u8 c = rbind (cu_take 1 c) (\<lambda>(bs, c). Ok (bs ! 0, c))"

definition cu_u32 :: "cursor \<Rightarrow> (u32 \<times> cursor) result" where
  "cu_u32 c = rbind (cu_take 4 c) (\<lambda>(bs, c). Ok (u32_from_le bs, c))"

definition cu_u64 :: "cursor \<Rightarrow> (u64 \<times> cursor) result" where
  "cu_u64 c = rbind (cu_take 8 c) (\<lambda>(bs, c). Ok (u64_from_le bs, c))"

definition cu_optional_u64 :: "cursor \<Rightarrow> (u64 option \<times> cursor) result" where
  "cu_optional_u64 c = rbind (cu_u8 c) (\<lambda>(marker, c).
    if marker = 0 then Ok (None, c)
    else if marker = 1 then rbind (cu_u64 c) (\<lambda>(w, c). Ok (Some w, c))
    else Err manifest_corruption)"

definition cu_count :: "cursor \<Rightarrow> (usize \<times> cursor) result" where
  "cu_count c = rbind (cu_u32 c) (\<lambda>(w, c). Ok (unat w, c))"

definition cu_level :: "cursor \<Rightarrow> (usize \<times> cursor) result" where
  "cu_level c = rbind (cu_count c) (\<lambda>(level, c).
    if level \<ge> NUM_LEVELS then Err manifest_corruption else Ok (level, c))"

definition cu_length_bytes :: "cursor \<Rightarrow> (bytes \<times> cursor) result" where
  "cu_length_bytes c = rbind (cu_count c) (\<lambda>(n, c). cu_take n c)"

definition cu_remaining :: "cursor \<Rightarrow> usize" where
  "cu_remaining c = length (cu_bytes c) - cu_position c"

definition nested_key_error :: "error \<Rightarrow> error" where
  "nested_key_error err = manifest_corruption"

fun recovery_edit_error :: "error \<Rightarrow> error" where
  "recovery_edit_error InvalidArgument = manifest_corruption"
| "recovery_edit_error other = other"

fun decode_deleted :: "nat \<Rightarrow> cursor \<Rightarrow> (usize \<times> u64) list \<Rightarrow> ((usize \<times> u64) list \<times> cursor) result" where
  "decode_deleted 0 c ds = Ok (ds, c)"
| "decode_deleted (Suc n) c ds =
    rbind (cu_level c) (\<lambda>(level, c).
    rbind (cu_u64 c) (\<lambda>(number, c).
    decode_deleted n c (ds @ [(level, number)])))"

definition decode_file :: "cursor \<Rightarrow> ((usize \<times> file_meta) \<times> cursor) result" where
  "decode_file c =
    rbind (cu_level c) (\<lambda>(level, c).
    rbind (cu_u64 c) (\<lambda>(number, c).
    rbind (cu_u64 c) (\<lambda>(file_size, c).
    rbind (cu_length_bytes c) (\<lambda>(bs, c).
    rbind (map_err nested_key_error (ik_decode bs)) (\<lambda>smallest.
    rbind (cu_length_bytes c) (\<lambda>(bs, c).
    rbind (map_err nested_key_error (ik_decode bs)) (\<lambda>largest.
    rbind (map_err recovery_edit_error (fm_new number file_size smallest largest)) (\<lambda>f.
    Ok ((level, f), c)))))))))"

fun decode_added ::
    "nat \<Rightarrow> cursor \<Rightarrow> (usize \<times> file_meta) list \<Rightarrow> ((usize \<times> file_meta) list \<times> cursor) result" where
  "decode_added 0 c as = Ok (as, c)"
| "decode_added (Suc n) c as = rbind (decode_file c) (\<lambda>(lf, c). decode_added n c (as @ [lf]))"

text \<open>The three log counters exist from format version 2 on.\<close>

definition decode_log_numbers ::
    "u8 \<Rightarrow> cursor \<Rightarrow> ((u64 option \<times> u64 option \<times> u64 option) \<times> cursor) result" where
  "decode_log_numbers version c =
    (if version \<ge> 2 then
       rbind (cu_optional_u64 c) (\<lambda>(log_number, c).
       rbind (cu_optional_u64 c) (\<lambda>(active_log_number, c).
       rbind (cu_optional_u64 c) (\<lambda>(wal_sequence, c).
       Ok ((log_number, active_log_number, wal_sequence), c))))
     else Ok ((None, None, None), c))"

text \<open>The two loops over the deleted and the added files, each after its count.\<close>

definition decode_file_lists ::
    "cursor \<Rightarrow> (((usize \<times> u64) list \<times> (usize \<times> file_meta) list) \<times> cursor) result" where
  "decode_file_lists c =
    rbind (cu_count c) (\<lambda>(deleted_count, c).
    rbind (decode_deleted deleted_count c []) (\<lambda>(deleted_files, c).
    rbind (cu_count c) (\<lambda>(added_count, c).
    rbind (decode_added added_count c []) (\<lambda>(added_files, c).
    Ok ((deleted_files, added_files), c)))))"

definition decode_edit :: "bytes \<Rightarrow> version_edit result" where
  "decode_edit encoded =
    (if length encoded > MAX_EDIT_BYTES then Err manifest_corruption
     else
       rbind (cu_u8 (cu_new encoded)) (\<lambda>(version, c).
       if version \<noteq> 1 \<and> version \<noteq> FORMAT_VERSION then Err (UnsupportedFormat ManifestFormat (ucast version))
       else
         rbind (cu_optional_u64 c) (\<lambda>(next_file_number, c).
         rbind (cu_optional_u64 c) (\<lambda>(last_sequence, c).
         rbind (decode_log_numbers version c) (\<lambda>((log_number, active_log_number, wal_sequence), c).
         rbind (decode_file_lists c) (\<lambda>((deleted_files, added_files), c).
         if cu_remaining c \<noteq> 0 then Err manifest_corruption
         else Ok \<lparr>ve_added_files = added_files, ve_deleted_files = deleted_files,
           ve_next_file_number = next_file_number, ve_last_sequence = last_sequence,
           ve_log_number = log_number, ve_active_log_number = active_log_number,
           ve_wal_sequence = wal_sequence\<rparr>))))))"

section \<open>The bytes of an edit\<close>

fun opt_bytes :: "u64 option \<Rightarrow> bytes" where
  "opt_bytes None = [0]"
| "opt_bytes (Some w) = [1] @ u64_to_le w"

definition count_bytes :: "nat \<Rightarrow> bytes" where
  "count_bytes n = u32_to_le (word_of_nat n)"

fun deleted_bytes :: "usize \<times> u64 \<Rightarrow> bytes" where
  "deleted_bytes (level, number) = count_bytes level @ u64_to_le number"

definition key_bytes :: "internal_key \<Rightarrow> bytes" where
  "key_bytes k = count_bytes (length (ik_encoded k)) @ ik_encoded k"

fun added_bytes :: "usize \<times> file_meta \<Rightarrow> bytes" where
  "added_bytes (level, f) = count_bytes level @ u64_to_le (fm_number f) @ u64_to_le (fm_file_size f) @
    key_bytes (fm_smallest f) @ key_bytes (fm_largest f)"

definition files_bytes :: "version_edit \<Rightarrow> bytes" where
  "files_bytes e =
    count_bytes (length (ve_deleted_files e)) @ concat (map deleted_bytes (ve_deleted_files e)) @
    count_bytes (length (ve_added_files e)) @ concat (map added_bytes (ve_added_files e))"

definition log_bytes :: "version_edit \<Rightarrow> bytes" where
  "log_bytes e = opt_bytes (ve_log_number e) @ opt_bytes (ve_active_log_number e) @ opt_bytes (ve_wal_sequence e)"

definition edit_bytes :: "version_edit \<Rightarrow> bytes" where
  "edit_bytes e = [FORMAT_VERSION] @ opt_bytes (ve_next_file_number e) @ opt_bytes (ve_last_sequence e) @
    log_bytes e @ files_bytes e"

text \<open>The first format, which had no log counters.\<close>

definition legacy_edit_bytes :: "version_edit \<Rightarrow> bytes" where
  "legacy_edit_bytes e = [1] @ opt_bytes (ve_next_file_number e) @ opt_bytes (ve_last_sequence e) @ files_bytes e"

definition no_log_counters :: "version_edit \<Rightarrow> bool" where
  "no_log_counters e \<longleftrightarrow> ve_log_number e = None \<and> ve_active_log_number e = None \<and> ve_wal_sequence e = None"

lemma length_count_bytes [simp]: "length (count_bytes n) = 4"
  by (simp add: count_bytes_def)

text \<open>What the format can express; the size limit implies the bounds on the lengths.\<close>

definition levels_fit :: "version_edit \<Rightarrow> bool" where
  "levels_fit e \<longleftrightarrow> (\<forall>d \<in> set (ve_deleted_files e). fst d < NUM_LEVELS) \<and>
    (\<forall>a \<in> set (ve_added_files e). fst a < NUM_LEVELS)"

definition edit_fits :: "version_edit \<Rightarrow> bool" where
  "edit_fits e \<longleftrightarrow> levels_fit e \<and> length (edit_bytes e) \<le> MAX_EDIT_BYTES"

lemma put_optional_u64_eq: "put_optional_u64 acc v = acc @ opt_bytes v"
  by (cases v) simp_all

lemma put_count_eq: "put_count acc n = (if n < 2 ^ 32 then Ok (acc @ count_bytes n) else Err InvalidArgument)"
  by (simp add: put_count_def u32_try_from_def count_bytes_def)

lemma put_bytes_eq:
  "put_bytes acc bs = (if length bs < 2 ^ 32 then Ok (acc @ count_bytes (length bs) @ bs) else Err InvalidArgument)"
  by (simp add: put_bytes_def u32_try_from_def count_bytes_def)

lemma put_deleted_eq:
  "put_deleted acc ds =
    (if \<forall>d \<in> set ds. fst d < NUM_LEVELS then Ok (acc @ concat (map deleted_bytes ds)) else Err InvalidArgument)"
proof (induction ds arbitrary: acc)
  case (Cons d ds)
  then show ?case by (cases d) (simp add: put_level_def count_bytes_def not_le)
qed simp

definition keys_fit :: "file_meta \<Rightarrow> bool" where
  "keys_fit f \<longleftrightarrow> length (ik_encoded (fm_smallest f)) < 2 ^ 32 \<and> length (ik_encoded (fm_largest f)) < 2 ^ 32"

lemma put_added_eq:
  "put_added acc as =
    (if \<forall>a \<in> set as. fst a < NUM_LEVELS \<and> keys_fit (snd a) then Ok (acc @ concat (map added_bytes as)) else Err InvalidArgument)"
proof (induction as arbitrary: acc)
  case (Cons a as)
  then show ?case
    by (cases a) (simp add: put_level_def put_bytes_eq keys_fit_def key_bytes_def count_bytes_def not_le)
qed simp

lemma length_concat_member: "x \<in> set xs \<Longrightarrow> length (f x) \<le> length (concat (map f xs))"
  by (induction xs) auto

lemma length_concat_ge: "(\<And>x. x \<in> set xs \<Longrightarrow> f x \<noteq> []) \<Longrightarrow> length xs \<le> length (concat (map f xs))"
proof (induction xs)
  case (Cons a xs)
  then have "f a \<noteq> []" "length xs \<le> length (concat (map f xs))" by auto
  then show ?case by (cases "f a") simp_all
qed simp

lemma files_fit:
  assumes "length (files_bytes e) \<le> MAX_EDIT_BYTES"
  shows "length (ve_deleted_files e) < 2 ^ 32" "length (ve_added_files e) < 2 ^ 32"
    "\<forall>a \<in> set (ve_added_files e). keys_fit (snd a)"
proof -
  have small: "MAX_EDIT_BYTES < 2 ^ 32" by (simp add: MAX_EDIT_BYTES_def)
  have d: "length (concat (map deleted_bytes (ve_deleted_files e))) \<le> length (files_bytes e)"
    and a: "length (concat (map added_bytes (ve_added_files e))) \<le> length (files_bytes e)"
    by (simp_all add: files_bytes_def)
  have "deleted_bytes x \<noteq> []" "added_bytes y \<noteq> []" for x y
    by (cases x; cases y; simp add: count_bytes_def flip: length_greater_0_conv)+
  then have "length (ve_deleted_files e) \<le> length (files_bytes e)" "length (ve_added_files e) \<le> length (files_bytes e)"
    using length_concat_ge [of "ve_deleted_files e" deleted_bytes] length_concat_ge [of "ve_added_files e" added_bytes] d a
    by (meson order_trans)+
  then show "length (ve_deleted_files e) < 2 ^ 32" "length (ve_added_files e) < 2 ^ 32"
    using assms small by linarith+
  have "keys_fit (snd x)" if "x \<in> set (ve_added_files e)" for x
  proof -
    have "length (added_bytes x) < 2 ^ 32"
      using length_concat_member [OF that, of added_bytes] a assms small by linarith
    then show ?thesis by (cases x) (simp add: keys_fit_def key_bytes_def)
  qed
  then show "\<forall>a \<in> set (ve_added_files e). keys_fit (snd a)" by blast
qed

lemma encode_edit_iff: "encode_edit e = Inr bs \<longleftrightarrow> edit_fits e \<and> bs = edit_bytes e"
proof -
  have "length (edit_bytes e) \<le> MAX_EDIT_BYTES \<Longrightarrow> length (files_bytes e) \<le> MAX_EDIT_BYTES"
    by (simp add: edit_bytes_def)
  note files_fit [OF this]
  then show ?thesis
    by (auto simp: encode_edit_def Let_def put_optional_u64_eq put_count_eq put_deleted_eq put_added_eq
        edit_fits_def levels_fit_def edit_bytes_def log_bytes_def files_bytes_def split: if_splits)
qed

section \<open>Decoding inverts encoding\<close>

text \<open>A cursor that has consumed \<open>pre\<close> and has \<open>rest\<close> left.\<close>

definition cu_at :: "bytes \<Rightarrow> bytes \<Rightarrow> cursor" where
  "cu_at pre rest = \<lparr>cu_bytes = pre @ rest, cu_position = length pre\<rparr>"

lemma cu_new_at: "cu_new bs = cu_at [] bs"
  by (simp add: cu_new_def cu_at_def)

lemma cu_remaining_at [simp]: "cu_remaining (cu_at pre rest) = length rest"
  by (simp add: cu_remaining_def cu_at_def)

text \<open>Every reader consumes exactly the bytes that its value is written as.\<close>

lemma cu_take_at:
  assumes "length pre + length rest \<le> usize_max"
  shows "cu_take n (cu_at pre rest) =
    (if n \<le> length rest then Ok (take n rest, cu_at (pre @ take n rest) (drop n rest)) else Err manifest_corruption)"
  using assms by (auto simp: cu_take_def cu_at_def checked_add_usize_def)

lemma cu_take_iff:
  assumes "length pre + length rest \<le> usize_max"
  shows "cu_take n (cu_at pre rest) = Inr (xs, c) \<longleftrightarrow>
    (\<exists>rest'. rest = xs @ rest' \<and> n = length xs \<and> c = cu_at (pre @ xs) rest')"
  using assms
  by (auto simp: cu_take_def cu_at_def checked_add_usize_def result_iffs bind_eq_Some_conv split: if_splits
      intro!: exI [of _ "drop n rest"])

lemma cu_u8_iff:
  assumes "length pre + length rest \<le> usize_max"
  shows "cu_u8 (cu_at pre rest) = Inr (x, c) \<longleftrightarrow> (\<exists>rest'. rest = x # rest' \<and> c = cu_at (pre @ [x]) rest')"
  using assms
  by (cases rest) (auto simp: cu_u8_def cu_take_def cu_at_def checked_add_usize_def)

lemma cu_u32_iff:
  assumes "length pre + length rest \<le> usize_max"
  shows "cu_u32 (cu_at pre rest) = Inr (w, c) \<longleftrightarrow>
    (\<exists>rest'. rest = u32_to_le w @ rest' \<and> c = cu_at (pre @ u32_to_le w) rest')"
  using assms by (auto simp: cu_u32_def cu_take_at u32_le_canonical intro!: exI [of _ "drop 4 rest"] split: if_splits)

lemma cu_u64_iff:
  assumes "length pre + length rest \<le> usize_max"
  shows "cu_u64 (cu_at pre rest) = Inr (w, c) \<longleftrightarrow>
    (\<exists>rest'. rest = u64_to_le w @ rest' \<and> c = cu_at (pre @ u64_to_le w) rest')"
  using assms by (auto simp: cu_u64_def cu_take_at u64_le_canonical intro!: exI [of _ "drop 8 rest"] split: if_splits)

lemma cu_count_iff:
  assumes "length pre + length rest \<le> usize_max"
  shows "cu_count (cu_at pre rest) = Inr (n, c) \<longleftrightarrow>
    n < 2 ^ 32 \<and> (\<exists>rest'. rest = count_bytes n @ rest' \<and> c = cu_at (pre @ count_bytes n) rest')"
  using assms unat_lt2p [where 'a = 32]
  by (auto simp: cu_count_def rbind_Ok_iff cu_u32_iff unat_of_nat_eq count_bytes_def)

lemma cu_level_iff:
  assumes "length pre + length rest \<le> usize_max"
  shows "cu_level (cu_at pre rest) = Inr (l, c) \<longleftrightarrow>
    l < NUM_LEVELS \<and> (\<exists>rest'. rest = count_bytes l @ rest' \<and> c = cu_at (pre @ count_bytes l) rest')"
proof -
  have "cu_level c0 = Inr (l, c) \<longleftrightarrow> cu_count c0 = Inr (l, c) \<and> l < NUM_LEVELS" for c0
    by (cases "cu_count c0") (auto simp: cu_level_def split: if_splits)
  with assms show ?thesis by (auto simp: cu_count_iff NUM_LEVELS_def)
qed

lemma cu_length_bytes_iff:
  assumes "length pre + length rest \<le> usize_max"
  shows "cu_length_bytes (cu_at pre rest) = Inr (bs, c) \<longleftrightarrow> length bs < 2 ^ 32 \<and>
    (\<exists>rest'. rest = count_bytes (length bs) @ bs @ rest' \<and> c = cu_at (pre @ count_bytes (length bs) @ bs) rest')"
  using assms by (auto simp: cu_length_bytes_def rbind_Ok_iff cu_count_iff cu_take_iff)

lemma cu_optional_u64_iff:
  assumes "length pre + length rest \<le> usize_max"
  shows "cu_optional_u64 (cu_at pre rest) = Inr (v, c) \<longleftrightarrow>
    (\<exists>rest'. rest = opt_bytes v @ rest' \<and> c = cu_at (pre @ opt_bytes v) rest')"
proof (cases rest)
  case Nil
  with assms have "cu_u8 (cu_at pre rest) = Err manifest_corruption"
    by (simp add: cu_u8_def cu_take_at)
  with Nil show ?thesis by (cases v) (simp_all add: cu_optional_u64_def)
next
  case (Cons x xs)
  with assms have "cu_u8 (cu_at pre rest) = Ok (x, cu_at (pre @ [x]) xs)" by (simp add: cu_u8_iff)
  with Cons assms show ?thesis
    by (cases v) (auto simp: cu_optional_u64_def rbind_Ok_iff cu_u64_iff)
qed

lemmas cu_iffs = cu_u8_iff cu_u64_iff cu_count_iff cu_level_iff cu_length_bytes_iff cu_optional_u64_iff

text \<open>The same from the writer's side.\<close>

lemma cu_reads:
  "Suc (length pre + length rest) \<le> usize_max \<Longrightarrow> cu_u8 (cu_at pre (x # rest)) = Ok (x, cu_at (pre @ [x]) rest)"
  "length pre + (8 + length rest) \<le> usize_max \<Longrightarrow>
    cu_u64 (cu_at pre (u64_to_le w @ rest)) = Ok (w, cu_at (pre @ u64_to_le w) rest)"
  "length pre + (4 + length rest) \<le> usize_max \<Longrightarrow> n < 2 ^ 32 \<Longrightarrow>
    cu_count (cu_at pre (count_bytes n @ rest)) = Ok (n, cu_at (pre @ count_bytes n) rest)"
  "length pre + (4 + length rest) \<le> usize_max \<Longrightarrow> l < NUM_LEVELS \<Longrightarrow>
    cu_level (cu_at pre (count_bytes l @ rest)) = Ok (l, cu_at (pre @ count_bytes l) rest)"
  "length pre + (4 + (length bs + length rest)) \<le> usize_max \<Longrightarrow> length bs < 2 ^ 32 \<Longrightarrow>
    cu_length_bytes (cu_at pre (count_bytes (length bs) @ bs @ rest)) =
      Ok (bs, cu_at (pre @ count_bytes (length bs) @ bs) rest)"
  "length pre + (length (opt_bytes v) + length rest) \<le> usize_max \<Longrightarrow>
    cu_optional_u64 (cu_at pre (opt_bytes v @ rest)) = Ok (v, cu_at (pre @ opt_bytes v) rest)"
  by (simp_all add: cu_iffs length_count_bytes)

lemma decode_deleted_iff:
  assumes "length pre + length rest \<le> usize_max"
  shows "decode_deleted n (cu_at pre rest) acc = Inr (ds, c) \<longleftrightarrow>
    (\<exists>ds' rest'. ds = acc @ ds' \<and> length ds' = n \<and> (\<forall>d \<in> set ds'. fst d < NUM_LEVELS) \<and>
      rest = concat (map deleted_bytes ds') @ rest' \<and> c = cu_at (pre @ concat (map deleted_bytes ds')) rest')"
  using assms
proof (induction n arbitrary: pre rest acc)
  case (Suc n)
  show ?case (is "?L \<longleftrightarrow> ?R")
  proof
    assume ?L
    with Suc.prems obtain l m rest1 where r: "l < NUM_LEVELS" "rest = deleted_bytes (l, m) @ rest1"
      "decode_deleted n (cu_at (pre @ deleted_bytes (l, m)) rest1) (acc @ [(l, m)]) = Inr (ds, c)"
      by (auto simp: rbind_Ok_iff cu_iffs)
    with Suc.prems Suc.IH [of "pre @ deleted_bytes (l, m)" rest1 "acc @ [(l, m)]"] obtain ds' rest' where
      "ds = acc @ (l, m) # ds'" "length ds' = n" "\<forall>d \<in> set ds'. fst d < NUM_LEVELS"
      "rest1 = concat (map deleted_bytes ds') @ rest'"
      "c = cu_at ((pre @ deleted_bytes (l, m)) @ concat (map deleted_bytes ds')) rest'" by auto
    with r(1,2) show ?R by (intro exI [of _ "(l, m) # ds'"]) auto
  next
    assume ?R
    then obtain l m ds' rest' where "ds = acc @ (l, m) # ds'" "length ds' = n" "l < NUM_LEVELS"
      "\<forall>d \<in> set ds'. fst d < NUM_LEVELS" "rest = concat (map deleted_bytes ((l, m) # ds')) @ rest'"
      "c = cu_at (pre @ concat (map deleted_bytes ((l, m) # ds'))) rest'"
      by (auto simp: length_Suc_conv)
    with Suc.prems Suc.IH show ?L by (simp add: cu_reads)
  qed
qed auto

lemma decode_file_iff:
  assumes "length pre + length rest \<le> usize_max"
  shows "decode_file (cu_at pre rest) = Inr (a, c) \<longleftrightarrow> fst a < NUM_LEVELS \<and> fm_ok (snd a) \<and> keys_fit (snd a) \<and>
    (\<exists>rest'. rest = added_bytes a @ rest' \<and> c = cu_at (pre @ added_bytes a) rest')"
    (is "?L \<longleftrightarrow> ?R")
proof
  assume ?L
  with assms obtain l n s b1 b2 k1 k2 f rest' where r: "l < NUM_LEVELS" "length b1 < 2 ^ 32" "length b2 < 2 ^ 32"
    "ik_decode b1 = Inr k1" "ik_decode b2 = Inr k2" "fm_new n s k1 k2 = Inr f" "a = (l, f)"
    "rest = count_bytes l @ u64_to_le n @ u64_to_le s @ count_bytes (length b1) @ b1 @ count_bytes (length b2) @ b2 @ rest'"
    "c = cu_at (pre @ count_bytes l @ u64_to_le n @ u64_to_le s @ count_bytes (length b1) @ b1 @ count_bytes (length b2) @ b2) rest'"
    by (auto simp: decode_file_def rbind_Ok_iff cu_iffs map_err_Ok_iff)
  note k = ik_decode_wf [OF r(4)] ik_decode_wf [OF r(5)]
  from fm_new_Ok [OF r(6)] k r show ?R by (auto simp: keys_fit_def key_bytes_def)
next
  assume ?R
  then obtain l f rest' where a: "a = (l, f)" "l < NUM_LEVELS" "fm_ok f" "keys_fit f"
    "rest = added_bytes (l, f) @ rest'" "c = cu_at (pre @ added_bytes (l, f)) rest'"
    by (cases a) auto
  have "ik_decode (ik_encoded (fm_smallest f)) = Ok (fm_smallest f)" "ik_decode (ik_encoded (fm_largest f)) = Ok (fm_largest f)"
    using a(3) by (auto simp: fm_ok_def wf_key_def)
  with assms a fm_new_ok [OF a(3)] show ?L
    by (simp add: decode_file_def cu_reads key_bytes_def keys_fit_def)
qed

lemma decode_added_iff:
  assumes "length pre + length rest \<le> usize_max"
  shows "decode_added n (cu_at pre rest) acc = Inr (as, c) \<longleftrightarrow>
    (\<exists>as' rest'. as = acc @ as' \<and> length as' = n \<and>
      (\<forall>a \<in> set as'. fst a < NUM_LEVELS \<and> fm_ok (snd a) \<and> keys_fit (snd a)) \<and>
      rest = concat (map added_bytes as') @ rest' \<and> c = cu_at (pre @ concat (map added_bytes as')) rest')"
  using assms
proof (induction n arbitrary: pre rest acc)
  case (Suc n)
  show ?case (is "?L \<longleftrightarrow> ?R")
  proof
    assume ?L
    with Suc.prems obtain a rest1 where r: "fst a < NUM_LEVELS \<and> fm_ok (snd a) \<and> keys_fit (snd a)" "rest = added_bytes a @ rest1"
      "decode_added n (cu_at (pre @ added_bytes a) rest1) (acc @ [a]) = Inr (as, c)"
      by (auto simp: rbind_Ok_iff decode_file_iff)
    with Suc.prems Suc.IH [of "pre @ added_bytes a" rest1 "acc @ [a]"] obtain as' rest' where
      "as = acc @ a # as'" "length as' = n" "\<forall>a \<in> set as'. fst a < NUM_LEVELS \<and> fm_ok (snd a) \<and> keys_fit (snd a)"
      "rest1 = concat (map added_bytes as') @ rest'"
      "c = cu_at ((pre @ added_bytes a) @ concat (map added_bytes as')) rest'" by auto
    with r(1,2) show ?R by (intro exI [of _ "a # as'"]) auto
  next
    assume ?R
    then obtain a as' rest' where a: "as = acc @ a # as'" "length as' = n"
      "fst a < NUM_LEVELS \<and> fm_ok (snd a) \<and> keys_fit (snd a)"
      "\<forall>a \<in> set as'. fst a < NUM_LEVELS \<and> fm_ok (snd a) \<and> keys_fit (snd a)"
      "rest = concat (map added_bytes (a # as')) @ rest'"
      "c = cu_at (pre @ concat (map added_bytes (a # as'))) rest'"
      by (auto simp: length_Suc_conv)
    have "decode_file (cu_at pre rest) = Inr (a, cu_at (pre @ added_bytes a) (concat (map added_bytes as') @ rest'))"
      using Suc.prems a by (simp add: decode_file_iff)
    with Suc.prems Suc.IH [of "pre @ added_bytes a" "concat (map added_bytes as') @ rest'" "acc @ [a]"] a show ?L
      by simp
  qed
qed auto

lemma decode_files_bytes:
  assumes "length pre + length (files_bytes e) \<le> usize_max" "length (files_bytes e) \<le> MAX_EDIT_BYTES"
    and "levels_fit e" "edit_ok e"
  shows "decode_file_lists (cu_at pre (files_bytes e)) =
    Ok ((ve_deleted_files e, ve_added_files e), cu_at (pre @ files_bytes e) [])"
proof -
  let ?d = "concat (map deleted_bytes (ve_deleted_files e))" and ?a = "concat (map added_bytes (ve_added_files e))"
  let ?nd = "count_bytes (length (ve_deleted_files e))" and ?na = "count_bytes (length (ve_added_files e))"
  have len: "length pre + (8 + length ?d + length ?a) \<le> usize_max" using assms(1) by (simp add: files_bytes_def)
  have dd: "decode_deleted (length (ve_deleted_files e)) (cu_at (pre @ ?nd) (?d @ ?na @ ?a)) [] =
      Inr (ve_deleted_files e, cu_at (pre @ ?nd @ ?d) (?na @ ?a))"
    using len assms(3) by (simp add: decode_deleted_iff levels_fit_def)
  have aa: "decode_added (length (ve_added_files e)) (cu_at (pre @ ?nd @ ?d @ ?na) ?a) [] =
      Inr (ve_added_files e, cu_at (pre @ ?nd @ ?d @ ?na @ ?a) [])"
    using len assms(3,4) files_fit(3) [OF assms(2)]
    by (auto simp: decode_added_iff levels_fit_def edit_ok_def)
  show ?thesis
    using files_fit(1,2) [OF assms(2)] len by (simp add: decode_file_lists_def files_bytes_def cu_reads dd aa)
qed

lemma MAX_EDIT_usize: "MAX_EDIT_BYTES + 32 \<le> usize_max"
  by (simp add: MAX_EDIT_BYTES_def usize_max_def)

lemma decode_encode_edit:
  assumes "edit_fits e" "edit_ok e"
  shows "decode_edit (edit_bytes e) = Ok e"
proof -
  have len: "length (edit_bytes e) \<le> MAX_EDIT_BYTES" and lv: "levels_fit e"
    using assms by (auto simp: edit_fits_def)
  have u: "length (edit_bytes e) \<le> usize_max" using len MAX_EDIT_usize by linarith
  have f: "length (files_bytes e) \<le> MAX_EDIT_BYTES" using len by (simp add: edit_bytes_def)
  have "length (2 # opt_bytes (ve_next_file_number e) @ opt_bytes (ve_last_sequence e) @ opt_bytes (ve_log_number e) @
    opt_bytes (ve_active_log_number e) @ opt_bytes (ve_wal_sequence e)) + length (files_bytes e) \<le> usize_max"
    using u by (simp add: edit_bytes_def log_bytes_def)
  note d = decode_files_bytes [OF this f lv assms(2)]
  show ?thesis
    using len u
    by (simp add: decode_edit_def cu_new_at edit_bytes_def log_bytes_def cu_reads decode_log_numbers_def
        FORMAT_VERSION_def d)
qed

lemma decode_legacy_edit:
  assumes "length (legacy_edit_bytes e) \<le> MAX_EDIT_BYTES" "levels_fit e" "edit_ok e" "no_log_counters e"
  shows "decode_edit (legacy_edit_bytes e) = Ok e"
proof -
  have u: "length (legacy_edit_bytes e) \<le> usize_max" using assms(1) MAX_EDIT_usize by linarith
  have f: "length (files_bytes e) \<le> MAX_EDIT_BYTES" using assms(1) by (simp add: legacy_edit_bytes_def)
  have "length (1 # opt_bytes (ve_next_file_number e) @ opt_bytes (ve_last_sequence e)) + length (files_bytes e) \<le> usize_max"
    using u by (simp add: legacy_edit_bytes_def)
  note d = decode_files_bytes [OF this f assms(2,3)]
  have "\<not> (2 :: u8) \<le> 1" by (simp add: word_le_nat_alt)
  then show ?thesis
    using assms(1,4) u
    by (simp add: decode_edit_def cu_new_at legacy_edit_bytes_def cu_reads decode_log_numbers_def FORMAT_VERSION_def
        no_log_counters_def d)
qed

lemma decode_log_numbers_Ok:
  assumes "decode_log_numbers v (cu_at pre rest) = Inr ((l, a, w), c)" "length pre + length rest \<le> usize_max"
  shows "if v \<ge> 2 then (\<exists>rest'. rest = opt_bytes l @ opt_bytes a @ opt_bytes w @ rest' \<and>
       c = cu_at (pre @ opt_bytes l @ opt_bytes a @ opt_bytes w) rest')
     else l = None \<and> a = None \<and> w = None \<and> c = cu_at pre rest"
  using assms by (auto simp: decode_log_numbers_def rbind_Ok_iff cu_optional_u64_iff split: if_splits)

lemma decode_file_lists_Ok:
  assumes "decode_file_lists (cu_at pre rest) = Inr ((ds, as), c)" "length pre + length rest \<le> usize_max"
  shows "(\<forall>d \<in> set ds. fst d < NUM_LEVELS) \<and> (\<forall>a \<in> set as. fst a < NUM_LEVELS \<and> fm_ok (snd a) \<and> keys_fit (snd a)) \<and>
    (\<exists>rest'. rest = count_bytes (length ds) @ concat (map deleted_bytes ds) @ count_bytes (length as) @
      concat (map added_bytes as) @ rest' \<and>
    c = cu_at (pre @ count_bytes (length ds) @ concat (map deleted_bytes ds) @ count_bytes (length as) @
      concat (map added_bytes as)) rest')"
proof -
  from assms obtain rest' where "\<forall>d \<in> set ds. fst d < NUM_LEVELS"
    "\<forall>a \<in> set as. fst a < NUM_LEVELS \<and> fm_ok (snd a) \<and> keys_fit (snd a)"
    "rest = count_bytes (length ds) @ concat (map deleted_bytes ds) @ count_bytes (length as) @
      concat (map added_bytes as) @ rest'"
    "c = cu_at (pre @ count_bytes (length ds) @ concat (map deleted_bytes ds) @ count_bytes (length as) @
      concat (map added_bytes as)) rest'"
    by (auto simp: decode_file_lists_def rbind_Ok_iff cu_count_iff decode_deleted_iff decode_added_iff)
  then show ?thesis by blast
qed

lemma decode_edit_Ok:
  assumes "decode_edit bs = Inr e"
  shows "edit_ok e \<and> levels_fit e \<and> length bs \<le> MAX_EDIT_BYTES \<and>
    (bs = edit_bytes e \<or> bs = legacy_edit_bytes e \<and> no_log_counters e)"
proof -
  have len: "length bs \<le> MAX_EDIT_BYTES" using assms by (simp add: decode_edit_def split: if_splits)
  then have u: "length bs \<le> usize_max" using MAX_EDIT_usize by linarith
  from assms len u obtain v n s rest2 l a w c ds as c2 where v: "v = 1 \<or> v = FORMAT_VERSION"
    and bs: "bs = v # opt_bytes n @ opt_bytes s @ rest2"
    and lg: "decode_log_numbers v (cu_at ([v] @ opt_bytes n @ opt_bytes s) rest2) = Inr ((l, a, w), c)"
    and fl: "decode_file_lists c = Inr ((ds, as), c2)" "cu_remaining c2 = 0"
    and e: "e = \<lparr>ve_added_files = as, ve_deleted_files = ds, ve_next_file_number = n, ve_last_sequence = s,
      ve_log_number = l, ve_active_log_number = a, ve_wal_sequence = w\<rparr>"
    by (auto simp: decode_edit_def cu_new_at rbind_Ok_iff cu_u8_iff cu_optional_u64_iff split: if_splits)
  have u2: "length ([v] @ opt_bytes n @ opt_bytes s) + length rest2 \<le> usize_max" using u bs by simp
  obtain lb rest3 where lb: "rest2 = lb @ rest3" "c = cu_at ([v] @ opt_bytes n @ opt_bytes s @ lb) rest3"
    and lbv: "if v = FORMAT_VERSION then lb = opt_bytes l @ opt_bytes a @ opt_bytes w
      else lb = [] \<and> l = None \<and> a = None \<and> w = None"
    using decode_log_numbers_Ok [OF lg u2] v
    by (auto simp: FORMAT_VERSION_def word_le_nat_alt split: if_splits)
  have u3: "length ([v] @ opt_bytes n @ opt_bytes s @ lb) + length rest3 \<le> usize_max" using u2 lb(1) by simp
  from decode_file_lists_Ok [OF fl(1) [unfolded lb(2)] u3] fl(2) v bs lb(1) lbv len e show ?thesis
    by (auto simp: edit_ok_def levels_fit_def edit_bytes_def legacy_edit_bytes_def files_bytes_def log_bytes_def
        no_log_counters_def FORMAT_VERSION_def split: if_splits)
qed

section \<open>Properties\<close>

text \<open>
  C12. The edit codec is exact: \<open>decode_edit\<close> accepts a byte string exactly when it is what
  \<open>encode_edit\<close> writes for an edit with valid file metadata, or the encoding of such an edit in
  the first format, which has no log counters, and returns that very edit.
\<close>

theorem edit_codec_exact:
  "decode_edit bs = Ok e \<longleftrightarrow> edit_ok e \<and>
    (encode_edit e = Ok bs \<or>
     bs = legacy_edit_bytes e \<and> no_log_counters e \<and> levels_fit e \<and> length bs \<le> MAX_EDIT_BYTES)"
  using decode_edit_Ok [of bs e] decode_encode_edit [of e] decode_legacy_edit [of e]
  by (auto simp: encode_edit_iff edit_fits_def)

end
