(* ===== verification/File_Names.thy ===== *)
theory File_Names
  imports Meteor_Prelude
begin

text \<open>
  The names of database files (\<open>manifest.rs\<close>, \<open>engine.rs\<close>): numbers printed with at
  least six decimal digits, the contents of \<open>CURRENT\<close> and their strict parsers.
\<close>

section \<open>Definitions\<close>

text \<open>\<open>format!("{number:06}")\<close> and the text of a file as bytes.\<close>

definition digit_char :: "nat \<Rightarrow> char" where
  "digit_char d = char_of (48 + d)"

fun decimal :: "nat \<Rightarrow> string" where
  "decimal n = (if n < 10 then [digit_char n] else decimal (n div 10) @ [digit_char (n mod 10)])"

declare decimal.simps [simp del]

definition format_06 :: "u64 \<Rightarrow> string" where
  "format_06 number = (let s = decimal (unat number) in replicate (6 - length s) (CHR ''0'') @ s)"

definition as_bytes :: "string \<Rightarrow> bytes" where
  "as_bytes s = map (\<lambda>c. word_of_nat (of_char c)) s"

text \<open>
  \<open>str::from_utf8\<close> on a manifest name.  A name with a byte above 127 is refused by
  \<open>from_utf8\<close> or by \<open>parse_manifest_number\<close>, with the same error; it is refused here.
\<close>

definition from_utf8_ascii :: "bytes \<Rightarrow> string option" where
  "from_utf8_ascii bs = (if \<forall>b \<in> set bs. b < 128 then Some (map (\<lambda>b. char_of (unat b)) bs) else None)"

definition is_ascii_digit :: "char \<Rightarrow> bool" where
  "is_ascii_digit c \<longleftrightarrow> 48 \<le> (of_char c :: nat) \<and> (of_char c :: nat) \<le> 57"

definition decimal_value :: "string \<Rightarrow> nat" where
  "decimal_value s = foldl (\<lambda>n c. 10 * n + (of_char c - 48)) 0 s"

text \<open>\<open>str::parse::<u64>\<close> on a string of digits fails exactly when the value does not fit.\<close>

definition parse_u64 :: "string \<Rightarrow> u64 option" where
  "parse_u64 s = (if decimal_value s < 2 ^ 64 then Some (word_of_nat (decimal_value s)) else None)"

definition manifest_name :: "u64 \<Rightarrow> string" where
  "manifest_name number = ''MANIFEST-'' @ format_06 number"

definition sstable_name :: "u64 \<Rightarrow> string" where
  "sstable_name number = format_06 number @ ''.sst''"

definition strip_prefix :: "string \<Rightarrow> string \<Rightarrow> string option" where
  "strip_prefix pre s = (if take (length pre) s = pre then Some (drop (length pre) s) else None)"

definition parse_manifest_number :: "string \<Rightarrow> u64 result" where
  "parse_manifest_number name =
    rbind (ok_or (Option.bind (strip_prefix ''MANIFEST-'' name)
             (\<lambda>digits. if length digits \<ge> 6 \<and> (\<forall>c \<in> set digits. is_ascii_digit c) then Some digits else None))
           (Corruption ManifestCtx)) (\<lambda>digits.
    rbind (ok_or (parse_u64 digits) (Corruption ManifestCtx)) (\<lambda>number.
    if number = 0 \<or> digits \<noteq> format_06 number then Err (Corruption ManifestCtx) else Ok number))"

definition parse_current :: "bytes \<Rightarrow> string result" where
  "parse_current bs =
    (if bs = [] \<or> last bs \<noteq> 10 \<or> 10 \<in> set (butlast bs) then Err (Corruption ManifestCtx)
     else
       rbind (ok_or (from_utf8_ascii (butlast bs)) (Corruption ManifestCtx)) (\<lambda>name.
       rbind (parse_manifest_number name) (\<lambda>_. Ok name)))"

text \<open>The names of WAL segments, and the parser for the entries of a database directory.\<close>

definition wal_name :: "u64 \<Rightarrow> string" where
  "wal_name number = format_06 number @ ''.wal''"

definition strip_suffix :: "string \<Rightarrow> string \<Rightarrow> string option" where
  "strip_suffix post s =
    (if length post \<le> length s \<and> drop (length s - length post) s = post
     then Some (take (length s - length post) s) else None)"

definition parse_numbered_name :: "string \<Rightarrow> string \<Rightarrow> u64 option" where
  "parse_numbered_name name post =
    Option.bind (strip_suffix post name) (\<lambda>digits.
    if length digits < 6 \<or> \<not> (\<forall>c \<in> set digits. is_ascii_digit c) then None
    else Option.bind (parse_u64 digits) (\<lambda>number.
      if number \<noteq> 0 \<and> digits = format_06 number then Some number else None))"

section \<open>Lemmas\<close>

lemma of_char_digit [simp]: "d < 10 \<Longrightarrow> of_char (digit_char d) = (48 + d :: nat)"
  by (simp add: digit_char_def)

lemma decimal_digits: "c \<in> set (decimal n) \<Longrightarrow> is_ascii_digit c"
proof (induction n rule: decimal.induct)
  case (1 n)
  from "1.prems" show ?case
    by (subst (asm) decimal.simps) (auto simp: is_ascii_digit_def split: if_splits dest: "1.IH")
qed

lemma decimal_value_snoc: "decimal_value (s @ [c]) = 10 * decimal_value s + (of_char c - 48)"
  by (simp add: decimal_value_def)

lemma decimal_value_decimal [codec]: "decimal_value (decimal n) = n"
proof (induction n rule: decimal.induct)
  case (1 n)
  show ?case
  proof (cases "n < 10")
    case True
    then show ?thesis by (subst decimal.simps) (simp add: decimal_value_def)
  next
    case False
    with 1 show ?thesis by (subst decimal.simps) (simp add: decimal_value_snoc)
  qed
qed

lemma decimal_value_zeros: "decimal_value (replicate k (CHR ''0'') @ s) = decimal_value s"
proof -
  have "foldl (\<lambda>n c. 10 * n + (of_char c - 48)) 0 (replicate k (CHR ''0'')) = (0 :: nat)"
    by (induction k) simp_all
  then show ?thesis by (simp add: decimal_value_def)
qed

lemma format_06_value [codec]: "decimal_value (format_06 n) = unat n"
  by (simp add: format_06_def Let_def decimal_value_zeros decimal_value_decimal)

lemma format_06_digits: "c \<in> set (format_06 n) \<Longrightarrow> is_ascii_digit c"
  by (auto simp: format_06_def Let_def dest: decimal_digits) (simp add: is_ascii_digit_def)

lemma format_06_length: "6 \<le> length (format_06 n)"
  by (simp add: format_06_def Let_def)

lemma parse_u64_format [codec]: "parse_u64 (format_06 n) = Some n"
  using unat_lt2p [of n] by (simp add: parse_u64_def format_06_value)

lemma format_06_inject: "format_06 a = format_06 b \<longleftrightarrow> a = b"
  by (metis parse_u64_format option.inject)

lemma strip_prefix_iff: "strip_prefix pre s = Some t \<longleftrightarrow> s = pre @ t"
  by (auto simp: strip_prefix_def) (metis append_take_drop_id)

lemma parse_manifest_number_iff:
  "parse_manifest_number name = Inr n \<longleftrightarrow> n \<noteq> 0 \<and> name = manifest_name n"
proof
  assume "parse_manifest_number name = Inr n"
  then show "n \<noteq> 0 \<and> name = manifest_name n"
    by (auto simp: parse_manifest_number_def result_iffs bind_eq_Some_conv strip_prefix_iff manifest_name_def
        split: if_splits)
next
  assume "n \<noteq> 0 \<and> name = manifest_name n"
  then show "parse_manifest_number name = Inr n"
    by (auto simp: parse_manifest_number_def result_iffs bind_eq_Some_conv strip_prefix_iff manifest_name_def
        format_06_length format_06_digits parse_u64_format)
qed

lemma as_bytes_ascii:
  assumes "\<forall>c \<in> set s. of_char c < (128 :: nat)"
  shows "from_utf8_ascii (as_bytes s) = Some s"
  using assms
  by (induction s) (auto simp: from_utf8_ascii_def as_bytes_def unat_of_nat_eq word_less_nat_alt)

lemma strip_suffix_iff: "strip_suffix post s = Some t \<longleftrightarrow> s = t @ post"
  by (auto simp: strip_suffix_def) (metis append_take_drop_id)

lemma parse_numbered_name_iff:
  "parse_numbered_name name post = Some n \<longleftrightarrow> n \<noteq> 0 \<and> name = format_06 n @ post"
proof
  assume "parse_numbered_name name post = Some n"
  then show "n \<noteq> 0 \<and> name = format_06 n @ post"
    by (auto simp: parse_numbered_name_def bind_eq_Some_conv strip_suffix_iff split: if_splits)
next
  have "strip_suffix post (format_06 n @ post) = Some (format_06 n)" by (simp add: strip_suffix_iff)
  moreover assume "n \<noteq> 0 \<and> name = format_06 n @ post"
  ultimately show "parse_numbered_name name post = Some n"
    using format_06_length [of n] format_06_digits [of _ n]
    by (auto simp: parse_numbered_name_def parse_u64_format)
qed

lemma as_bytes_inverse:
  assumes "\<forall>b \<in> set bs. b < (128 :: u8)"
  shows "as_bytes (map (\<lambda>b. char_of (unat b)) bs) = bs"
proof -
  have "word_of_nat (of_char (char_of (unat b))) = b" for b :: u8
    using unat_lt2p [of b] by simp
  then show ?thesis by (simp add: as_bytes_def comp_def)
qed

lemma name_chars:
  assumes "c \<in> set (manifest_name n)"
  shows "of_char c < (128 :: nat)" and "of_char c \<noteq> (10 :: nat)"
proof -
  have "is_ascii_digit c \<or> c \<in> set ''MANIFEST-''"
    using assms format_06_digits [of c n] by (auto simp: manifest_name_def)
  then show "of_char c < (128 :: nat)" "of_char c \<noteq> (10 :: nat)" by (auto simp: is_ascii_digit_def)
qed

lemma name_bytes: "b \<in> set (as_bytes (manifest_name n)) \<Longrightarrow> b < 128 \<and> b \<noteq> 10"
proof -
  assume "b \<in> set (as_bytes (manifest_name n))"
  then obtain c where c: "c \<in> set (manifest_name n)" "b = word_of_nat (of_char c)"
    by (auto simp: as_bytes_def)
  have "unat b = of_char c"
    unfolding c(2) using name_chars(1) [OF c(1)] by (intro unat_of_nat_eq) simp
  with name_chars [OF c(1)] show ?thesis by (auto simp: word_less_nat_alt)
qed

lemma parse_current_iff:
  "parse_current bs = Inr name \<longleftrightarrow>
    (\<exists>n. n \<noteq> 0 \<and> name = manifest_name n \<and> bs = as_bytes (manifest_name n) @ [10])" (is "?L \<longleftrightarrow> ?R")
proof
  assume ?L
  then obtain n where bs: "bs \<noteq> []" "last bs = 10" "from_utf8_ascii (butlast bs) = Some name"
    and n: "n \<noteq> 0" "name = manifest_name n"
    by (auto simp: parse_current_def result_iffs parse_manifest_number_iff split: if_splits)
  then have "as_bytes (manifest_name n) = butlast bs"
    using as_bytes_inverse [of "butlast bs"] by (auto simp: from_utf8_ascii_def split: if_splits)
  with bs(1,2) n show ?R by (metis append_butlast_last_id)
next
  assume ?R
  then obtain n where n: "n \<noteq> 0" "name = manifest_name n" "bs = as_bytes (manifest_name n) @ [10]" by blast
  with as_bytes_ascii [of name] name_chars(1) name_bytes [of 10 n] show ?L
    by (auto simp: parse_current_def result_iffs parse_manifest_number_iff)
qed

section \<open>Properties\<close>

text \<open>
  C34. The strict name parsers are inverse to the printers: \<open>CURRENT\<close> is accepted exactly when
  it is the canonical name of a manifest with a nonzero number and one newline, and a directory
  entry is taken for a numbered file exactly when it is the canonical name of one.  So every
  number has one name, and a name of a file of another kind is never mistaken for it.
\<close>

theorem file_names_canonical:
  "(parse_current bs = Ok name \<longleftrightarrow>
      (\<exists>n. n \<noteq> 0 \<and> name = manifest_name n \<and> bs = as_bytes (manifest_name n) @ [10])) \<and>
   (parse_manifest_number name = Ok n \<longleftrightarrow> n \<noteq> 0 \<and> name = manifest_name n) \<and>
   (parse_numbered_name name ''.wal'' = Some n \<longleftrightarrow> n \<noteq> 0 \<and> name = wal_name n) \<and>
   (parse_numbered_name name ''.sst'' = Some n \<longleftrightarrow> n \<noteq> 0 \<and> name = sstable_name n)"
  by (simp add: parse_current_iff parse_manifest_number_iff parse_numbered_name_iff wal_name_def sstable_name_def)

end
