(* ===== verification/Fs_Monad.thy ===== *)
theory Fs_Monad
  imports Durable_Fs
begin

text \<open>
  Sequencing of fallible operations on the filesystem: the \<open>?\<close> operator of the source over
  the state of \<open>Durable_Fs\<close>.  \<open>io_err\<close> is \<open>map_err\<close> with \<open>io_error\<close>.
\<close>

type_synonym 'a fs_m = "fs \<Rightarrow> 'a result \<times> fs"

definition fret :: "'a \<Rightarrow> 'a fs_m" where
  "fret x fs = (Ok x, fs)"

definition ffail :: "error \<Rightarrow> 'a fs_m" where
  "ffail e fs = (Err e, fs)"

definition flift :: "'a result \<Rightarrow> 'a fs_m" where
  "flift r fs = (r, fs)"

definition fbind :: "'a fs_m \<Rightarrow> ('a \<Rightarrow> 'b fs_m) \<Rightarrow> 'b fs_m" where
  "fbind m f fs = (case m fs of (Inl e, fs) \<Rightarrow> (Err e, fs) | (Inr x, fs) \<Rightarrow> f x fs)"

definition io_err :: "(io_kind \<Rightarrow> error) \<Rightarrow> 'a fs_op \<Rightarrow> 'a fs_m" where
  "io_err wrap op fs = (case op fs of (Inl k, fs) \<Rightarrow> (Err (wrap k), fs) | (Inr x, fs) \<Rightarrow> (Ok x, fs))"

lemma fbind_Ok_iff:
  "fbind m f fs = (Inr y, fs') \<longleftrightarrow> (\<exists>x fs1. m fs = (Inr x, fs1) \<and> f x fs1 = (Inr y, fs'))"
  by (auto simp: fbind_def split: prod.splits sum.splits)

lemma fbind_cases:
  assumes "fbind m f fs = (r, fs')"
  obtains (fail) e where "m fs = (Inl e, fs')" "r = Inl e"
  | (run) x fs1 where "m fs = (Inr x, fs1)" "f x fs1 = (r, fs')"
  using assms by (auto simp: fbind_def split: prod.splits sum.splits)

lemma fret_iff [simp]: "fret x fs = (r, fs') \<longleftrightarrow> r = Inr x \<and> fs' = fs"
  by (auto simp: fret_def)

lemma ffail_iff [simp]: "ffail e fs = (r, fs') \<longleftrightarrow> r = Inl e \<and> fs' = fs"
  by (auto simp: ffail_def)

lemma flift_iff [simp]: "flift r fs = (r', fs') \<longleftrightarrow> r' = r \<and> fs' = fs"
  by (auto simp: flift_def)

lemma io_err_Ok_iff: "io_err w op fs = (Inr x, fs') \<longleftrightarrow> op fs = (Inr x, fs')"
  by (auto simp: io_err_def split: prod.splits sum.splits)

lemma io_err_Err_iff: "io_err w op fs = (Inl e, fs') \<longleftrightarrow> (\<exists>k. op fs = (Inl k, fs') \<and> e = w k)"
  by (auto simp: io_err_def split: prod.splits sum.splits)

lemma fbind_run: "m fs = (Inr x, fs1) \<Longrightarrow> fbind m f fs = f x fs1"
  by (simp add: fbind_def)

lemma fbind_io: "op fs = (Inr x, fs1) \<Longrightarrow> fbind (io_err w op) f fs = f x fs1"
  by (simp add: fbind_def io_err_def)

lemma fbind_flift [simp]: "fbind (flift (Inr x)) f fs = f x fs" "fbind (fret x) f fs = f x fs"
  by (simp_all add: fbind_def flift_def fret_def)

lemmas fs_m_iffs = fbind_Ok_iff io_err_Ok_iff io_err_Err_iff

text \<open>\<open>keeps P m\<close>: the operation preserves a property of the filesystem, whether it fails or not.\<close>

definition keeps :: "(fs \<Rightarrow> bool) \<Rightarrow> 'a fs_m \<Rightarrow> bool" where
  "keeps P m \<longleftrightarrow> (\<forall>fs r fs'. P fs \<longrightarrow> m fs = (r, fs') \<longrightarrow> P fs')"

lemma keepsD: "keeps P m \<Longrightarrow> m fs = (r, fs') \<Longrightarrow> P fs \<Longrightarrow> P fs'"
  by (auto simp: keeps_def)

lemma keeps_pure [intro]: "keeps P (fret x)" "keeps P (ffail e)" "keeps P (flift r)"
  by (auto simp: keeps_def)

lemma keeps_bind [intro]: "keeps P m \<Longrightarrow> (\<And>x. keeps P (f x)) \<Longrightarrow> keeps P (fbind m f)"
  unfolding keeps_def by (blast elim: fbind_cases)

lemma keeps_io [intro]: "(\<And>fs r fs'. P fs \<Longrightarrow> op fs = (r, fs') \<Longrightarrow> P fs') \<Longrightarrow> keeps P (io_err w op)"
  by (auto simp: keeps_def io_err_def split: prod.splits sum.splits)

end
