(* ===== verification/Manifest.thy ===== *)
theory Manifest
  imports Manifest_Edit File_Names Fs_Monad
begin

text \<open>
  The manifest and the version set (\<open>manifest.rs\<close>): the writer and the reader of the edit log,
  the counters it carries, the \<open>CURRENT\<close> pointer, and creation, recovery and update of the
  durable set of live SSTables.  The lock file is an operating-system service: \<open>lock\<close> is the
  outcome of \<open>DatabaseLock::acquire\<close>.
\<close>

section \<open>Counters\<close>

record counters =
  ct_next_file_number :: u64
  ct_last_sequence :: sequence_number
  ct_log_number :: u64
  ct_active_log_number :: u64
  ct_wal_sequence :: sequence_number

definition initial_edit :: version_edit where
  "initial_edit =
    set_wal_sequence 0 (set_active_log_number 0 (set_log_number 0 (set_last_sequence 0
      (set_next_file_number 2 ve_new))))"

definition counter_error :: "bool \<Rightarrow> error" where
  "counter_error recovery = (if recovery then manifest_corruption else InvalidArgument)"

text \<open>One counter: absent fields keep it, and it never moves backward.\<close>

definition advance :: "bool \<Rightarrow> u64 option \<Rightarrow> u64 \<Rightarrow> u64 result" where
  "advance recovery field current =
    (case field of
       None \<Rightarrow> Ok current
     | Some n \<Rightarrow> if n < current then Err (counter_error recovery) else Ok n)"

definition update_counters :: "version_edit \<Rightarrow> counters \<Rightarrow> bool \<Rightarrow> counters result" where
  "update_counters e c recovery =
    rbind (advance recovery (ve_next_file_number e) (ct_next_file_number c)) (\<lambda>next_number.
    if ve_next_file_number e = Some 0 then Err (counter_error recovery) else
    rbind (advance recovery (ve_last_sequence e) (ct_last_sequence c)) (\<lambda>last_sequence.
    rbind (advance recovery (ve_log_number e) (ct_log_number c)) (\<lambda>log_number.
    rbind (advance recovery (ve_active_log_number e) (ct_active_log_number c)) (\<lambda>active_log_number.
    rbind (advance recovery (ve_wal_sequence e) (ct_wal_sequence c)) (\<lambda>wal_sequence.
    if (log_number = 0) \<noteq> (active_log_number = 0) then Err (counter_error recovery)
    else if log_number > active_log_number then Err (counter_error recovery)
    else if active_log_number \<ge> next_number \<and> active_log_number \<noteq> 0 then Err (counter_error recovery)
    else Ok \<lparr>ct_next_file_number = next_number, ct_last_sequence = last_sequence,
      ct_log_number = log_number, ct_active_log_number = active_log_number,
      ct_wal_sequence = wal_sequence\<rparr>)))))"

text \<open>The loop over the added files, with the set \<open>added\<close> of the source.\<close>

fun check_added_numbers ::
    "(usize \<times> file_meta) list \<Rightarrow> u64 set \<Rightarrow> u64 set \<Rightarrow> u64 \<Rightarrow> u64 set \<Rightarrow> bool \<Rightarrow> unit result" where
  "check_added_numbers [] added deleted next_number used recovery = Ok ()"
| "check_added_numbers ((level, f) # as) added deleted next_number used recovery =
    (let number = fm_number f in
     if number \<ge> next_number then Err (counter_error recovery)
     else if number \<in> added then Err (counter_error recovery)
     else if number \<in> deleted then Err (counter_error recovery)
     else if number \<in> used then Err (counter_error recovery)
     else check_added_numbers as (insert number added) deleted next_number used recovery)"

definition validate_file_numbers :: "version_edit \<Rightarrow> u64 \<Rightarrow> u64 set \<Rightarrow> bool \<Rightarrow> unit result" where
  "validate_file_numbers e next_number used recovery =
    (if \<exists>number \<in> used. number \<ge> next_number then Err (counter_error recovery)
     else check_added_numbers (ve_added_files e) {} (set (map snd (ve_deleted_files e)))
       next_number used recovery)"

definition file_numbers :: "version_edit \<Rightarrow> u64 list" where
  "file_numbers e = map (\<lambda>(level, f). fm_number f) (ve_added_files e)"

abbreviation added_numbers :: "version_edit \<Rightarrow> u64 set" where
  "added_numbers e \<equiv> set (file_numbers e)"

section \<open>The edit log\<close>

record manifest_writer =
  mw_path :: path
  mw_block_offset :: usize

definition mw_new :: "path \<Rightarrow> usize \<Rightarrow> manifest_writer" where
  "mw_new path block_offset = \<lparr>mw_path = path, mw_block_offset = block_offset\<rparr>"

definition mw_append ::
    "crc_lib \<Rightarrow> manifest_writer \<Rightarrow> bytes \<Rightarrow> fs \<Rightarrow> unit result \<times> manifest_writer \<times> fs" where
  "mw_append lib w logical fs =
    (let (r, off, fs) = write_record_loop lib (fs_write_all (mw_path w))
           (Io ''pad manifest block'' (mw_path w)) (Io ''append manifest edit'' (mw_path w))
           logical 0 True (mw_block_offset w) fs
     in (r, w\<lparr>mw_block_offset := off\<rparr>, fs))"

definition mw_sync :: "manifest_writer \<Rightarrow> string \<Rightarrow> unit fs_m" where
  "mw_sync w operation = io_err (Io operation (mw_path w)) (fs_sync_all (mw_path w))"

definition manifest_append_fragment :: "bytes \<Rightarrow> bytes \<Rightarrow> bytes result" where
  "manifest_append_fragment logical fragment =
    rbind (ok_or (Option.bind (checked_add_usize (length logical) (length fragment))
             (\<lambda>n. if n \<le> MAX_EDIT_BYTES then Some n else None)) manifest_corruption)
      (\<lambda>_. Ok (logical @ fragment))"

record 'a manifest_scan =
  ms_logical :: bytes
  ms_assembling :: bool
  ms_record_start :: nat
  ms_acc :: 'a

definition deliver_edit :: "(version_edit \<Rightarrow> 'a \<Rightarrow> 'a result) \<Rightarrow> bytes \<Rightarrow> 'a \<Rightarrow> 'a result" where
  "deliver_edit on_edit logical acc = rbind (decode_edit logical) (\<lambda>e. on_edit e acc)"

text \<open>The \<open>match\<close> on the fragment type in \<open>replay_manifest_stream\<close>.\<close>

definition manifest_on_fragment ::
    "(version_edit \<Rightarrow> 'a \<Rightarrow> 'a result) \<Rightarrow> 'a manifest_scan \<Rightarrow> nat \<Rightarrow> u8 \<Rightarrow> bytes \<Rightarrow>
     'a manifest_scan result" where
  "manifest_on_fragment on_edit st position fragment_type fragment =
    (if fragment_type = FULL \<and> \<not> ms_assembling st then
       rbind (deliver_edit on_edit fragment (ms_acc st)) (\<lambda>acc. Ok (st\<lparr>ms_acc := acc\<rparr>))
     else if fragment_type = FIRST \<and> \<not> ms_assembling st then
       rbind (manifest_append_fragment [] fragment) (\<lambda>logical.
       Ok (st\<lparr>ms_record_start := position, ms_logical := logical, ms_assembling := True\<rparr>))
     else if fragment_type = MIDDLE \<and> ms_assembling st then
       rbind (manifest_append_fragment (ms_logical st) fragment) (\<lambda>logical.
       Ok (st\<lparr>ms_logical := logical\<rparr>))
     else if fragment_type = LAST \<and> ms_assembling st then
       rbind (manifest_append_fragment (ms_logical st) fragment) (\<lambda>logical.
       rbind (deliver_edit on_edit logical (ms_acc st)) (\<lambda>acc.
       Ok (st\<lparr>ms_logical := [], ms_assembling := False, ms_acc := acc\<rparr>)))
     else Err manifest_corruption)"

text \<open>The result is the state of the callback, the valid prefix and the length of the file.\<close>

definition replay_manifest_stream ::
    "crc_lib \<Rightarrow> path \<Rightarrow> (version_edit \<Rightarrow> 'a \<Rightarrow> 'a result) \<Rightarrow> 'a \<Rightarrow> ('a \<times> nat \<times> nat) fs_m" where
  "replay_manifest_stream lib path on_edit acc =
    fbind (io_err (Io ''open manifest'' path) (fs_open_read path)) (\<lambda>content.
    flift (rbind (replay_log lib ManifestCtx (manifest_on_fragment on_edit)
        \<lparr>ms_logical = [], ms_assembling = False, ms_record_start = 0, ms_acc = acc\<rparr> content) (\<lambda>(st, position).
      Ok (ms_acc st, if ms_assembling st then ms_record_start st else position, length content))))"

record manifest_replay =
  mr_edits :: "version_edit list"
  mr_valid_bytes :: nat
  mr_file_length :: nat

definition push_edit :: "version_edit \<Rightarrow> version_edit list \<Rightarrow> version_edit list result" where
  "push_edit e edits = Ok (edits @ [e])"

definition replay_manifest :: "crc_lib \<Rightarrow> path \<Rightarrow> manifest_replay fs_m" where
  "replay_manifest lib path =
    fbind (replay_manifest_stream lib path push_edit []) (\<lambda>(edits, valid_bytes, file_length).
    fret \<lparr>mr_edits = edits, mr_valid_bytes = valid_bytes, mr_file_length = file_length\<rparr>)"

section \<open>Files beside the manifest\<close>

definition fs_validate_file :: "path \<Rightarrow> unit fs_op" where
  "fs_validate_file path fs =
    (case fs_open_read path fs of (Inl k, fs) \<Rightarrow> (Inl k, fs) | (Inr _, fs) \<Rightarrow> (Inr (), fs))"

text \<open>The two loops of \<open>validate_referenced_files\<close>, over one level and over the levels.\<close>

fun validate_level_files :: "path \<Rightarrow> file_meta list \<Rightarrow> unit fs_m" where
  "validate_level_files directory [] = fret ()"
| "validate_level_files directory (f # files) =
    fbind (io_err (\<lambda>_. manifest_corruption) (fs_validate_file (directory @ [sstable_name (fm_number f)])))
      (\<lambda>_. validate_level_files directory files)"

fun validate_levels :: "path \<Rightarrow> version \<Rightarrow> usize list \<Rightarrow> unit fs_m" where
  "validate_levels directory v [] = fret ()"
| "validate_levels directory v (level # levels) =
    fbind (validate_level_files directory (v_files v level)) (\<lambda>_. validate_levels directory v levels)"

definition validate_referenced_files :: "path \<Rightarrow> version \<Rightarrow> unit fs_m" where
  "validate_referenced_files directory v = validate_levels directory v [0..<NUM_LEVELS]"

definition replace_current :: "path \<Rightarrow> string \<Rightarrow> unit fs_m" where
  "replace_current directory name =
    (let current_temp = directory @ [''CURRENT.tmp'']; current_path = directory @ [''CURRENT''] in
     fbind (io_err (Io ''create CURRENT temporary file'' current_temp) (fs_create current_temp)) (\<lambda>handle.
     fbind (io_err (Io ''write CURRENT temporary file'' current_temp)
       (fs_write_all handle (as_bytes name @ [10]))) (\<lambda>_.
     fbind (io_err (Io ''sync CURRENT temporary file'' current_temp) (fs_sync_all handle)) (\<lambda>_.
     fbind (io_err (Io ''install CURRENT'' current_path) (fs_atomic_install current_temp current_path)) (\<lambda>_.
     io_err (Io ''sync CURRENT directory'' directory) (fs_sync_directory directory))))))"

definition remove_temporary_if_present :: "path \<Rightarrow> unit fs_m" where
  "remove_temporary_if_present path fs =
    (if fs_entry_exists path fs
     then io_err (Io ''remove temporary metadata file'' path) (fs_remove_file path) fs
     else fret () fs)"

section \<open>The version set\<close>

record version_set =
  vs_directory :: path
  vs_manifest_number :: u64
  vs_manifest :: manifest_writer
  vs_current :: version
  vs_used_file_numbers :: "u64 set"
  vs_counters :: counters
  vs_manifest_usable :: bool

record version_apply_error =
  vae_error :: error
  vae_edit_may_be_visible :: bool

definition before_manifest :: "error \<Rightarrow> version_apply_error" where
  "before_manifest e = \<lparr>vae_error = e, vae_edit_may_be_visible = False\<rparr>"

definition during_manifest :: "error \<Rightarrow> version_apply_error" where
  "during_manifest e = \<lparr>vae_error = e, vae_edit_may_be_visible = True\<rparr>"

text \<open>What replaying the edits of a manifest rebuilds.\<close>

record replayed =
  rs_version :: version
  rs_counters :: counters
  rs_used :: "u64 set"

definition replay_start :: "u64 \<Rightarrow> replayed" where
  "replay_start manifest_number =
    \<lparr>rs_version = version_empty,
     rs_counters = \<lparr>ct_next_file_number = 0, ct_last_sequence = 0, ct_log_number = 0,
       ct_active_log_number = 0, ct_wal_sequence = 0\<rparr>,
     rs_used = {manifest_number}\<rparr>"

definition replay_edit :: "bool \<Rightarrow> version_edit \<Rightarrow> replayed \<Rightarrow> replayed result" where
  "replay_edit recovery e s =
    rbind (update_counters e (rs_counters s) recovery) (\<lambda>c.
    rbind (validate_file_numbers e (ct_next_file_number c) (rs_used s) recovery) (\<lambda>_.
    rbind (map_err (\<lambda>x. if recovery then recovery_edit_error x else x) (version_apply (rs_version s) e))
      (\<lambda>candidate.
    Ok \<lparr>rs_version = candidate, rs_counters = c, rs_used = rs_used s \<union> added_numbers e\<rparr>)))"

fun replay_edits :: "version_edit list \<Rightarrow> replayed \<Rightarrow> replayed result" where
  "replay_edits [] s = Ok s"
| "replay_edits (e # es) s = rbind (replay_edit True e s) (replay_edits es)"

text \<open>The checks that recovery and the completion of an interrupted creation share.\<close>

definition rebuild_state :: "u64 \<Rightarrow> version_edit list \<Rightarrow> replayed result" where
  "rebuild_state manifest_number edits =
    (if edits = [] then Err manifest_corruption
     else rbind (replay_edits edits (replay_start manifest_number)) (\<lambda>s.
       if ct_next_file_number (rs_counters s) = 0 then Err manifest_corruption else Ok s))"

definition vs_recover :: "crc_lib \<Rightarrow> unit result \<Rightarrow> path \<Rightarrow> version_set fs_m" where
  "vs_recover lib lock directory =
    (let current_path = directory @ [''CURRENT''] in
     fbind (flift lock) (\<lambda>_.
     fbind (io_err (Io ''read CURRENT'' current_path) (fs_read_file current_path)) (\<lambda>current.
     fbind (flift (parse_current current)) (\<lambda>name.
     fbind (flift (parse_manifest_number name)) (\<lambda>manifest_number.
     let manifest_path = directory @ [name] in
     fbind (replay_manifest lib manifest_path) (\<lambda>replay.
     fbind (flift (rebuild_state manifest_number (mr_edits replay))) (\<lambda>s.
     fbind (validate_referenced_files directory (rs_version s)) (\<lambda>_.
     fbind (if mr_valid_bytes replay < mr_file_length replay then
              fbind (io_err (Io ''truncate torn manifest tail'' manifest_path)
                (fs_truncate_file manifest_path (mr_valid_bytes replay))) (\<lambda>_.
              io_err (Io ''sync truncated manifest'' manifest_path) (fs_sync_file manifest_path))
            else fret ()) (\<lambda>_.
     fbind (io_err (Io ''open manifest for append'' manifest_path) (fs_append_existing manifest_path)) (\<lambda>handle.
     fret \<lparr>vs_directory = directory, vs_manifest_number = manifest_number,
       vs_manifest = mw_new handle (mr_valid_bytes replay mod BLOCK_BYTES),
       vs_current = rs_version s, vs_used_file_numbers = rs_used s, vs_counters = rs_counters s,
       vs_manifest_usable = True\<rparr>))))))))))"

definition validate_interrupted_bootstrap :: "crc_lib \<Rightarrow> path \<Rightarrow> u64 \<Rightarrow> path \<Rightarrow> unit fs_m" where
  "validate_interrupted_bootstrap lib directory manifest_number manifest_path =
    fbind (replay_manifest lib manifest_path) (\<lambda>replay.
    if mr_valid_bytes replay \<noteq> mr_file_length replay then ffail manifest_corruption
    else fbind (flift (rebuild_state manifest_number (mr_edits replay))) (\<lambda>s.
      validate_referenced_files directory (rs_version s)))"

text \<open>The state after a creation that installed a fresh manifest.\<close>

definition vs_fresh :: "path \<Rightarrow> path \<Rightarrow> usize \<Rightarrow> version_set" where
  "vs_fresh directory handle block_offset =
    \<lparr>vs_directory = directory, vs_manifest_number = 1, vs_manifest = mw_new handle block_offset,
     vs_current = version_empty, vs_used_file_numbers = {1},
     vs_counters = \<lparr>ct_next_file_number = 2, ct_last_sequence = 0, ct_log_number = 0,
       ct_active_log_number = 0, ct_wal_sequence = 0\<rparr>,
     vs_manifest_usable = True\<rparr>"

definition write_initial_manifest :: "crc_lib \<Rightarrow> path \<Rightarrow> bytes \<Rightarrow> unit fs_m" where
  "write_initial_manifest lib manifest_temp encoded =
    fbind (io_err (Io ''create manifest temporary file'' manifest_temp) (fs_create manifest_temp)) (\<lambda>handle.
    fbind (\<lambda>fs. let (r, w, fs) = mw_append lib (mw_new handle 0) encoded fs in (r, fs)) (\<lambda>_.
    mw_sync (mw_new handle 0) ''sync new manifest''))"

definition create_new :: "crc_lib \<Rightarrow> path \<Rightarrow> version_set fs_m" where
  "create_new lib directory =
    (let name = manifest_name 1; manifest_path = directory @ [name];
         manifest_temp = directory @ [name @ ''.tmp''] in
     fbind (remove_temporary_if_present manifest_temp) (\<lambda>_.
     fbind (remove_temporary_if_present (directory @ [''CURRENT.tmp''])) (\<lambda>_.
     fbind (flift (encode_edit initial_edit)) (\<lambda>encoded.
     fbind (write_initial_manifest lib manifest_temp encoded) (\<lambda>_.
     fbind (io_err (Io ''install manifest temporary file'' manifest_path)
       (fs_atomic_install manifest_temp manifest_path)) (\<lambda>_.
     fbind (io_err (Io ''sync manifest directory'' directory) (fs_sync_directory directory)) (\<lambda>_.
     fbind (replace_current directory name) (\<lambda>_.
     fbind (io_err (Io ''open manifest for append'' manifest_path) (fs_append_existing manifest_path)) (\<lambda>handle.
     fret (vs_fresh directory handle (length encoded + HEADER_BYTES)))))))))))"

definition resume_bootstrap :: "crc_lib \<Rightarrow> unit result \<Rightarrow> path \<Rightarrow> version_set fs_m" where
  "resume_bootstrap lib relock directory =
    (let name = manifest_name 1; manifest_path = directory @ [name] in
     fbind (io_err (\<lambda>_. InvalidArgument) (fs_validate_file manifest_path)) (\<lambda>_.
     fbind (validate_interrupted_bootstrap lib directory 1 manifest_path) (\<lambda>_.
     fbind (remove_temporary_if_present (directory @ [''CURRENT.tmp''])) (\<lambda>_.
     fbind (replace_current directory name) (\<lambda>_.
     vs_recover lib relock directory)))))"

definition vs_create :: "crc_lib \<Rightarrow> unit result \<Rightarrow> unit result \<Rightarrow> path \<Rightarrow> version_set fs_m" where
  "vs_create lib lock relock directory =
    fbind (flift lock) (\<lambda>_ fs.
    if fs_entry_exists (directory @ [''CURRENT'']) fs then ffail InvalidArgument fs
    else if fs_entry_exists (directory @ [manifest_name 1]) fs then resume_bootstrap lib relock directory fs
    else create_new lib directory fs)"

fun sync_added_files :: "path \<Rightarrow> (usize \<times> file_meta) list \<Rightarrow> unit fs_m" where
  "sync_added_files directory [] = fret ()"
| "sync_added_files directory ((level, f) # as) =
    (let path = directory @ [sstable_name (fm_number f)] in
     fbind (io_err (Io ''sync referenced SSTable'' path) (fs_sync_file path))
       (\<lambda>_. sync_added_files directory as))"

text \<open>The checks before anything is written: the new state and the encoded edit.\<close>

definition prepare_edit :: "version_set \<Rightarrow> version_edit \<Rightarrow> (replayed \<times> bytes) result" where
  "prepare_edit vs e =
    (if \<not> vs_manifest_usable vs then Err Background
     else rbind (replay_edit False e
         \<lparr>rs_version = vs_current vs, rs_counters = vs_counters vs, rs_used = vs_used_file_numbers vs\<rparr>) (\<lambda>s.
       rbind (encode_edit e) (\<lambda>encoded. Ok (s, encoded))))"

definition vs_apply_with_visibility ::
    "crc_lib \<Rightarrow> version_set \<Rightarrow> version_edit \<Rightarrow> fs \<Rightarrow> (version_apply_error + unit) \<times> version_set \<times> fs" where
  "vs_apply_with_visibility lib vs e fs =
    (case prepare_edit vs e of
       Inl x \<Rightarrow> (Inl (before_manifest x), vs, fs)
     | Inr (s, encoded) \<Rightarrow>
         (case sync_added_files (vs_directory vs) (ve_added_files e) fs of
            (Inl x, fs) \<Rightarrow> (Inl (before_manifest x), vs, fs)
          | (Inr _, fs) \<Rightarrow>
              (case mw_append lib (vs_manifest vs) encoded fs of
                 (Inl x, w, fs) \<Rightarrow>
                   (Inl (during_manifest x), vs\<lparr>vs_manifest := w, vs_manifest_usable := False\<rparr>, fs)
               | (Inr _, w, fs) \<Rightarrow>
                   (case mw_sync w ''sync manifest edit'' fs of
                      (Inl x, fs) \<Rightarrow>
                        (Inl (during_manifest x), vs\<lparr>vs_manifest := w, vs_manifest_usable := False\<rparr>, fs)
                    | (Inr _, fs) \<Rightarrow>
                        (Inr (), vs\<lparr>vs_manifest := w, vs_current := rs_version s,
                           vs_used_file_numbers := rs_used s, vs_counters := rs_counters s\<rparr>, fs)))))"

definition vs_apply :: "crc_lib \<Rightarrow> version_set \<Rightarrow> version_edit \<Rightarrow> fs \<Rightarrow> unit result \<times> version_set \<times> fs" where
  "vs_apply lib vs e fs =
    (let (r, vs, fs) = vs_apply_with_visibility lib vs e fs in (map_sum vae_error id r, vs, fs))"

section \<open>What replaying edits keeps\<close>

definition counters_ok :: "counters \<Rightarrow> bool" where
  "counters_ok c \<longleftrightarrow> (ct_log_number c = 0) = (ct_active_log_number c = 0) \<and>
    ct_log_number c \<le> ct_active_log_number c \<and>
    (ct_active_log_number c = 0 \<or> ct_active_log_number c < ct_next_file_number c)"

definition counters_le :: "counters \<Rightarrow> counters \<Rightarrow> bool" where
  "counters_le c d \<longleftrightarrow> ct_next_file_number c \<le> ct_next_file_number d \<and>
    ct_last_sequence c \<le> ct_last_sequence d \<and> ct_log_number c \<le> ct_log_number d \<and>
    ct_active_log_number c \<le> ct_active_log_number d \<and> ct_wal_sequence c \<le> ct_wal_sequence d"

definition live_numbers :: "version \<Rightarrow> u64 set" where
  "live_numbers v = fm_number ` set (concat (v_levels v))"

definition replayed_ok :: "replayed \<Rightarrow> bool" where
  "replayed_ok s \<longleftrightarrow> version_ok (rs_version s) \<and> live_numbers (rs_version s) \<subseteq> rs_used s \<and>
    counters_ok (rs_counters s) \<and> (\<forall>n \<in> rs_used s. n < ct_next_file_number (rs_counters s))"

lemma advance_Ok: "advance r f c = Inr d \<longleftrightarrow> d = (case f of None \<Rightarrow> c | Some n \<Rightarrow> n) \<and> c \<le> d"
  by (auto simp: advance_def split: option.splits)

lemma update_counters_Ok:
  "update_counters e c r = Inr d \<Longrightarrow> counters_ok d \<and> counters_le c d"
  by (auto simp: update_counters_def result_iffs advance_Ok counters_ok_def counters_le_def split: if_splits)

lemma check_added_numbers_Ok:
  "check_added_numbers as added deleted next_number used r = Inr u \<longleftrightarrow>
    distinct (map (\<lambda>a. fm_number (snd a)) as) \<and>
    (\<forall>n \<in> set (map (\<lambda>a. fm_number (snd a)) as). n < next_number \<and> n \<notin> added \<and> n \<notin> deleted \<and> n \<notin> used)"
proof (induction as arbitrary: added)
  case (Cons a as)
  obtain l f where a: "a = (l, f)" by (cases a)
  from Cons.IH [of "insert (fm_number f) added"] show ?case
    by (auto simp: a Let_def not_le split: if_splits) (force simp: image_iff)
qed simp

lemma validate_file_numbers_Ok:
  "validate_file_numbers e next_number used r = Inr u \<longleftrightarrow>
    (\<forall>n \<in> used. n < next_number) \<and> distinct (file_numbers e) \<and>
    (\<forall>n \<in> added_numbers e. n < next_number \<and> n \<notin> used \<and> n \<notin> snd ` set (ve_deleted_files e))"
  by (auto simp: validate_file_numbers_def check_added_numbers_Ok file_numbers_def case_prod_unfold not_le
      simp flip: not_le)

text \<open>The only difference between an edit at run time and in recovery is the error it is refused with.\<close>

lemma update_counters_recovery: "update_counters e c r = Inr d \<longleftrightarrow> update_counters e c r' = Inr d"
  by (simp add: update_counters_def result_iffs advance_Ok)

lemma replay_edit_recovery: "replay_edit r e s = Inr t \<longleftrightarrow> replay_edit r' e s = Inr t"
  by (simp add: replay_edit_def result_iffs validate_file_numbers_Ok update_counters_recovery [of e _ r _ r'])

lemma version_apply_live:
  assumes "version_ok v" "edit_ok e" "version_apply v e = Inr v'"
  shows "live_numbers v' \<subseteq> live_numbers v \<union> added_numbers e"
proof
  fix n assume "n \<in> live_numbers v'"
  moreover have len: "length (v_levels v') = NUM_LEVELS" "length (v_levels v) = NUM_LEVELS"
    using version_apply_ok(1) [OF assms] assms(1) by (simp_all add: version_ok_def)
  ultimately obtain l f where l: "l < NUM_LEVELS" and f: "f \<in> set (v_files v' l)" "n = fm_number f"
    by (auto simp: live_numbers_def v_files_def in_set_conv_nth [of _ "v_levels v'"])
  from f version_apply_ok(2) [OF assms l] have "f \<in> set (edited_level v e l)" by simp
  then show "n \<in> live_numbers v \<union> added_numbers e"
    using l f(2) len by (force simp: edited_level_def live_numbers_def file_numbers_def case_prod_unfold v_files_def)
qed

lemma replay_edit_ok:
  assumes "replay_edit r e s = Inr t" "version_ok (rs_version s)" "live_numbers (rs_version s) \<subseteq> rs_used s"
    and "edit_ok e"
  shows "replayed_ok t" and "counters_le (rs_counters s) (rs_counters t)"
    and "rs_used t = rs_used s \<union> added_numbers e" and "added_numbers e \<inter> rs_used s = {}"
    and "distinct (file_numbers e)"
proof -
  from assms(1) obtain c v where c: "update_counters e (rs_counters s) r = Inr c"
    and n: "validate_file_numbers e (ct_next_file_number c) (rs_used s) r = Inr ()"
    and v: "version_apply (rs_version s) e = Inr v"
    and t: "t = \<lparr>rs_version = v, rs_counters = c, rs_used = rs_used s \<union> added_numbers e\<rparr>"
    by (auto simp: replay_edit_def result_iffs)
  note n = n [unfolded validate_file_numbers_Ok]
  show "replayed_ok t"
    using version_apply_ok(1) [OF assms(2,4) v] version_apply_live [OF assms(2,4) v] assms(3)
      update_counters_Ok [OF c] n
    by (auto simp: replayed_ok_def t)
  from update_counters_Ok [OF c] show "counters_le (rs_counters s) (rs_counters t)" by (simp add: t)
  show "rs_used t = rs_used s \<union> added_numbers e" by (simp add: t)
  from n show "added_numbers e \<inter> rs_used s = {}"
    "distinct (file_numbers e)" by auto
qed

lemma counters_le_trans: "counters_le a b \<Longrightarrow> counters_le b c \<Longrightarrow> counters_le a c"
  by (auto simp: counters_le_def)

lemma replay_edits_append:
  "replay_edits (es @ fs) s = rbind (replay_edits es s) (replay_edits fs)"
proof (induction es arbitrary: s)
  case (Cons e es)
  then show ?case by (cases "replay_edit True e s") simp_all
qed simp

lemma replay_start_pre:
  "version_ok (rs_version (replay_start n))" "live_numbers (rs_version (replay_start n)) \<subseteq> rs_used (replay_start n)"
  using version_ok_empty by (simp_all add: replay_start_def live_numbers_def version_empty_def)

lemma replay_edits_ok:
  assumes "replay_edits es s = Inr t" "version_ok (rs_version s)" "live_numbers (rs_version s) \<subseteq> rs_used s"
    and "\<forall>e \<in> set es. edit_ok e"
  shows "(es \<noteq> [] \<longrightarrow> replayed_ok t) \<and> counters_le (rs_counters s) (rs_counters t) \<and>
    rs_used t = rs_used s \<union> \<Union> (added_numbers ` set es) \<and>
    distinct (concat (map file_numbers es)) \<and>
    rs_used s \<inter> \<Union> (added_numbers ` set es) = {}"
  using assms
proof (induction es arbitrary: s)
  case Nil
  then show ?case by (simp add: counters_le_def)
next
  case (Cons e es)
  from Cons.prems(1) obtain s1 where s1: "replay_edit True e s = Inr s1" "replay_edits es s1 = Inr t"
    by (auto simp: rbind_Ok_iff)
  have e: "edit_ok e" using Cons.prems(4) by simp
  note r = replay_edit_ok [OF s1(1) Cons.prems(2,3) e]
  have pre: "version_ok (rs_version s1)" "live_numbers (rs_version s1) \<subseteq> rs_used s1"
    using r(1) by (simp_all add: replayed_ok_def)
  have es: "\<forall>e \<in> set es. edit_ok e" using Cons.prems(4) by simp
  note IH = Cons.IH [OF s1(2) pre es]
  have "replayed_ok t" using IH r(1) s1(2) by (cases "es = []") auto
  moreover have "counters_le (rs_counters s) (rs_counters t)" using IH r(2) counters_le_trans by blast
  ultimately show ?case using IH r(3,4,5) by auto
qed

lemma rebuild_state_ok:
  assumes "rebuild_state n edits = Inr s" "\<forall>e \<in> set edits. edit_ok e"
  shows "replayed_ok s"
  using assms replay_edits_ok [OF _ replay_start_pre, of edits n s]
  by (auto simp: rebuild_state_def result_iffs split: if_splits)

lemma rebuild_state_snoc:
  assumes "rebuild_state n edits = Inr s" "replay_edit r e s = Inr t"
    and "\<forall>e \<in> set edits. edit_ok e" "edit_ok e"
  shows "rebuild_state n (edits @ [e]) = Inr t"
proof -
  have "replayed_ok s" using rebuild_state_ok [OF assms(1,3)] .
  then have "counters_le (rs_counters s) (rs_counters t)"
    using replay_edit_ok(2) [OF assms(2) _ _ assms(4)] by (simp add: replayed_ok_def)
  moreover have "ct_next_file_number (rs_counters s) \<noteq> 0" "replay_edits edits (replay_start n) = Inr s"
    using assms(1) by (auto simp: rebuild_state_def result_iffs split: if_splits)
  moreover have "replay_edit True e s = Inr t" using assms(2) replay_edit_recovery by blast
  ultimately show ?thesis
    by (auto simp: rebuild_state_def replay_edits_append counters_le_def)
qed

text \<open>The state a new database has.\<close>

definition initial_state :: replayed where
  "initial_state = \<lparr>rs_version = version_empty,
    rs_counters = \<lparr>ct_next_file_number = 2, ct_last_sequence = 0, ct_log_number = 0,
      ct_active_log_number = 0, ct_wal_sequence = 0\<rparr>, rs_used = {1}\<rparr>"

lemmas edit_setters = set_wal_sequence_def set_active_log_number_def set_log_number_def
  set_last_sequence_def set_next_file_number_def ve_new_def

lemma version_apply_nothing:
  "ve_added_files e = [] \<Longrightarrow> ve_deleted_files e = [] \<Longrightarrow> version_apply version_empty e = Ok version_empty"
  by (simp add: version_apply_def version_empty_def NUM_LEVELS_def newest_first_def by_smallest_def
      upt_rec numeral_eq_Suc)

lemma initial_edit_ok: "edit_ok initial_edit" "encode_edit initial_edit = Ok (edit_bytes initial_edit)"
  by (simp_all add: edit_ok_def initial_edit_def edit_setters encode_edit_iff edit_fits_def levels_fit_def
      edit_bytes_def files_bytes_def log_bytes_def MAX_EDIT_BYTES_def)

lemma replay_initial: "replay_edit r initial_edit (replay_start 1) = Ok initial_state"
  using version_apply_nothing [of initial_edit]
  by (simp add: replay_edit_def initial_edit_def edit_setters replay_start_def update_counters_def advance_def
      validate_file_numbers_def file_numbers_def initial_state_def
      word_le_nat_alt)

lemma rebuild_initial: "rebuild_state 1 [initial_edit] = Ok initial_state"
  by (simp add: rebuild_state_def replay_initial) (simp add: initial_state_def)

section \<open>Properties\<close>

text \<open>
  C9. In every state a manifest can be replayed to, the version is well formed, every live SSTable
  has a number the manifest allocated, all allocated numbers are below the next file number, and the
  log numbers are consistent.  No file number is ever given to two files, the manifest included,
  and no counter moves backward between any two points of the history.
\<close>

theorem manifest_history:
  assumes "rebuild_state n (earlier @ later) = Ok t" "replay_edits earlier (replay_start n) = Ok s"
    and "\<forall>e \<in> set (earlier @ later). edit_ok e"
  shows "replayed_ok t \<and> counters_le (rs_counters s) (rs_counters t) \<and>
    distinct (n # concat (map file_numbers (earlier @ later))) \<and>
    rs_used t = set (n # concat (map file_numbers (earlier @ later)))"
proof -
  have all: "replay_edits (earlier @ later) (replay_start n) = Inr t"
    using assms(1) by (auto simp: rebuild_state_def result_iffs split: if_splits)
  note r = replay_edits_ok [OF all replay_start_pre assms(3)]
  from all assms(2) have "replay_edits later s = Inr t" by (simp add: replay_edits_append)
  moreover have "version_ok (rs_version s) \<and> live_numbers (rs_version s) \<subseteq> rs_used s"
  proof (cases "earlier = []")
    case True
    with assms(2) replay_start_pre show ?thesis by auto
  next
    case False
    with replay_edits_ok [OF _ replay_start_pre, of earlier n s] assms(2,3) show ?thesis
      by (auto simp: replayed_ok_def)
  qed
  ultimately have "counters_le (rs_counters s) (rs_counters t)"
    using replay_edits_ok [of later s t] assms(3) by simp
  moreover have "replayed_ok t" using rebuild_state_ok [OF _ assms(3)] assms(1) by simp
  moreover have "rs_used (replay_start n) = {n}" by (simp add: replay_start_def)
  ultimately show ?thesis using r by auto
qed

theorem manifest_history_witness:
  "replayed_ok initial_state \<and> counters_le (rs_counters (replay_start 1)) (rs_counters initial_state) \<and>
    distinct (1 # concat (map file_numbers ([] @ [initial_edit]))) \<and>
    rs_used initial_state = set (1 # concat (map file_numbers ([] @ [initial_edit])))"
  by (rule manifest_history) (simp_all add: rebuild_initial initial_edit_ok)

end
