(* ===== verification/Manifest_Recovery.thy ===== *)
theory Manifest_Recovery
  imports Manifest
begin

text \<open>
  Crash safety of the version set: recovery rebuilds exactly the acknowledged edits, whatever
  operation fails and wherever the manifest is torn.
\<close>

section \<open>What a crash leaves\<close>

definition crash_files :: "fs \<Rightarrow> path \<Rightarrow> bytes option" where
  "crash_files fs = os_files (fs_crash fs)"

text \<open>The files a crash leaves, opened by a new process.\<close>

definition fs_restart :: "fs \<Rightarrow> fs" where
  "fs_restart fs = fs_recording (crash_files fs)"

lemma crash_files_eq: "crash_files fs p =
    (if is_tracked fs p \<or> ci_durable (fs_image fs) p \<noteq> None then ci_durable (fs_image fs) p else os_files fs p)"
  by (simp add: crash_files_def fs_crash_def restore_durable_state_def is_tracked_def Let_def)

lemmas crash_simps = crash_files_eq is_tracked_def Let_def

lemma crash_files_observe: "observe op p s = (r, s') \<Longrightarrow> crash_files s' = crash_files s"
  by (auto simp: crash_simps observe_def restore_durable_state_def fun_eq_iff split: if_splits)

lemma crash_files_seed: "fs_mirror s \<Longrightarrow> crash_files (snd (seed_existing_file p s)) = crash_files s"
  by (auto simp: crash_simps fs_mirror_def seed_existing_file_def seed_durable_file_def fun_eq_iff
      split: option.splits)

lemma crash_files_record_sync:
  "is_tracked s p \<Longrightarrow> fs_mirror s \<Longrightarrow> os_files s p \<noteq> None \<Longrightarrow> crash_files (record_file_sync p s) =
    (if crash_files s p = None then crash_files s else (crash_files s)(p := os_files s p))"
proof -
  assume t: "is_tracked s p" and m: "fs_mirror s" and f: "os_files s p \<noteq> None"
  have "os_files s p = ci_volatile (fs_image s) p" using t m by (simp add: fs_mirror_eq is_tracked_def)
  moreover have "crash_files s p = ci_durable (fs_image s) p" using t by (simp add: crash_files_eq)
  ultimately show ?thesis
    using t f by (cases "ci_volatile (fs_image s) p")
      (auto simp: crash_simps record_file_sync_def fun_eq_iff restore_durable_state_def)
qed

lemma observe_fail_at: "observe op p s = (r, s') \<Longrightarrow> fs_fail_at s' = fs_fail_at s"
  by (auto simp: observe_def restore_durable_state_def Let_def split: if_splits)

lemma seed_fail_at [simp]: "fs_fail_at (snd (seed_existing_file p s)) = fs_fail_at s"
  by (auto simp: fs_image_defs Let_def split: option.splits)

text \<open>Writing to an open file, and reading, change nothing that a crash would leave.\<close>

lemma write_all_crash:
  assumes "fs_write_all p bs s = (r, s')" "is_tracked s p"
  shows "crash_files s' = crash_files s" and "is_tracked s' p"
    and "fs_mirror s \<Longrightarrow> fs_entry_exists p s \<Longrightarrow> fs_mirror s'"
proof -
  obtain r1 s1 where o: "observe WriteOp p s = (r1, s1)" by force
  have t: "is_tracked s1 p"
    using o assms(2) by (auto simp: observe_def restore_durable_state_def is_tracked_def Let_def split: if_splits)
  note c = crash_files_observe [OF o]
  show "crash_files s' = crash_files s"
    unfolding c [symmetric] using assms(1) o t
    by (auto simp: fs_write_all_def record_write_def crash_simps fun_eq_iff split: sum.splits option.splits)
  show "is_tracked s' p"
    using assms(1) o t
    by (auto simp: fs_write_all_def record_write_def is_tracked_def Let_def split: sum.splits option.splits)
  show "fs_mirror s \<Longrightarrow> fs_entry_exists p s \<Longrightarrow> fs_mirror s'"
    using fs_mirror_write assms by blast
qed

lemma sync_all_crash:
  assumes "fs_sync_all p s = (Inr u, s')" "is_tracked s p" "fs_mirror s" "os_files s p \<noteq> None"
  shows "crash_files s' = (if crash_files s p = None then crash_files s else (crash_files s)(p := os_files s p))"
    and "os_files s' = os_files s" and "fs_mirror s'" and "is_tracked s' p"
proof -
  from assms(1) obtain s1 where o: "observe FileSync p s = (Inr (), s1)" "s' = record_file_sync p s1"
    by (auto simp: fs_sync_all_def split: prod.splits sum.splits)
  note oo = observe_Inr [OF o(1)]
  have t: "is_tracked s1 p" "fs_mirror s1" "os_files s1 p \<noteq> None"
    using assms(2,3,4) oo fs_mirror_observe [OF assms(3) o(1)] by (simp_all add: is_tracked_def)
  show "crash_files s' = (if crash_files s p = None then crash_files s else (crash_files s)(p := os_files s p))"
    using crash_files_record_sync [OF t] crash_files_observe [OF o(1)] oo o(2) by simp
  show "os_files s' = os_files s" using o(2) oo by (simp add: record_file_sync_def Let_def split: option.splits)
  show "fs_mirror s'" using assms fs_mirror_sync by blast
  show "is_tracked s' p" using t o(2) by (simp add: record_file_sync_def is_tracked_def Let_def split: option.splits)
qed

lemma sync_all_failed:
  assumes "fs_sync_all p s = (Inl e, s')" "fs_mirror s"
  shows "crash_files s' = crash_files s" and "fs_mirror s'"
  using assms crash_files_observe fs_mirror_sync
  by (auto simp: fs_sync_all_def split: prod.splits sum.splits)

lemma sync_file_crash:
  assumes "fs_sync_file p s = (Inr u, s')" "fs_mirror s"
  shows "crash_files s' = (if crash_files s p = None then crash_files s else (crash_files s)(p := os_files s p))"
    and "os_files s' = os_files s" and "fs_mirror s'" and "os_files s p \<noteq> None"
proof -
  let ?s0 = "snd (seed_existing_file p s)"
  obtain r1 s1 where o1: "observe SyncFile p ?s0 = (r1, s1)" by force
  with assms(1) have r1: "r1 = Inr ()" and f: "os_files s1 p \<noteq> None"
    and s': "s' = record_file_sync p (snd (record_truncate p s1))"
    by (auto simp: fs_sync_file_def record_truncate_def case_prod_beta split: sum.splits if_splits option.splits)
  note o = o1 [unfolded r1]
  note oo = observe_Inr [OF o]
  note m1 = fs_mirror_observe [OF fs_mirror_seed [OF assms(2)] o]
  have t: "is_tracked s1 p" using seed_existing_tracked [of p s] f oo by (auto simp: is_tracked_def)
  let ?s2 = "snd (record_truncate p s1)"
  have s2: "?s2 = s1"
    using f t m1 by (cases s1) (auto simp: record_truncate_def fs_mirror_def is_tracked_def insert_absorb Let_def
        split: option.splits intro!: crash_image.equality)
  show "crash_files s' = (if crash_files s p = None then crash_files s else (crash_files s)(p := os_files s p))"
    using crash_files_record_sync [OF t m1 f] crash_files_observe [OF o] crash_files_seed [OF assms(2)] oo s' s2
    by simp
  show "os_files s' = os_files s" using s' s2 oo by (simp add: record_file_sync_def Let_def split: option.splits)
  show "fs_mirror s'" using assms fs_mirror_sync_file by blast
  show "os_files s p \<noteq> None" using f oo by simp
qed

lemma sync_file_failed:
  assumes "fs_sync_file p s = (Inl e, s')" "fs_mirror s"
  shows "crash_files s' = crash_files s" and "fs_mirror s'"
proof -
  let ?s0 = "snd (seed_existing_file p s)"
  obtain r1 s1 where o: "observe SyncFile p ?s0 = (r1, s1)" by force
  have "s' = s1"
    using assms(1) o by (auto simp: fs_sync_file_def record_truncate_def case_prod_beta
        split: prod.splits sum.splits if_splits option.splits)
  then show "crash_files s' = crash_files s"
    using crash_files_observe [OF o] crash_files_seed [OF assms(2)] by simp
  show "fs_mirror s'" using assms fs_mirror_sync_file by blast
qed

section \<open>A settled filesystem\<close>

text \<open>Everything on disk is stable and no failure is pending: a process that has just started.\<close>

definition settled :: "fs \<Rightarrow> bool" where
  "settled fs \<longleftrightarrow> fs_mirror fs \<and> crash_files fs = os_files fs \<and> fs_fail_at fs = None"

lemma settled_recording: "settled (fs_recording files)"
  using fs_mirror_init(1) [of files] by (auto simp: settled_def crash_simps fs_recording_def)

lemma settled_restart: "settled (fs_restart fs)" "os_files (fs_restart fs) = crash_files fs"
  by (simp add: fs_restart_def settled_recording) (simp add: fs_restart_def fs_recording_def)

lemma settled_seed: "settled s \<Longrightarrow> settled (snd (seed_existing_file p s))"
  by (simp add: settled_def fs_mirror_seed crash_files_seed)

lemma settled_open_read:
  assumes "settled s" "os_files s p = Some bs"
  shows "\<exists>s'. fs_open_read p s = (Inr bs, s') \<and> settled s' \<and> os_files s' = os_files s"
  using assms settled_seed [OF assms(1)]
  by (auto simp: fs_open_read_def case_prod_beta)

lemma settled_read_file:
  assumes "settled s" "os_files s p = Some bs"
  shows "\<exists>s'. fs_read_file p s = (Inr bs, s') \<and> settled s' \<and> os_files s' = os_files s"
proof -
  have "snd (seed_existing_file p s) = seed_durable_file p bs s"
    using assms(2) by (simp add: seed_existing_file_def seed_durable_file_def is_tracked_def Let_def)
  with assms settled_seed [OF assms(1), of p] seed_existing_os [of p s] show ?thesis
    by (simp add: fs_read_file_def)
qed

lemma settled_validate:
  assumes "settled s" "os_files s p \<noteq> None"
  shows "\<exists>s'. fs_validate_file p s = (Inr (), s') \<and> settled s' \<and> os_files s' = os_files s"
  using assms settled_open_read by (fastforce simp: fs_validate_file_def)

lemma observe_settled:
  assumes "fs_fail_at s = None"
  shows "\<exists>s'. observe op p s = (Inr (), s') \<and> os_files s' = os_files s \<and> fs_image s' = fs_image s \<and>
    fs_fail_at s' = None"
  using assms by (simp add: observe_def Let_def)

lemma settled_sync_file:
  assumes "fs_mirror s" "fs_fail_at s = None" "os_files s p = Some c" "crash_files s p \<noteq> None"
    and "\<forall>q. q \<noteq> p \<longrightarrow> crash_files s q = os_files s q"
  shows "\<exists>s'. fs_sync_file p s = (Inr (), s') \<and> settled s' \<and> os_files s' = os_files s"
proof -
  obtain s1 where o: "observe SyncFile p (snd (seed_existing_file p s)) = (Inr (), s1)"
    "os_files s1 = os_files s" "fs_fail_at s1 = None"
    using observe_settled [of "snd (seed_existing_file p s)" SyncFile p] assms(2) by auto
  then obtain s' where s': "fs_sync_file p s = (Inr (), s')" "fs_fail_at s' = None"
    using assms(3)
    by (simp add: fs_sync_file_def record_truncate_def record_file_sync_def case_prod_beta Let_def
        split: option.splits)
  note sf = sync_file_crash [OF s'(1) assms(1)]
  have "crash_files s' = os_files s'"
    using sf(1,2) assms(3-5) by (auto simp: fun_eq_iff)
  with s' sf show ?thesis by (auto simp: settled_def)
qed

lemma settled_truncate_sync:
  assumes "settled s" "os_files s p = Some c" "n \<le> length c"
  shows "\<exists>s1 s2. fs_truncate_file p n s = (Inr (), s1) \<and> fs_sync_file p s1 = (Inr (), s2) \<and>
    settled s2 \<and> os_files s2 = (os_files s)(p \<mapsto> take n c)"
proof -
  let ?s0 = "snd (seed_existing_file p s)"
  have s0: "settled ?s0" using settled_seed [OF assms(1)] .
  obtain s1 where o: "observe Truncate p ?s0 = (Inr (), s1)" "os_files s1 = os_files s" "fs_fail_at s1 = None"
    using observe_settled [of ?s0 Truncate p] s0 by (auto simp: settled_def)
  have t: "is_tracked s1 p"
    using seed_existing_tracked [of p s] observe_Inr [OF o(1)] assms(2) by (auto simp: is_tracked_def)
  have c1: "crash_files s1 = os_files s"
    using crash_files_observe [OF o(1)] s0 by (simp add: settled_def)
  obtain s2 where tr: "fs_truncate_file p n s = (Inr (), s2)" and s2: "fs_fail_at s2 = None"
      "os_files s2 = (os_files s)(p \<mapsto> take n c)" "crash_files s2 = crash_files s1"
    using o assms t
    by (simp add: fs_truncate_file_def record_truncate_def case_prod_beta crash_simps fun_eq_iff)
  have m2: "fs_mirror s2" using fs_mirror_truncate [OF _ tr] assms(1) by (simp add: settled_def)
  from settled_sync_file [OF m2 s2(1), of p "take n c"] s2 c1 assms(2) tr show ?thesis by auto
qed

lemma settled_append_existing:
  assumes "settled s" "os_files s p \<noteq> None"
  shows "\<exists>s'. fs_append_existing p s = (Inr p, s') \<and> settled s' \<and> os_files s' = os_files s \<and> fs_linked p s'"
proof -
  let ?s = "snd (seed_existing_file p s)"
  have s: "settled ?s" using settled_seed [OF assms(1)] .
  have t: "is_tracked ?s p" using seed_existing_tracked [of p s] assms(2) by (simp add: is_tracked_def)
  have "fst (seed_existing_file p s)" using assms(2) by (auto simp: seed_existing_file_def)
  moreover have "ci_durable (fs_image ?s) p \<noteq> None"
    using s t assms(2) crash_files_eq [of ?s p] by (simp add: settled_def)
  ultimately show ?thesis
    using s t assms(2) by (auto simp: fs_append_existing_def fs_linked_def fs_entry_exists_def settled_def case_prod_beta)
qed

lemma settled_validate_level:
  assumes "settled s" "\<forall>f \<in> set files. os_files s (directory @ [sstable_name (fm_number f)]) \<noteq> None"
  shows "\<exists>s'. validate_level_files directory files s = (Inr (), s') \<and> settled s' \<and> os_files s' = os_files s"
  using assms
proof (induction files arbitrary: s)
  case (Cons f files)
  let ?p = "directory @ [sstable_name (fm_number f)]"
  from settled_validate [OF Cons.prems(1), of ?p] Cons.prems(2) obtain s1 where
    s1: "fs_validate_file ?p s = (Inr (), s1)" "settled s1" "os_files s1 = os_files s" by auto
  from Cons.IH [OF s1(2)] Cons.prems(2) s1 show ?case by (auto simp: fbind_def io_err_def)
qed simp

lemma settled_validate_levels:
  assumes "settled s"
    and "\<forall>l \<in> set ls. \<forall>f \<in> set (v_files v l). os_files s (directory @ [sstable_name (fm_number f)]) \<noteq> None"
  shows "\<exists>s'. validate_levels directory v ls s = (Inr (), s') \<and> settled s' \<and> os_files s' = os_files s"
  using assms
proof (induction ls arbitrary: s)
  case (Cons l ls)
  from settled_validate_level [OF Cons.prems(1), of "v_files v l" directory] Cons.prems(2) obtain s1 where
    s1: "validate_level_files directory (v_files v l) s = (Inr (), s1)" "settled s1" "os_files s1 = os_files s"
    by auto
  from Cons.IH [OF s1(2)] Cons.prems(2) s1 show ?case by (auto simp: fbind_def)
qed simp

lemma settled_validate_referenced:
  assumes "settled s" "length (v_levels v) = NUM_LEVELS"
    and "\<forall>n \<in> live_numbers v. os_files s (directory @ [sstable_name n]) \<noteq> None"
  shows "\<exists>s'. validate_referenced_files directory v s = (Inr (), s') \<and> settled s' \<and> os_files s' = os_files s"
proof -
  have "\<forall>l \<in> set [0..<NUM_LEVELS]. \<forall>f \<in> set (v_files v l). fm_number f \<in> live_numbers v"
    using assms(2) by (auto simp: live_numbers_def v_files_def intro!: imageI) (metis nth_mem)
  with settled_validate_levels [OF assms(1), of "[0..<NUM_LEVELS]" v directory] assms(3)
  show ?thesis by (auto simp: validate_referenced_files_def)
qed

section \<open>The manifest as a record log\<close>

interpretation manifest_log: record_log "manifest_on_fragment on_edit"
    "\<lambda>st. \<not> ms_assembling st" "\<lambda>st p l. ms_assembling st \<and> ms_logical st = l \<and> ms_record_start st = p" ms_acc
    "deliver_edit on_edit" MAX_EDIT_BYTES
  for on_edit :: "version_edit \<Rightarrow> 'a \<Rightarrow> 'a result"
  by unfold_locales
    (use MAX_EDIT_usize in \<open>auto simp: manifest_on_fragment_def fragment_types manifest_append_fragment_def
      checked_add_usize_def\<close>)

text \<open>
  The bytes of a manifest with the given logical records.  A recovery may keep the padding of a torn
  append, in which case the next append starts in the next block.
\<close>

definition framed_bytes :: "crc_lib \<Rightarrow> bytes list \<Rightarrow> bytes \<Rightarrow> usize \<Rightarrow> bool" where
  "framed_bytes lib encs content off \<longleftrightarrow>
    (let (log, o1) = frame_log lib 0 encs in
     content = log \<and> off = o1 \<or> content = log @ replicate (pad_length o1) 0 \<and> off = pad_offset o1)"

text \<open>A manifest whose last append, of a record \<open>r\<close>, stopped after \<open>k\<close> bytes.\<close>

definition torn_bytes :: "crc_lib \<Rightarrow> bytes list \<Rightarrow> bytes \<Rightarrow> bool" where
  "torn_bytes lib encs content \<longleftrightarrow>
    (\<exists>r k. r \<noteq> [] \<and> length r \<le> MAX_EDIT_BYTES \<and>
      k < length (fst (frame_record lib (snd (frame_log lib 0 encs)) True r)) \<and>
      content = fst (frame_log lib 0 encs) @ take k (fst (frame_record lib (snd (frame_log lib 0 encs)) True r)))"

definition edit_record :: "version_edit \<Rightarrow> bytes \<Rightarrow> bool" where
  "edit_record e enc \<longleftrightarrow> decode_edit enc = Ok e"

lemma edit_record_bounds:
  assumes "edit_record e enc"
  shows "enc \<noteq> [] \<and> length enc \<le> MAX_EDIT_BYTES \<and> edit_ok e"
proof -
  from assms have d: "decode_edit enc = Inr e" by (simp add: edit_record_def)
  have "edit_bytes e \<noteq> []" "legacy_edit_bytes e \<noteq> []" by (simp_all add: edit_bytes_def legacy_edit_bytes_def)
  with decode_edit_Ok [OF d] show ?thesis by auto
qed

lemma framed_bytes_snoc:
  assumes "framed_bytes lib encs content off" "r \<noteq> []"
  shows "frame_log lib 0 (encs @ [r]) =
    (content @ fst (frame_record lib off True r), snd (frame_record lib off True r))"
  using assms frame_record_pad [OF assms(2) frame_log_offset_le [of 0 lib encs], of lib True]
  by (auto simp: framed_bytes_def frame_log_snoc case_prod_beta Let_def)

lemma framed_bytes_torn:
  assumes "framed_bytes lib encs content off"
  shows "torn_bytes lib encs content"
proof -
  let ?o = "snd (frame_log lib 0 encs)"
  let ?f = "frame_record lib ?o True [0]"
  have f: "fst ?f = replicate (pad_length ?o) 0 @ drop (pad_length ?o) (fst ?f)"
    "pad_length ?o < length (fst ?f)"
    using frame_record_Cons [of "[0]" _ ?o lib True] by (simp_all add: HEADER_BYTES_def)
  have "take (pad_length ?o) (fst ?f) = replicate (pad_length ?o) 0"
    by (subst f(1)) simp
  moreover have "1 \<le> MAX_EDIT_BYTES" by (simp add: MAX_EDIT_BYTES_def)
  ultimately show ?thesis
    using assms f(2) unfolding torn_bytes_def framed_bytes_def
    by (intro exI [of _ "[0]"] exI [of _ "if content = fst (frame_log lib 0 encs) then 0 else pad_length ?o"])
      (auto simp: case_prod_beta Let_def)
qed

lemma deliver_edit_records:
  "list_all2 edit_record edits encs \<Longrightarrow> deliver_all (deliver_edit push_edit) encs acc = Ok (acc @ edits)"
  by (induction edits encs arbitrary: acc rule: list_all2_induct)
    (simp_all add: deliver_edit_def edit_record_def push_edit_def)

lemma edit_records_bounded:
  "list_all2 edit_record edits encs \<Longrightarrow>
    (\<forall>r \<in> set encs. r \<noteq> [] \<and> length r \<le> MAX_EDIT_BYTES) \<and> (\<forall>e \<in> set edits. edit_ok e)"
  by (induction edits encs rule: list_all2_induct) (auto dest: edit_record_bounds)

text \<open>Reading a torn manifest gives its complete records, and the prefix to keep is again a manifest.\<close>

lemma frame_log_length_mod: "length (fst (frame_log lib 0 encs)) mod BLOCK_BYTES = snd (frame_log lib 0 encs) mod BLOCK_BYTES"
proof (induction encs rule: rev_induct)
  case (snoc r encs)
  let ?l = "frame_log lib 0 encs"
  have o: "snd ?l \<le> BLOCK_BYTES" using frame_log_offset_le [of 0 lib encs] by simp
  show ?case
    using snoc frame_record_length_mod [OF o, of lib True r]
    by (simp add: frame_log_snoc) (metis mod_add_left_eq)
qed simp

lemma valid_prefix_bytes:
  assumes "take n content = fst (frame_log lib 0 encs) \<or>
     take n content = fst (frame_log lib 0 encs) @ replicate (pad_length (snd (frame_log lib 0 encs))) 0"
    and "n \<le> length content"
  shows "framed_bytes lib encs (take n content) (n mod BLOCK_BYTES)"
proof -
  let ?l = "frame_log lib 0 encs"
  have o: "snd ?l \<le> BLOCK_BYTES" using frame_log_offset_le [of 0 lib encs] by simp
  have m: "length (fst ?l) mod BLOCK_BYTES = snd ?l mod BLOCK_BYTES" by (rule frame_log_length_mod)
  from assms(1) show ?thesis
  proof
    assume t: "take n content = fst ?l"
    then have n: "n = length (fst ?l)" using assms(2) by (metis length_take min.absorb2)
    show ?thesis
    proof (cases "snd ?l = BLOCK_BYTES")
      case True
      then have "pad_length (snd ?l) = 0" "pad_offset (snd ?l) = 0" by (simp_all add: pad_length_def pad_offset_def framing_consts)
      with True t n m show ?thesis by (simp add: framed_bytes_def case_prod_beta)
    next
      case False
      with o t n m show ?thesis by (simp add: framed_bytes_def case_prod_beta)
    qed
  next
    assume t: "take n content = fst ?l @ replicate (pad_length (snd ?l)) 0"
    then have n: "n = length (fst ?l) + pad_length (snd ?l)"
      using assms(2) by (metis length_append length_replicate length_take min.absorb2)
    have "n mod BLOCK_BYTES = pad_offset (snd ?l)"
      unfolding n using m pad_mod [OF o] by (metis mod_add_left_eq)
    with t show ?thesis by (simp add: framed_bytes_def case_prod_beta)
  qed
qed

lemma torn_valid_prefix:
  assumes "r \<noteq> []" "content = fst (frame_log lib 0 encs) @ take k (fst (frame_record lib (snd (frame_log lib 0 encs)) True r))"
    and "k < length (fst (frame_record lib (snd (frame_log lib 0 encs)) True r))"
    and "n \<in> {length (fst (frame_log lib 0 encs)), length (fst (frame_log lib 0 encs)) + pad_length (snd (frame_log lib 0 encs))}"
    and "n \<le> length (fst (frame_log lib 0 encs)) + k"
  shows "n \<le> length content" and "framed_bytes lib encs (take n content) (n mod BLOCK_BYTES)"
proof -
  let ?l = "frame_log lib 0 encs"
  show le: "n \<le> length content" using assms by auto
  have "take (pad_length (snd ?l)) (fst (frame_record lib (snd ?l) True r)) = replicate (pad_length (snd ?l)) 0"
    by (simp add: frame_record_Cons [OF assms(1) refl])
  then have "take n content = fst ?l \<or> take n content = fst ?l @ replicate (pad_length (snd ?l)) 0"
    using assms(4,5) unfolding assms(2) by (auto simp: min_absorb1)
  from valid_prefix_bytes [OF this le] show "framed_bytes lib encs (take n content) (n mod BLOCK_BYTES)" .
qed

lemma replay_manifest_torn:
  assumes "list_all2 edit_record edits encs" "torn_bytes lib encs content" "settled s" "os_files s p = Some content"
  shows "\<exists>n s'. replay_manifest lib p s =
      (Inr \<lparr>mr_edits = edits, mr_valid_bytes = n, mr_file_length = length content\<rparr>, s') \<and>
    settled s' \<and> os_files s' = os_files s \<and> n \<le> length content \<and>
    framed_bytes lib encs (take n content) (n mod BLOCK_BYTES)"
proof -
  let ?l = "frame_log lib 0 encs"
  let ?st = "\<lparr>ms_logical = [], ms_assembling = False, ms_record_start = 0, ms_acc = []\<rparr>"
  from assms(2) obtain r k where r: "r \<noteq> []" "length r \<le> MAX_EDIT_BYTES"
    and k: "k < length (fst (frame_record lib (snd ?l) True r))"
    and c: "content = fst ?l @ take k (fst (frame_record lib (snd ?l) True r))"
    by (auto simp: torn_bytes_def)
  have b: "\<forall>x \<in> set (encs @ [r]). x \<noteq> [] \<and> length x \<le> MAX_EDIT_BYTES"
    using edit_records_bounded [OF assms(1)] r by simp
  have d: "deliver_all (deliver_edit push_edit) encs (ms_acc ?st) = Inr edits"
    using deliver_edit_records [OF assms(1), of "[]"] by simp
  from manifest_log.replay_torn [OF _ b d prod.collapse [symmetric] k, of ManifestCtx] obtain st e where
    st: "ms_acc st = edits" "replay_log lib ManifestCtx (manifest_on_fragment push_edit) ?st content = Ok (st, e)"
    and e: "\<not> ms_assembling st \<and> e \<in> {length (fst ?l), length (fst ?l) + pad_length (snd ?l)} \<and> e \<le> length (fst ?l) + k \<or>
      ms_assembling st \<and> ms_record_start st = length (fst ?l) + pad_length (snd ?l) \<and> pad_length (snd ?l) \<le> k"
    by (auto simp: c)
  define n where "n = (if ms_assembling st then ms_record_start st else e)"
  have "n \<in> {length (fst ?l), length (fst ?l) + pad_length (snd ?l)}" "n \<le> length (fst ?l) + k"
    using e by (auto simp: n_def)
  note n = torn_valid_prefix [OF r(1) c k this]
  from settled_open_read [OF assms(3,4)] obtain s' where
    "fs_open_read p s = (Inr content, s')" "settled s'" "os_files s' = os_files s" by blast
  then show ?thesis
    using n st by (intro exI [of _ n] exI [of _ s'])
      (simp add: replay_manifest_def replay_manifest_stream_def fbind_def io_err_def flift_def fret_def n_def)
qed

section \<open>Recovery\<close>

definition vs_state :: "version_set \<Rightarrow> replayed" where
  "vs_state vs = \<lparr>rs_version = vs_current vs, rs_counters = vs_counters vs, rs_used = vs_used_file_numbers vs\<rparr>"

abbreviation manifest_path :: "path \<Rightarrow> u64 \<Rightarrow> path" where
  "manifest_path directory n \<equiv> directory @ [manifest_name n]"

abbreviation sstable_path :: "path \<Rightarrow> u64 \<Rightarrow> path" where
  "sstable_path directory n \<equiv> directory @ [sstable_name n]"

definition current_bytes :: "u64 \<Rightarrow> bytes" where
  "current_bytes n = as_bytes (manifest_name n) @ [10]"

text \<open>
  The files of a database directory determine a version set: \<open>CURRENT\<close> names the manifest, the
  manifest holds the edits, and the files the edits leave live exist.
\<close>

definition db_files :: "path \<Rightarrow> u64 \<Rightarrow> version_edit list \<Rightarrow> replayed \<Rightarrow> (path \<Rightarrow> bytes option) \<Rightarrow> bool" where
  "db_files directory n edits s files \<longleftrightarrow>
    n \<noteq> 0 \<and> files (directory @ [''CURRENT'']) = Some (current_bytes n) \<and> rebuild_state n edits = Ok s \<and>
    (\<forall>m \<in> live_numbers (rs_version s). files (sstable_path directory m) \<noteq> None)"

text \<open>An open version set whose manifest holds exactly the edits, on stable storage.\<close>

definition vs_ok :: "crc_lib \<Rightarrow> version_set \<Rightarrow> fs \<Rightarrow> version_edit list \<Rightarrow> bool" where
  "vs_ok lib vs fs edits \<longleftrightarrow>
    (let p = manifest_path (vs_directory vs) (vs_manifest_number vs) in
     vs_manifest_usable vs \<and> mw_path (vs_manifest vs) = p \<and> fs_linked p fs \<and>
     os_files fs p = crash_files fs p \<and>
     (\<exists>encs. list_all2 edit_record edits encs \<and>
       framed_bytes lib encs (fs_contents p fs) (mw_block_offset (vs_manifest vs))) \<and>
     db_files (vs_directory vs) (vs_manifest_number vs) edits (vs_state vs) (crash_files fs))"

lemma parse_current_bytes:
  assumes "n \<noteq> 0"
  shows "parse_current (current_bytes n) = Ok (manifest_name n)" and "parse_manifest_number (manifest_name n) = Ok n"
  using assms by (auto simp: current_bytes_def parse_current_iff parse_manifest_number_iff)

lemma manifest_name_neq [simp]: "manifest_name n \<noteq> ''CURRENT''" "''CURRENT'' \<noteq> manifest_name n"
  by (simp_all add: manifest_name_def)

text \<open>Opening the manifest for append after the torn tail has been removed.\<close>

lemma recover_open:
  assumes "settled s" "os_files s p = Some content" "n \<le> length content"
  shows "\<exists>s'. fbind (if n < length content then
              fbind (io_err (Io ''truncate torn manifest tail'' p) (fs_truncate_file p n)) (\<lambda>_.
              io_err (Io ''sync truncated manifest'' p) (fs_sync_file p))
            else fret ()) (\<lambda>_. fbind (io_err (Io ''open manifest for append'' p) (fs_append_existing p)) f) s =
      f p s' \<and> settled s' \<and> fs_linked p s' \<and> os_files s' = (os_files s)(p \<mapsto> take n content)"
proof (cases "n < length content")
  case True
  from settled_truncate_sync [OF assms] obtain s1 s2 where
    t: "fs_truncate_file p n s = (Inr (), s1)" "fs_sync_file p s1 = (Inr (), s2)"
      "settled s2" "os_files s2 = (os_files s)(p \<mapsto> take n content)" by blast
  from settled_append_existing [OF t(3), of p] t(4) obtain s' where
    "fs_append_existing p s2 = (Inr p, s')" "settled s'" "os_files s' = os_files s2" "fs_linked p s'" by auto
  with True t show ?thesis by (intro exI [of _ s']) (simp add: fbind_def io_err_def)
next
  case False
  from settled_append_existing [OF assms(1), of p] assms(2) obtain s' where
    "fs_append_existing p s = (Inr p, s')" "settled s'" "os_files s' = os_files s" "fs_linked p s'" by auto
  with False assms(2,3) show ?thesis
    by (intro exI [of _ s']) (simp add: fbind_def io_err_def fret_def fun_upd_idem)
qed

lemma vs_recover_ok:
  assumes "settled s" "db_files directory n edits st (os_files s)" "list_all2 edit_record edits encs"
    and "torn_bytes lib encs content" "os_files s (manifest_path directory n) = Some content"
  shows "\<exists>vs s'. vs_recover lib (Ok ()) directory s = (Ok vs, s') \<and> vs_ok lib vs s' edits \<and> settled s' \<and>
    vs_state vs = st \<and> vs_directory vs = directory \<and> vs_manifest_number vs = n"
proof -
  let ?p = "manifest_path directory n"
  have db: "n \<noteq> 0" "os_files s (directory @ [''CURRENT'']) = Some (current_bytes n)" "rebuild_state n edits = Inr st"
    "\<forall>m \<in> live_numbers (rs_version st). os_files s (sstable_path directory m) \<noteq> None"
    using assms(2) by (auto simp: db_files_def)
  have len: "length (v_levels (rs_version st)) = NUM_LEVELS"
    using rebuild_state_ok [OF db(3)] edit_records_bounded [OF assms(3)] by (simp add: replayed_ok_def version_ok_def)
  from settled_read_file [OF assms(1) db(2)] obtain s1 where
    s1: "fs_read_file (directory @ [''CURRENT'']) s = (Inr (current_bytes n), s1)" "settled s1" "os_files s1 = os_files s"
    by blast
  from replay_manifest_torn [OF assms(3,4) s1(2), of ?p] assms(5) s1(3) obtain k s2 where
    s2: "replay_manifest lib ?p s1 =
      (Inr \<lparr>mr_edits = edits, mr_valid_bytes = k, mr_file_length = length content\<rparr>, s2)"
    "settled s2" "os_files s2 = os_files s" and k: "k \<le> length content"
    and fb: "framed_bytes lib encs (take k content) (k mod BLOCK_BYTES)" by auto
  from settled_validate_referenced [OF s2(2) len] db(4) s2(3) obtain s3 where
    s3: "validate_referenced_files directory (rs_version st) s2 = (Inr (), s3)" "settled s3" "os_files s3 = os_files s"
    by auto
  define vs where "vs = \<lparr>vs_directory = directory, vs_manifest_number = n, vs_manifest = mw_new ?p (k mod BLOCK_BYTES),
      vs_current = rs_version st, vs_used_file_numbers = rs_used st, vs_counters = rs_counters st,
      vs_manifest_usable = True\<rparr>"
  let ?f = "\<lambda>handle. fret \<lparr>vs_directory = directory, vs_manifest_number = n,
      vs_manifest = mw_new handle (k mod BLOCK_BYTES), vs_current = rs_version st,
      vs_used_file_numbers = rs_used st, vs_counters = rs_counters st, vs_manifest_usable = True\<rparr>"
  have "os_files s3 ?p = Some content" using assms(5) s3(3) by simp
  from recover_open [OF s3(2) this k, of ?f] s3(3)
  obtain s4 where s4: "settled s4" "fs_linked ?p s4" "os_files s4 = (os_files s)(?p \<mapsto> take k content)"
    and tl: "fbind (if k < length content then
              fbind (io_err (Io ''truncate torn manifest tail'' ?p) (fs_truncate_file ?p k)) (\<lambda>_.
              io_err (Io ''sync truncated manifest'' ?p) (fs_sync_file ?p))
            else fret ()) (\<lambda>_. fbind (io_err (Io ''open manifest for append'' ?p) (fs_append_existing ?p)) ?f) s3 =
      ?f ?p s4" by auto
  have run: "vs_recover lib (Ok ()) directory s = (Ok vs, s4)"
    using tl
    by (simp add: vs_recover_def db(3) parse_current_bytes [OF db(1)] Let_def vs_def fret_def
        fbind_io [of "fs_read_file (directory @ [''CURRENT''])", OF s1(1)]
        fbind_run [of "replay_manifest lib ?p", OF s2(1)]
        fbind_run [of "validate_referenced_files directory (rs_version st)", OF s3(1)] cong: if_cong split del: if_split)
  have st: "vs_state vs = st" by (simp add: vs_def vs_state_def)
  have "db_files directory n edits st (os_files s4)" using db by (auto simp: db_files_def s4(3))
  moreover have "fs_contents ?p s4 = take k content" by (simp add: fs_contents_def s4(3))
  ultimately have "vs_ok lib vs s4 edits"
    using s4 fb assms(3) st by (auto simp: vs_ok_def vs_def mw_new_def settled_def Let_def)
  with run st s4(1) show ?thesis by (auto simp: vs_def)
qed

section \<open>Applying an edit\<close>

text \<open>What stable storage holds of a version set, whatever the process has done since.\<close>

definition disk_ok :: "crc_lib \<Rightarrow> path \<Rightarrow> u64 \<Rightarrow> version_edit list \<Rightarrow> replayed \<Rightarrow> fs \<Rightarrow> bool" where
  "disk_ok lib directory n edits s fs \<longleftrightarrow>
    (\<exists>encs content. list_all2 edit_record edits encs \<and> torn_bytes lib encs content \<and>
      crash_files fs (manifest_path directory n) = Some content) \<and>
    db_files directory n edits s (crash_files fs)"

lemma linked_iff: "fs_linked p s \<longleftrightarrow> fs_mirror s \<and> is_tracked s p \<and> os_files s p \<noteq> None \<and> crash_files s p \<noteq> None"
  by (auto simp: fs_linked_def fs_entry_exists_def crash_files_eq)

lemma vs_ok_disk:
  assumes "vs_ok lib vs fs edits"
  shows "disk_ok lib (vs_directory vs) (vs_manifest_number vs) edits (vs_state vs) fs"
proof -
  let ?p = "manifest_path (vs_directory vs) (vs_manifest_number vs)"
  from assms obtain encs where "list_all2 edit_record edits encs"
    "framed_bytes lib encs (fs_contents ?p fs) (mw_block_offset (vs_manifest vs))"
    and "fs_linked ?p fs" "os_files fs ?p = crash_files fs ?p"
    and db: "db_files (vs_directory vs) (vs_manifest_number vs) edits (vs_state vs) (crash_files fs)"
    by (auto simp: vs_ok_def Let_def)
  moreover from this have "crash_files fs ?p = Some (fs_contents ?p fs)"
    by (auto simp: fs_contents_def linked_iff)
  ultimately show ?thesis using framed_bytes_torn by (auto simp: disk_ok_def)
qed

lemma disk_ok_recover:
  assumes "disk_ok lib directory n edits s fs"
  shows "\<exists>vs fs'. vs_recover lib (Ok ()) directory (fs_restart fs) = (Ok vs, fs') \<and> vs_ok lib vs fs' edits \<and>
    settled fs' \<and> vs_state vs = s \<and> vs_directory vs = directory \<and> vs_manifest_number vs = n"
  using assms vs_recover_ok [OF settled_restart(1)] by (auto simp: disk_ok_def settled_restart(2))

lemma observe_restored:
  "observe op p s = (Inl e, s') \<Longrightarrow> os_files s' = crash_files s"
  using observe_Inl by (fastforce simp: crash_files_def fs_crash_def)

lemma observe_tracked: "observe op q s = (r, s') \<Longrightarrow> is_tracked s' p = is_tracked s p"
  by (auto simp: observe_def restore_durable_state_def is_tracked_def Let_def split: if_splits)

text \<open>Files whose name survives a crash keep it, and an open, fully synchronized file is untouched.\<close>

lemma sync_file_survives:
  assumes "fs_sync_file q s = (r, s')" "fs_mirror s"
  shows "fs_mirror s'" and "crash_files s p \<noteq> None \<Longrightarrow> crash_files s' p \<noteq> None"
    and "q \<noteq> p \<Longrightarrow> crash_files s' p = crash_files s p"
    and "q \<noteq> p \<Longrightarrow> os_files s p = crash_files s p \<Longrightarrow> os_files s' p = os_files s p"
    and "is_tracked s p \<Longrightarrow> is_tracked s' p"
proof -
  show "fs_mirror s'" using assms fs_mirror_sync_file by blast
  have c: "crash_files s' = crash_files s \<or> crash_files s' = (crash_files s)(q := os_files s q) \<and> os_files s q \<noteq> None"
    using assms sync_file_crash [of q s _ s'] sync_file_failed [of q s _ s'] by (cases r) auto
  then show "crash_files s p \<noteq> None \<Longrightarrow> crash_files s' p \<noteq> None" by auto
  from c show "q \<noteq> p \<Longrightarrow> crash_files s' p = crash_files s p" by auto
  let ?s0 = "snd (seed_existing_file q s)"
  obtain r1 s1 where o: "observe SyncFile q ?s0 = (r1, s1)" by force
  have "s' = s1 \<or> s' = record_file_sync q (snd (record_truncate q s1))"
    using assms(1) o by (cases r1; cases "os_files s1 q")
      (simp_all add: fs_sync_file_def case_prod_beta record_truncate_def split: sum.splits)
  then have os: "os_files s' = os_files s1" and tr: "is_tracked s1 p \<Longrightarrow> is_tracked s' p"
    by (auto simp: record_truncate_def record_file_sync_def is_tracked_def Let_def split: option.splits)
  show "q \<noteq> p \<Longrightarrow> os_files s p = crash_files s p \<Longrightarrow> os_files s' p = os_files s p"
  proof (cases r1)
    case (Inl e)
    with observe_restored [OF o [unfolded Inl]] crash_files_seed [OF assms(2), of q] os
    show "os_files s p = crash_files s p \<Longrightarrow> os_files s' p = os_files s p" by simp
  next
    case (Inr u)
    with observe_Inr [OF o [unfolded Inr]] os show "os_files s' p = os_files s p" by simp
  qed
  show "is_tracked s p \<Longrightarrow> is_tracked s' p"
    using tr observe_tracked [OF o] seed_existing_tracked_mono by (auto simp: is_tracked_def)
qed

lemma sync_added_survives:
  assumes "sync_added_files directory as s = (r, s')" "fs_mirror s"
    and "\<forall>m. p \<noteq> sstable_path directory m"
  shows "fs_mirror s' \<and> (\<forall>q. crash_files s q \<noteq> None \<longrightarrow> crash_files s' q \<noteq> None) \<and>
    crash_files s' p = crash_files s p \<and>
    (os_files s p = crash_files s p \<longrightarrow> os_files s' p = os_files s p) \<and> (is_tracked s p \<longrightarrow> is_tracked s' p)"
  using assms(1,2)
proof (induction as arbitrary: s)
  case Nil
  then show ?case by simp
next
  case (Cons a as)
  obtain l f where a: "a = (l, f)" by (cases a)
  let ?q = "sstable_path directory (fm_number f)"
  have q: "?q \<noteq> p" using assms(3) by metis
  from Cons.prems(1) show ?case unfolding a sync_added_files.simps Let_def
  proof (cases rule: fbind_cases)
    case (fail e)
    then obtain k where "fs_sync_file ?q s = (Inl k, s')" by (auto simp: io_err_Err_iff)
    from sync_file_survives [OF this Cons.prems(2)] q show ?thesis by auto
  next
    case (run x s1)
    then have "fs_sync_file ?q s = (Inr x, s1)" by (auto simp: io_err_Ok_iff)
    note s1 = sync_file_survives [OF this Cons.prems(2)]
    from Cons.IH [OF run(2) s1(1)] s1(2) s1(3-5) [of p] q show ?thesis by simp
  qed
qed

lemma write_all_keeps_linked:
  assumes "fs_write_all p bs s = (r, s')" "fs_linked p s"
  shows "fs_linked p s' \<and> crash_files s' = crash_files s"
proof -
  have l: "fs_mirror s" "is_tracked s p" "os_files s p \<noteq> None" "crash_files s p \<noteq> None"
    using assms(2) by (auto simp: linked_iff)
  note w = write_all_crash [OF assms(1) l(2)]
  have "os_files s' p \<noteq> None"
  proof (cases r)
    case (Inl e)
    then have "observe WriteOp p s = (Inl e, s')"
      using assms(1) by (auto simp: fs_write_all_def split: prod.splits sum.splits)
    from observe_restored [OF this] l(4) show ?thesis by simp
  next
    case (Inr u)
    with fs_write_all_linked(1) [of p s bs u s'] assms show ?thesis by (simp add: linked_iff)
  qed
  with w l show ?thesis by (simp add: linked_iff fs_entry_exists_def)
qed

lemma mw_append_linked:
  assumes "mw_append lib w logical s = (r, w', s')" "fs_linked (mw_path w) s"
  shows "fs_linked (mw_path w) s' \<and> crash_files s' = crash_files s \<and> mw_path w' = mw_path w"
proof -
  let ?P = "\<lambda>x. fs_linked (mw_path w) x \<and> crash_files x = crash_files s"
  from assms(1) obtain off where loop: "write_record_loop lib (fs_write_all (mw_path w))
      (Io ''pad manifest block'' (mw_path w)) (Io ''append manifest edit'' (mw_path w))
      logical 0 True (mw_block_offset w) s = (r, off, s')" and w': "w' = w\<lparr>mw_block_offset := off\<rparr>"
    by (auto simp: mw_append_def split: prod.splits)
  from loop have "?P s'"
  proof (rule write_record_loop_keeps [where P = ?P, rotated 2])
    fix bs x q y
    assume "?P x" "fs_write_all (mw_path w) bs x = (q, y)"
    with write_all_keeps_linked [of "mw_path w" bs x q y] show "?P y" by simp
  qed (use assms(2) in simp)
  with w' show ?thesis by simp
qed

lemma encode_edit_record: "encode_edit e = Inr enc \<Longrightarrow> edit_ok e \<Longrightarrow> edit_record e enc"
  by (simp add: encode_edit_iff edit_record_def decode_encode_edit)

lemma sstable_path_neq: "manifest_path d n \<noteq> sstable_path d m" "sstable_path d m \<noteq> d @ [''CURRENT'']"
proof -
  have "hd (sstable_name m) \<in> set (format_06 m)"
    using format_06_length [of m] by (cases "format_06 m") (auto simp: sstable_name_def)
  then have d: "is_ascii_digit (hd (sstable_name m))" by (rule format_06_digits)
  have "hd (manifest_name n) = CHR ''M''" by (simp add: manifest_name_def)
  with d show "manifest_path d n \<noteq> sstable_path d m" by (auto simp: is_ascii_digit_def)
  from d show "sstable_path d m \<noteq> d @ [''CURRENT'']" by (auto simp: is_ascii_digit_def)
qed

lemma db_files_mono:
  assumes "db_files d n edits s files" "\<forall>q. files q \<noteq> None \<longrightarrow> files' q \<noteq> None"
    and "files' (d @ [''CURRENT'']) = files (d @ [''CURRENT''])"
  shows "db_files d n edits s files'"
  using assms by (auto simp: db_files_def)

text \<open>The stages of \<open>apply\<close>: after the SSTables, after the append, after the sync.\<close>

lemma sync_added_vs_ok:
  assumes "vs_ok lib vs fs edits" "sync_added_files (vs_directory vs) as fs = (r, fs')"
  shows "vs_ok lib vs fs' edits"
proof -
  let ?d = "vs_directory vs" and ?p = "manifest_path (vs_directory vs) (vs_manifest_number vs)"
  have ok: "fs_linked ?p fs" "os_files fs ?p = crash_files fs ?p"
    "db_files ?d (vs_manifest_number vs) edits (vs_state vs) (crash_files fs)"
    using assms(1) by (auto simp: vs_ok_def Let_def)
  have m: "fs_mirror fs" using ok(1) by (simp add: linked_iff)
  have "\<forall>m. ?p \<noteq> sstable_path ?d m" "\<forall>m. ?d @ [''CURRENT''] \<noteq> sstable_path ?d m"
    using sstable_path_neq by metis+
  note p = sync_added_survives [OF assms(2) m this(1)] and c = sync_added_survives [OF assms(2) m this(2)]
  have os: "os_files fs' ?p = os_files fs ?p" using p ok(2) by blast
  have lk: "fs_linked ?p fs'" using p ok(1,2) os unfolding linked_iff by metis
  have "db_files ?d (vs_manifest_number vs) edits (vs_state vs) (crash_files fs')"
    by (rule db_files_mono [OF ok(3)]) (use c in blast)+
  moreover have "os_files fs' ?p = crash_files fs' ?p" "fs_contents ?p fs' = fs_contents ?p fs"
    using p ok(2) os by (simp_all add: fs_contents_def)
  ultimately show ?thesis using assms(1) lk by (auto simp: vs_ok_def Let_def)
qed

lemma vs_state_publish: "vs_state (vs\<lparr>vs_manifest := w, vs_current := rs_version s,
    vs_used_file_numbers := rs_used s, vs_counters := rs_counters s\<rparr>) = s"
  by (cases s) (simp add: vs_state_def)

lemma publish_ok:
  assumes "vs_ok lib vs fs edits" "edit_ok e" "replay_edit b e (vs_state vs) = Inr s"
    and "encode_edit e = Inr enc" "\<forall>m \<in> added_numbers e. crash_files fs (sstable_path (vs_directory vs) m) \<noteq> None"
    and "mw_append lib (vs_manifest vs) enc fs = (Inr u, w, fs1)" "mw_sync w op fs1 = (Inr v, fs2)"
  shows "vs_ok lib (vs\<lparr>vs_manifest := w, vs_current := rs_version s, vs_used_file_numbers := rs_used s,
    vs_counters := rs_counters s\<rparr>) fs2 (edits @ [e])"
    and "\<forall>q. crash_files fs q \<noteq> None \<longrightarrow> crash_files fs2 q \<noteq> None"
proof -
  let ?d = "vs_directory vs" and ?n = "vs_manifest_number vs"
  let ?p = "manifest_path ?d ?n"
  from assms(1) obtain encs where recs: "list_all2 edit_record edits encs"
    and fb: "framed_bytes lib encs (fs_contents ?p fs) (mw_block_offset (vs_manifest vs))"
    and lk: "fs_linked ?p fs" and mp: "mw_path (vs_manifest vs) = ?p" and us: "vs_manifest_usable vs"
    and db: "db_files ?d ?n edits (vs_state vs) (crash_files fs)"
    by (auto simp: vs_ok_def Let_def)
  have enc: "edit_record e enc" using encode_edit_record [OF assms(4,2)] .
  have a: "fs_linked ?p fs1" "crash_files fs1 = crash_files fs" "mw_path w = ?p"
    using mw_append_linked [OF assms(6)] lk mp by auto
  have fr: "fs_contents ?p fs1 = fs_contents ?p fs @ fst (frame_record lib (mw_block_offset (vs_manifest vs)) True enc)"
    "mw_block_offset w = snd (frame_record lib (mw_block_offset (vs_manifest vs)) True enc)"
    using assms(6) linked_file.write_record_appends [OF lk] mp by (auto simp: mw_append_def split: prod.splits)
  have log: "frame_log lib 0 (encs @ [enc]) = (fs_contents ?p fs1, mw_block_offset w)"
    using framed_bytes_snoc [OF fb] edit_record_bounds [OF enc] fr by simp
  have sy: "fs_sync_all ?p fs1 = (Inr v, fs2)" using assms(7) a(3) by (simp add: mw_sync_def io_err_Ok_iff)
  have l1: "is_tracked fs1 ?p" "fs_mirror fs1" "os_files fs1 ?p \<noteq> None" "crash_files fs ?p \<noteq> None"
    using a(1,2) by (auto simp: linked_iff)
  note s2 = sync_all_crash [OF sy l1(1-3)]
  have c2: "crash_files fs2 = (crash_files fs)(?p := os_files fs1 ?p)" using s2(1) a(2) l1(4) by simp
  show mono: "\<forall>q. crash_files fs q \<noteq> None \<longrightarrow> crash_files fs2 q \<noteq> None" using c2 l1(3) by simp
  have reb: "rebuild_state ?n (edits @ [e]) = Inr s"
    using rebuild_state_snoc [OF _ assms(3) _ assms(2)] db edit_records_bounded [OF recs] by (auto simp: db_files_def)
  have ok: "replayed_ok (vs_state vs)"
    using rebuild_state_ok edit_records_bounded [OF recs] db by (auto simp: db_files_def)
  obtain c where ap: "version_apply (rs_version (vs_state vs)) e = Inr (rs_version s)"
    using assms(3) by (auto simp: replay_edit_def result_iffs)
  have live: "live_numbers (rs_version s) \<subseteq> live_numbers (rs_version (vs_state vs)) \<union> added_numbers e"
    using version_apply_live [OF _ assms(2) ap] ok by (simp add: replayed_ok_def)
  have "\<forall>m \<in> live_numbers (rs_version s). crash_files fs2 (sstable_path ?d m) \<noteq> None"
    using live assms(5) db mono unfolding db_files_def by blast
  moreover have "crash_files fs2 (?d @ [''CURRENT'']) = Some (current_bytes ?n)"
    using c2 db by (simp add: db_files_def)
  ultimately have "db_files ?d ?n (edits @ [e]) s (crash_files fs2)"
    using reb db by (simp add: db_files_def)
  moreover have "list_all2 edit_record (edits @ [e]) (encs @ [enc])" using recs enc by (simp add: list_all2_appendI)
  moreover have "framed_bytes lib (encs @ [enc]) (fs_contents ?p fs2) (mw_block_offset w)"
    using log s2(2) by (simp add: framed_bytes_def fs_contents_def)
  moreover have "fs_linked ?p fs2" "os_files fs2 ?p = crash_files fs2 ?p"
    using s2(2-4) c2 l1(3) by (simp_all add: linked_iff)
  ultimately show "vs_ok lib (vs\<lparr>vs_manifest := w, vs_current := rs_version s, vs_used_file_numbers := rs_used s,
    vs_counters := rs_counters s\<rparr>) fs2 (edits @ [e])"
    using us a(3) by (auto simp: vs_ok_def vs_state_publish Let_def)
qed

text \<open>One call of \<open>apply\<close>: success, a failure before the manifest, a failure while writing it.\<close>

lemma vs_apply_step:
  assumes "vs_ok lib vs fs edits" "edit_ok e"
    and "\<forall>m \<in> added_numbers e. crash_files fs (sstable_path (vs_directory vs) m) \<noteq> None"
    and "vs_apply_with_visibility lib vs e fs = (r, vs', fs')"
  shows "(case r of
      Inr _ \<Rightarrow> vs_ok lib vs' fs' (edits @ [e])
    | Inl x \<Rightarrow> vs_state vs' = vs_state vs \<and> disk_ok lib (vs_directory vs) (vs_manifest_number vs) edits (vs_state vs) fs' \<and>
        (if vae_edit_may_be_visible x then \<not> vs_manifest_usable vs' else vs' = vs \<and> vs_ok lib vs fs' edits)) \<and>
    vs_directory vs' = vs_directory vs \<and> vs_manifest_number vs' = vs_manifest_number vs \<and>
    (\<forall>q. crash_files fs q \<noteq> None \<longrightarrow> crash_files fs' q \<noteq> None)"
proof (cases "prepare_edit vs e")
  case (Inl x)
  with assms vs_ok_disk [OF assms(1)] show ?thesis by (auto simp: vs_apply_with_visibility_def before_manifest_def)
next
  case prep: (Inr y)
  then obtain s enc where y: "y = (s, enc)" and rep: "replay_edit False e (vs_state vs) = Inr s"
    and enc: "encode_edit e = Inr enc"
    by (auto simp: prepare_edit_def vs_state_def result_iffs split: if_splits)
  let ?d = "vs_directory vs" and ?n = "vs_manifest_number vs"
  obtain r1 fs1 where sa: "sync_added_files ?d (ve_added_files e) fs = (r1, fs1)" by force
  have ok1: "vs_ok lib vs fs1 edits" using sync_added_vs_ok [OF assms(1) sa] .
  have mono1: "\<forall>q. crash_files fs q \<noteq> None \<longrightarrow> crash_files fs1 q \<noteq> None"
  proof -
    have "fs_mirror fs" using assms(1) by (auto simp: vs_ok_def linked_iff Let_def)
    moreover have "\<forall>m. ?d @ [''CURRENT''] \<noteq> sstable_path ?d m" using sstable_path_neq(2) by metis
    ultimately show ?thesis using sync_added_survives [OF sa] by blast
  qed
  show ?thesis
  proof (cases r1)
    case (Inl x)
    with assms(4) prep y sa ok1 mono1 vs_ok_disk [OF ok1] show ?thesis
      by (auto simp: vs_apply_with_visibility_def before_manifest_def)
  next
    case r1: (Inr u1)
    obtain r2 w fs2 where ap: "mw_append lib (vs_manifest vs) enc fs1 = (r2, w, fs2)" by (metis prod_cases3)
    have lk: "fs_linked (mw_path (vs_manifest vs)) fs1" using ok1 by (auto simp: vs_ok_def Let_def)
    note a = mw_append_linked [OF ap lk]
    have disk: "disk_ok lib ?d ?n edits (vs_state vs) x" if "crash_files x = crash_files fs1" for x
      using vs_ok_disk [OF ok1] that by (simp add: disk_ok_def)
    have dur: ?thesis if "r = Inl (during_manifest x)" "crash_files fs' = crash_files fs1"
      "vs' = vs\<lparr>vs_manifest := w, vs_manifest_usable := False\<rparr>" for x
      using that disk [OF that(2)] mono1 by (simp add: during_manifest_def vs_state_def)
    show ?thesis
    proof (cases r2)
      case (Inl x)
      then have "r = Inl (during_manifest x)" "fs' = fs2" "vs' = vs\<lparr>vs_manifest := w, vs_manifest_usable := False\<rparr>"
        using assms(4) prep y sa r1 ap by (auto simp: vs_apply_with_visibility_def)
      with a dur show ?thesis by blast
    next
      case r2: (Inr u2)
      obtain r3 fs3 where sy: "mw_sync w ''sync manifest edit'' fs2 = (r3, fs3)" by force
      show ?thesis
      proof (cases r3)
        case (Inl x)
        then obtain k where "fs_sync_all (mw_path w) fs2 = (Inl k, fs3)" using sy by (auto simp: mw_sync_def io_err_Err_iff)
        from sync_all_failed(1) [OF this] a have "crash_files fs3 = crash_files fs1" by (simp add: linked_iff)
        moreover have "r = Inl (during_manifest x)" "fs' = fs3" "vs' = vs\<lparr>vs_manifest := w, vs_manifest_usable := False\<rparr>"
          using Inl assms(4) prep y sa r1 ap r2 sy by (auto simp: vs_apply_with_visibility_def)
        ultimately show ?thesis using dur by blast
      next
        case (Inr u3)
        have st: "\<forall>m \<in> added_numbers e. crash_files fs1 (sstable_path ?d m) \<noteq> None" using assms(3) mono1 by blast
        note pub = publish_ok [OF ok1 assms(2) rep enc st ap [unfolded r2] sy [unfolded Inr]]
        have "r = Inr ()" "fs' = fs3" "vs' = vs\<lparr>vs_manifest := w, vs_current := rs_version s,
            vs_used_file_numbers := rs_used s, vs_counters := rs_counters s\<rparr>"
          using Inr assms(4) prep y sa r1 ap r2 sy by (auto simp: vs_apply_with_visibility_def)
        with pub mono1 show ?thesis by simp
      qed
    qed
  qed
qed

text \<open>A sequence of edits, each tried whatever became of the others; the acknowledged ones are kept.\<close>

fun vs_run :: "crc_lib \<Rightarrow> version_set \<Rightarrow> version_edit list \<Rightarrow> fs \<Rightarrow> version_edit list \<times> version_set \<times> fs" where
  "vs_run lib vs [] fs = ([], vs, fs)"
| "vs_run lib vs (e # es) fs =
    (let (r, vs, fs) = vs_apply lib vs e fs;
         (acknowledged, vs, fs) = vs_run lib vs es fs
     in (case r of Inl _ \<Rightarrow> acknowledged | Inr _ \<Rightarrow> e # acknowledged, vs, fs))"

lemma vs_run_unusable:
  assumes "\<not> vs_manifest_usable vs"
  shows "vs_run lib vs es fs = ([], vs, fs)"
  using assms
  by (induction es) (simp_all add: vs_apply_def vs_apply_with_visibility_def prepare_edit_def)

lemma vs_run_disk:
  assumes "vs_ok lib vs fs edits" "vs_run lib vs es fs = (acknowledged, vs', fs')"
    and "\<forall>e \<in> set es. edit_ok e \<and> (\<forall>m \<in> added_numbers e. crash_files fs (sstable_path (vs_directory vs) m) \<noteq> None)"
  shows "disk_ok lib (vs_directory vs) (vs_manifest_number vs) (edits @ acknowledged) (vs_state vs') fs'"
  using assms
proof (induction es arbitrary: vs fs edits acknowledged)
  case Nil
  then show ?case using vs_ok_disk by auto
next
  case (Cons e es)
  obtain r vs1 fs1 where ap: "vs_apply_with_visibility lib vs e fs = (r, vs1, fs1)" by (metis prod_cases3)
  obtain ack vs2 fs2 where run: "vs_run lib vs1 es fs1 = (ack, vs2, fs2)" by (metis prod_cases3)
  have e: "edit_ok e" "\<forall>m \<in> added_numbers e. crash_files fs (sstable_path (vs_directory vs) m) \<noteq> None"
    using Cons.prems(3) by auto
  note st = vs_apply_step [OF Cons.prems(1) e ap]
  have res: "acknowledged = (case r of Inl _ \<Rightarrow> ack | Inr _ \<Rightarrow> e # ack)" "vs' = vs2" "fs' = fs2"
    using Cons.prems(2) ap run by (auto simp: vs_apply_def split: sum.splits)
  have es: "\<forall>e \<in> set es. edit_ok e \<and> (\<forall>m \<in> added_numbers e. crash_files fs1 (sstable_path (vs_directory vs1) m) \<noteq> None)"
    using Cons.prems(3) st by auto
  show ?case
  proof (cases r)
    case (Inl x)
    show ?thesis
    proof (cases "vae_edit_may_be_visible x")
      case True
      with st Inl run vs_run_unusable [of vs1 lib es fs1] res show ?thesis by auto
    next
      case False
      with st Inl Cons.IH [OF _ run [folded res(2,3)] es, of edits] res show ?thesis by auto
    qed
  next
    case (Inr u)
    with st Cons.IH [OF _ run [folded res(2,3)] es, of "edits @ [e]"] res show ?thesis by auto
  qed
qed

section \<open>Progress\<close>

text \<open>With no failure pending, an edit that passes its checks is installed.\<close>

lemma sync_file_progress:
  assumes "fs_fail_at s = None" "os_files s p \<noteq> None"
  shows "\<exists>s'. fs_sync_file p s = (Inr (), s') \<and> fs_fail_at s' = None \<and> os_files s' = os_files s"
proof -
  obtain s1 where o: "observe SyncFile p (snd (seed_existing_file p s)) = (Inr (), s1)"
    "os_files s1 = os_files s" "fs_fail_at s1 = None"
    using observe_settled [of "snd (seed_existing_file p s)" SyncFile p] assms(1) by auto
  then show ?thesis
    using assms(2)
    by (auto simp: fs_sync_file_def record_truncate_def record_file_sync_def case_prod_beta Let_def
        split: option.splits)
qed

lemma sync_added_progress:
  assumes "fs_fail_at s = None" "\<forall>a \<in> set as. os_files s (sstable_path directory (fm_number (snd a))) \<noteq> None"
  shows "\<exists>s'. sync_added_files directory as s = (Inr (), s') \<and> fs_fail_at s' = None \<and> os_files s' = os_files s"
  using assms
proof (induction as arbitrary: s)
  case (Cons a as)
  obtain l f where a: "a = (l, f)" by (cases a)
  from sync_file_progress [OF Cons.prems(1), of "sstable_path directory (fm_number f)"] Cons.prems(2) obtain s1 where
    "fs_sync_file (sstable_path directory (fm_number f)) s = (Inr (), s1)" "fs_fail_at s1 = None"
    "os_files s1 = os_files s" by (auto simp: a)
  with Cons.IH [of s1] Cons.prems(2) show ?case by (auto simp: a fbind_def io_err_def Let_def)
qed simp

lemma write_all_progress:
  assumes "fs_write_all p bs s = (r, s')" "fs_fail_at s = None"
  shows "r = Inr ()" and "fs_fail_at s' = None"
  using assms observe_settled [of s WriteOp p]
  by (auto simp: fs_write_all_def record_write_def Let_def split: option.splits)

lemma mw_append_progress:
  assumes "fs_fail_at s = None"
  shows "\<exists>w' s'. mw_append lib w logical s = (Inr (), w', s') \<and> fs_fail_at s' = None"
proof -
  let ?p = "mw_path w"
  obtain r off s' where loop: "write_record_loop lib (fs_write_all ?p) (Io ''pad manifest block'' ?p)
    (Io ''append manifest edit'' ?p) logical 0 True (mw_block_offset w) s = (r, off, s')" by (metis prod_cases3)
  have "write_ends (fs_write_all ?p) (\<lambda>x. fs_fail_at x = None) (\<lambda>_. False)"
    using write_all_progress by (fastforce simp: write_ends_def)
  from write_record_loop_ends [OF this assms loop] loop show ?thesis
    by (cases r) (auto simp: mw_append_def)
qed

lemma mw_sync_progress:
  assumes "fs_fail_at s = None"
  shows "\<exists>s'. mw_sync w op s = (Inr (), s') \<and> fs_fail_at s' = None"
  using observe_settled [OF assms, of FileSync "mw_path w"]
  by (auto simp: mw_sync_def io_err_def fs_sync_all_def record_file_sync_def Let_def split: option.splits)

lemma vs_apply_progress:
  assumes "fs_fail_at fs = None" "prepare_edit vs e = Ok (s, enc)"
    and "\<forall>m \<in> added_numbers e. os_files fs (sstable_path (vs_directory vs) m) \<noteq> None"
  shows "\<exists>vs' fs'. vs_apply_with_visibility lib vs e fs = (Inr (), vs', fs') \<and> vs_state vs' = s \<and>
    fs_fail_at fs' = None"
proof -
  have "\<forall>a \<in> set (ve_added_files e). os_files fs (sstable_path (vs_directory vs) (fm_number (snd a))) \<noteq> None"
    using assms(3) by (auto simp: file_numbers_def)
  from sync_added_progress [OF assms(1) this] obtain fs1 where
    f1: "sync_added_files (vs_directory vs) (ve_added_files e) fs = (Inr (), fs1)" "fs_fail_at fs1 = None" by blast
  from mw_append_progress [OF f1(2)] obtain w fs2 where
    f2: "mw_append lib (vs_manifest vs) enc fs1 = (Inr (), w, fs2)" "fs_fail_at fs2 = None" by blast
  from mw_sync_progress [OF f2(2)] obtain fs3 where
    f3: "mw_sync w ''sync manifest edit'' fs2 = (Inr (), fs3)" "fs_fail_at fs3 = None" by blast
  from f1 f2 f3 assms(2) vs_state_publish show ?thesis
    by (simp add: vs_apply_with_visibility_def)
qed

section \<open>Properties\<close>

text \<open>
  C1. Whatever happens to a sequence of edits, and whichever filesystem operation fails, a crash
  followed by recovery succeeds and restores exactly the edits that were acknowledged: the live
  files, the counters and the allocated numbers the process last published.  The SSTables an edit
  adds must have been given names that survive a crash, as the callers of \<open>apply\<close> ensure by
  synchronizing the directory.
\<close>

theorem manifest_crash_recovery:
  assumes "vs_ok lib vs fs edits" "vs_run lib vs es fs = (acknowledged, vs1, fs1)"
    and "\<forall>e \<in> set es. edit_ok e \<and> (\<forall>m \<in> added_numbers e. crash_files fs (sstable_path (vs_directory vs) m) \<noteq> None)"
  shows "\<exists>vs2 fs2. vs_recover lib (Ok ()) (vs_directory vs) (fs_restart fs1) = (Ok vs2, fs2) \<and>
    vs_state vs2 = vs_state vs1 \<and> vs_ok lib vs2 fs2 (edits @ acknowledged)"
  using disk_ok_recover [OF vs_run_disk [OF assms]] by blast

text \<open>
  C6. A manifest whose last append was cut short at any byte, inside a header, a fragment or the
  padding of a block, is recovered to the state of its complete edits, and the repaired manifest is
  again one that further edits extend.
\<close>

theorem manifest_torn_recovery:
  assumes "db_files directory n edits s files" "list_all2 edit_record edits encs"
    and "frame_log lib 0 encs = (log, off)" "r \<noteq> []" "length r \<le> MAX_EDIT_BYTES"
    and "k < length (fst (frame_record lib off True r))"
    and "files (manifest_path directory n) = Some (log @ take k (fst (frame_record lib off True r)))"
  shows "\<exists>vs fs. vs_recover lib (Ok ()) directory (fs_recording files) = (Ok vs, fs) \<and>
    vs_state vs = s \<and> vs_ok lib vs fs edits"
proof -
  have "os_files (fs_recording files) = files" by (simp add: fs_recording_def)
  moreover have "torn_bytes lib encs (log @ take k (fst (frame_record lib off True r)))"
    using assms(3-6) by (auto simp: torn_bytes_def)
  ultimately show ?thesis
    using vs_recover_ok [OF settled_recording, of directory n edits s files encs lib
        "log @ take k (fst (frame_record lib off True r))"] assms(1,2,7) by auto
qed

section \<open>Witnesses\<close>

definition sample_crc :: crc_lib where
  "sample_crc = \<lparr>crc32c = (\<lambda>bs. of_nat (length bs)), crc32c_append = (\<lambda>c bs. c + of_nat (length bs))\<rparr>"

text \<open>A database directory with one edit, whose manifest ends in three bytes of a torn append.\<close>

definition sample_files :: "path \<Rightarrow> bytes option" where
  "sample_files = Map.empty
    ([''db'', ''CURRENT''] \<mapsto> current_bytes 1,
     [''db'', manifest_name 1] \<mapsto> fst (frame_log sample_crc 0 [edit_bytes initial_edit]) @
       take 3 (fst (frame_record sample_crc (snd (frame_log sample_crc 0 [edit_bytes initial_edit])) True [0])))"

lemma initial_record: "list_all2 edit_record [initial_edit] [edit_bytes initial_edit]"
  using encode_edit_record [OF initial_edit_ok(2,1)] by simp

lemma sample_db: "db_files [''db''] 1 [initial_edit] initial_state sample_files"
  by (simp add: db_files_def sample_files_def rebuild_initial)
    (simp add: initial_state_def live_numbers_def version_empty_def)

lemma frame_nonempty: "3 < length (fst (frame_record lib off True [0]))"
  by (simp add: frame_record_Cons [OF _ refl] HEADER_BYTES_def)

theorem manifest_torn_recovery_witness:
  "\<exists>vs fs. vs_recover sample_crc (Ok ()) [''db''] (fs_recording sample_files) = (Ok vs, fs) \<and>
    vs_state vs = initial_state \<and> vs_ok sample_crc vs fs [initial_edit]"
  by (rule manifest_torn_recovery [OF sample_db initial_record prod.collapse [symmetric], of "[0]" 3])
    (simp_all add: frame_nonempty sample_files_def MAX_EDIT_BYTES_def)

lemma sample_open:
  "\<exists>vs fs. vs_ok sample_crc vs fs [initial_edit] \<and> vs_state vs = initial_state \<and> vs_directory vs = [''db''] \<and>
    fs_fail_at fs = None"
proof -
  define c where "c = the (sample_files [''db'', manifest_name 1])"
  have os: "os_files (fs_recording sample_files) = sample_files" by (simp add: fs_recording_def)
  have c: "sample_files ([''db''] @ [manifest_name 1]) = Some c" by (simp add: c_def sample_files_def)
  have "torn_bytes sample_crc [edit_bytes initial_edit] c"
    unfolding torn_bytes_def c_def
    by (intro exI [of _ "[0]"] exI [of _ 3]) (simp add: sample_files_def frame_nonempty MAX_EDIT_BYTES_def)
  from vs_recover_ok [OF settled_recording [of sample_files], unfolded os, OF sample_db initial_record this c]
  show ?thesis by (auto simp: settled_def)
qed

definition sample_edit :: version_edit where
  "sample_edit = set_next_file_number 5 ve_new"

lemma sample_edit_fits: "edit_ok sample_edit" "added_numbers sample_edit = {}" "encode_edit sample_edit = Ok (edit_bytes sample_edit)"
  by (simp_all add: edit_ok_def sample_edit_def edit_setters file_numbers_def encode_edit_iff edit_fits_def levels_fit_def
      edit_bytes_def files_bytes_def log_bytes_def MAX_EDIT_BYTES_def)

lemma sample_edit_replay:
  "replay_edit False sample_edit initial_state =
    Ok (initial_state\<lparr>rs_counters := (rs_counters initial_state)\<lparr>ct_next_file_number := 5\<rparr>\<rparr>)"
  using version_apply_nothing [of sample_edit]
  by (simp add: replay_edit_def sample_edit_def edit_setters update_counters_def advance_def
      validate_file_numbers_def file_numbers_def initial_state_def word_le_nat_alt word_less_nat_alt)

text \<open>The edit is acknowledged, and the version set recovered after a crash has its counter.\<close>

theorem manifest_crash_recovery_witness:
  "\<exists>vs fs vs1 fs1 vs2 fs2. vs_ok sample_crc vs fs [initial_edit] \<and>
    vs_run sample_crc vs [sample_edit] fs = ([sample_edit], vs1, fs1) \<and>
    vs_recover sample_crc (Ok ()) [''db''] (fs_restart fs1) = (Ok vs2, fs2) \<and>
    ct_next_file_number (vs_counters vs2) = 5"
proof -
  from sample_open obtain vs fs where vs: "vs_ok sample_crc vs fs [initial_edit]" "vs_state vs = initial_state"
    "vs_directory vs = [''db'']" "fs_fail_at fs = None" by blast
  have "vs_manifest_usable vs" using vs(1) by (simp add: vs_ok_def Let_def)
  then have "prepare_edit vs sample_edit =
    Ok (initial_state\<lparr>rs_counters := (rs_counters initial_state)\<lparr>ct_next_file_number := 5\<rparr>\<rparr>, edit_bytes sample_edit)"
    using vs(2) sample_edit_replay by (simp add: prepare_edit_def sample_edit_fits vs_state_def)
  from vs_apply_progress [OF vs(4) this, of sample_crc] obtain vs1 fs1 where
    "vs_apply_with_visibility sample_crc vs sample_edit fs = (Inr (), vs1, fs1)"
    and st: "vs_state vs1 = initial_state\<lparr>rs_counters := (rs_counters initial_state)\<lparr>ct_next_file_number := 5\<rparr>\<rparr>"
    by (auto simp: sample_edit_fits)
  then have run: "vs_run sample_crc vs [sample_edit] fs = ([sample_edit], vs1, fs1)"
    by (simp add: vs_apply_def)
  from manifest_crash_recovery [OF vs(1) run] obtain vs2 fs2 where
    "vs_recover sample_crc (Ok ()) [''db''] (fs_restart fs1) = (Ok vs2, fs2)" "vs_state vs2 = vs_state vs1"
    using sample_edit_fits vs(3) by auto
  moreover from this(2) st have "ct_next_file_number (rs_counters (vs_state vs2)) = 5" by simp
  then have "ct_next_file_number (vs_counters vs2) = 5" by (simp add: vs_state_def)
  ultimately show ?thesis using vs(1) run by blast
qed

end
