(* ===== verification/Bootstrap.thy ===== *)
theory Bootstrap
  imports Manifest_Recovery
begin

text \<open>
  Creation of a database: what each filesystem operation of \<open>create_with_fs\<close> leaves for a
  crash, and that a creation cut short anywhere is completed by opening the directory again.
\<close>

section \<open>What a directory synchronization would leave\<close>

fun stable_bytes :: "bytes option \<Rightarrow> bytes option \<Rightarrow> bytes" where
  "stable_bytes (Some c) durable = c"
| "stable_bytes None (Some c) = c"
| "stable_bytes None None = []"

definition dir_files :: "fs \<Rightarrow> path \<Rightarrow> bytes option" where
  "dir_files s p =
    (if is_tracked s p then
       (if os_files s p = None then None
        else Some (stable_bytes (ci_synced (fs_image s) p) (ci_durable (fs_image s) p)))
     else os_files s p)"

lemma dir_files_seed: "fs_mirror s \<Longrightarrow> dir_files (snd (seed_existing_file p s)) = dir_files s"
  by (auto simp: dir_files_def is_tracked_def seed_existing_file_def seed_durable_file_def Let_def fun_eq_iff
      split: option.splits)

lemma dir_files_observe: "observe op p s = (Inr u, s') \<Longrightarrow> dir_files s' = dir_files s"
proof -
  assume "observe op p s = (Inr u, s')"
  then have eq: "os_files s' = os_files s" "fs_image s' = fs_image s" using observe_Inr by blast+
  show ?thesis by (rule ext) (simp only: dir_files_def is_tracked_def eq)
qed

text \<open>Failed operations leave what a crash would leave.\<close>

lemma create_file:
  assumes "fs_create p s = (r, s')" "fs_mirror s"
  shows "fs_mirror s'" and "crash_files s' = crash_files s"
    and "r = Inr h \<Longrightarrow> h = p \<and> os_files s p = None \<and> os_files s' = (os_files s)(p \<mapsto> []) \<and> is_tracked s' p \<and>
      (\<forall>q. q \<noteq> p \<longrightarrow> dir_files s' q = dir_files s q)"
    and "fs_fail_at s' = fs_fail_at s" and "os_files s p = None \<Longrightarrow> r = Inr p"
proof -
  show "fs_mirror s'" using assms fs_mirror_create by blast
  have n: "os_files s p = None \<Longrightarrow> p \<notin> ci_tracked (fs_image s) \<Longrightarrow> ci_durable (fs_image s) p = None"
    using assms(2) by (simp add: fs_mirror_def)
  show "crash_files s' = crash_files s"
    using assms(1) n by (auto simp: fs_create_def track_new_file_def crash_simps fun_eq_iff split: if_splits)
  show "r = Inr h \<Longrightarrow> h = p \<and> os_files s p = None \<and> os_files s' = (os_files s)(p \<mapsto> []) \<and> is_tracked s' p \<and>
      (\<forall>q. q \<noteq> p \<longrightarrow> dir_files s' q = dir_files s q)"
    using assms(1) by (auto simp: fs_create_def track_new_file_def dir_files_def is_tracked_def Let_def split: if_splits)
  show "fs_fail_at s' = fs_fail_at s"
    using assms(1) by (auto simp: fs_create_def track_new_file_def Let_def split: if_splits)
  show "os_files s p = None \<Longrightarrow> r = Inr p" using assms(1) by (auto simp: fs_create_def)
qed

lemma write_file:
  assumes "fs_write_all p bs s = (r, s')" "fs_mirror s" "is_tracked s p" "os_files s p = Some c"
  shows "fs_mirror s'" and "crash_files s' = crash_files s" and "is_tracked s' p"
    and "r = Inr u \<Longrightarrow> os_files s' = (os_files s)(p \<mapsto> c @ bs) \<and> dir_files s' = dir_files s"
    and "fs_fail_at s' = fs_fail_at s" and "fs_fail_at s = None \<Longrightarrow> r = Inr ()"
proof -
  obtain r1 s1 where o: "observe WriteOp p s = (r1, s1)" by force
  note w = write_all_crash [OF assms(1,3)]
  show "fs_mirror s'" using w(3) assms(2,4) by (simp add: fs_entry_exists_def)
  show "crash_files s' = crash_files s" "is_tracked s' p" using w by simp_all
  have d: "r1 = Inr () \<Longrightarrow> os_files s1 = os_files s \<and> fs_image s1 = fs_image s"
    using observe_Inr [of WriteOp p s "()" s1] o by auto
  show "r = Inr u \<Longrightarrow> os_files s' = (os_files s)(p \<mapsto> c @ bs) \<and> dir_files s' = dir_files s"
    using assms(1,3,4) o d by (cases r1)
      (auto simp: fs_write_all_def record_write_def dir_files_def is_tracked_def Let_def fun_eq_iff split: if_splits)
  show "fs_fail_at s' = fs_fail_at s"
    using assms(1) o observe_fail_at [OF o]
    by (auto simp: fs_write_all_def record_write_def Let_def split: sum.splits option.splits)
  show "fs_fail_at s = None \<Longrightarrow> r = Inr ()"
    using assms(1) observe_settled [of s WriteOp p] by (auto simp: fs_write_all_def)
qed

lemma sync_file_all:
  assumes "fs_sync_all p s = (r, s')" "fs_mirror s" "is_tracked s p" "os_files s p = Some c"
  shows "fs_mirror s'" and "q \<noteq> p \<Longrightarrow> crash_files s' q = crash_files s q"
    and "r = Inr u \<Longrightarrow> os_files s' = os_files s \<and> is_tracked s' p \<and> ci_synced (fs_image s') p = Some c \<and>
      (\<forall>q. q \<noteq> p \<longrightarrow> dir_files s' q = dir_files s q)"
    and "fs_fail_at s' = fs_fail_at s" and "fs_fail_at s = None \<Longrightarrow> r = Inr ()"
proof -
  obtain r1 s1 where o: "observe FileSync p s = (r1, s1)" by force
  show "fs_mirror s'" using assms fs_mirror_sync by blast
  show "q \<noteq> p \<Longrightarrow> crash_files s' q = crash_files s q"
    using assms sync_all_crash(1) [of p s _ s'] sync_all_failed(1) [of p s _ s'] by (cases r) auto
  have "ci_volatile (fs_image s) p = Some c" using assms(2-4) by (simp add: fs_mirror_def is_tracked_def)
  with observe_Inr [of FileSync p s "()" s1] o
  have d: "r1 = Inr () \<Longrightarrow> ci_volatile (fs_image s) p = Some c \<and> os_files s1 = os_files s \<and> fs_image s1 = fs_image s"
    by auto
  show "r = Inr u \<Longrightarrow> os_files s' = os_files s \<and> is_tracked s' p \<and> ci_synced (fs_image s') p = Some c \<and>
      (\<forall>q. q \<noteq> p \<longrightarrow> dir_files s' q = dir_files s q)"
    using assms(1,3,4) o d by (cases r1)
      (auto simp: fs_sync_all_def record_file_sync_def dir_files_def is_tracked_def Let_def fun_eq_iff)
  show "fs_fail_at s' = fs_fail_at s"
    using assms(1) o observe_fail_at [OF o]
    by (auto simp: fs_sync_all_def record_file_sync_def Let_def split: sum.splits option.splits)
  show "fs_fail_at s = None \<Longrightarrow> r = Inr ()"
    using assms(1) observe_settled [of s FileSync p] by (auto simp: fs_sync_all_def)
qed

lemma install_file:
  assumes "fs_atomic_install a b s = (r, s')" "fs_mirror s" "is_tracked s a" "os_files s a = Some c"
    and "ci_synced (fs_image s) a = Some c" "a \<noteq> b"
  shows "fs_mirror s'" and "crash_files s' = crash_files s"
    and "r = Inr u \<Longrightarrow> os_files s' = (os_files s)(a := None, b \<mapsto> c) \<and> dir_files s' b = Some c \<and>
      (\<forall>q. q \<noteq> a \<longrightarrow> q \<noteq> b \<longrightarrow> dir_files s' q = dir_files s q)"
    and "fs_fail_at s' = fs_fail_at s" and "fs_fail_at s = None \<Longrightarrow> os_files s b = None \<Longrightarrow> r = Inr ()"
proof -
  let ?s1 = "snd (seed_existing_file a s)"
  let ?s0 = "snd (seed_existing_file b ?s1)"
  obtain r1 s1 where o: "observe AtomicInstall b ?s0 = (r1, s1)" by force
  note m1 = fs_mirror_seed [OF assms(2), of a]
  have i: "?s1 = s" using assms(3) by (auto simp: seed_existing_file_def split: option.splits)
  have c0: "crash_files s1 = crash_files s"
    using crash_files_observe [OF o] crash_files_seed [OF m1, of b] crash_files_seed [OF assms(2), of a] by simp
  show "fs_mirror s'" using assms fs_mirror_install by blast
  have same: "ci_synced (fs_image ?s0) a = Some c"
    unfolding i using assms(4-6) by (auto simp: seed_existing_file_def seed_durable_file_def Let_def split: option.splits)
  have d: "r1 = Inr () \<Longrightarrow> os_files s1 = os_files s \<and> dir_files s1 = dir_files s \<and> is_tracked s1 a \<and>
      ci_synced (fs_image s1) a = Some c"
    using observe_Inr [of AtomicInstall b ?s0 "()" s1] o same dir_files_observe [of AtomicInstall b ?s0 "()" s1]
      dir_files_seed [OF m1, of b] assms(3) seed_existing_tracked_mono [of a "s" b]
    by (auto simp: is_tracked_def i)
  have nt: "r1 = Inr () \<Longrightarrow> os_files s1 b = None \<Longrightarrow> crash_files s1 b = ci_durable (fs_image s1) b"
    using fs_mirror_observe [OF fs_mirror_seed [OF m1] o] by (auto simp: crash_files_eq)
  have run: "r = (case r1 of Inl e \<Rightarrow> Inl e | Inr _ \<Rightarrow> if os_files s b \<noteq> None then Inl AlreadyExists else Inr ())"
    "s' = (case r1 of Inl _ \<Rightarrow> s1 | Inr _ \<Rightarrow> if os_files s b \<noteq> None then s1
      else record_rename a b (s1\<lparr>os_files := move_entry a b (os_files s1)\<rparr>))"
    using assms(1,4) o d by (auto simp: fs_atomic_install_def case_prod_beta split: sum.splits if_splits)
  show "crash_files s' = crash_files s"
    unfolding c0 [symmetric] run using d nt assms(4)
    by (auto simp: record_rename_def move_entry_def crash_simps fun_eq_iff split: sum.splits)
  show "r = Inr u \<Longrightarrow> os_files s' = (os_files s)(a := None, b \<mapsto> c) \<and> dir_files s' b = Some c \<and>
      (\<forall>q. q \<noteq> a \<longrightarrow> q \<noteq> b \<longrightarrow> dir_files s' q = dir_files s q)"
  proof -
    assume "r = Inr u"
    then have r1: "r1 = Inr ()" "os_files s b = None" and s': "s' = record_rename a b (s1\<lparr>os_files := move_entry a b (os_files s1)\<rparr>)"
      using run by (auto split: sum.splits if_splits)
    have "dir_files s' q = dir_files s1 q" if "q \<noteq> a" "q \<noteq> b" for q
      using that by (auto simp: s' record_rename_def move_entry_def dir_files_def is_tracked_def Let_def split: option.splits)
    with r1 d s' assms(4,6) show ?thesis
      by (auto simp: record_rename_def move_entry_def dir_files_def is_tracked_def Let_def)
  qed
  show "fs_fail_at s' = fs_fail_at s"
    using run observe_fail_at [OF o] by (auto simp: record_rename_def Let_def split: sum.splits if_splits)
  show "fs_fail_at s = None \<Longrightarrow> os_files s b = None \<Longrightarrow> r = Inr ()"
    using run observe_settled [of ?s0 AtomicInstall b] o by (auto split: sum.splits)
qed

lemma sync_dir:
  assumes "fs_sync_directory d s = (r, s')" "fs_mirror s"
  shows "fs_mirror s'" and "r = Inl e \<Longrightarrow> crash_files s' = crash_files s"
    and "r = Inr u \<Longrightarrow> os_files s' = os_files s \<and> dir_files s' = dir_files s \<and>
      (\<forall>n. crash_files s' (d @ [n]) = dir_files s (d @ [n])) \<and>
      (\<forall>q. (\<forall>n. q \<noteq> d @ [n]) \<longrightarrow> crash_files s' q = crash_files s q)"
    and "fs_fail_at s' = fs_fail_at s" and "fs_fail_at s = None \<Longrightarrow> r = Inr ()"
proof -
  obtain r1 s1 where o: "observe DirectorySync d s = (r1, s1)" by force
  show "fs_mirror s'" using assms fs_mirror_sync_directory by blast
  have run: "r = r1" "s' = (case r1 of Inl _ \<Rightarrow> s1 | Inr _ \<Rightarrow> record_directory_sync d s1)"
    using assms(1) o by (auto simp: fs_sync_directory_def split: sum.splits)
  then show "r = Inl e \<Longrightarrow> crash_files s' = crash_files s" using crash_files_observe [OF o] by simp
  show "fs_fail_at s' = fs_fail_at s"
    using run observe_fail_at [OF o] by (auto simp: record_directory_sync_def Let_def split: sum.splits)
  show "fs_fail_at s = None \<Longrightarrow> r = Inr ()" using run observe_settled [of s DirectorySync d] o by auto
  show "r = Inr u \<Longrightarrow> os_files s' = os_files s \<and> dir_files s' = dir_files s \<and>
      (\<forall>n. crash_files s' (d @ [n]) = dir_files s (d @ [n])) \<and>
      (\<forall>q. (\<forall>n. q \<noteq> d @ [n]) \<longrightarrow> crash_files s' q = crash_files s q)"
  proof -
    assume "r = Inr u"
    then have r1: "r1 = Inr ()" and s': "s' = record_directory_sync d s1" using run by auto
    note oo = observe_Inr [OF o [unfolded r1]]
    have m: "\<And>p. is_tracked s1 p \<Longrightarrow> os_files s1 p = ci_volatile (fs_image s1) p"
      "\<And>p. \<not> is_tracked s1 p \<Longrightarrow> ci_durable (fs_image s1) p = None"
      using fs_mirror_observe [OF assms(2) o] by (auto simp: fs_mirror_def is_tracked_def)
    have sb: "(case sy of Some bs \<Rightarrow> bs | None \<Rightarrow> (case du of Some bs \<Rightarrow> bs | None \<Rightarrow> [])) = stable_bytes sy du" for sy du
      by (cases sy; cases du) simp_all
    have idem: "stable_bytes sy (Some (stable_bytes sy du)) = stable_bytes sy du" for sy du
      by (cases sy; cases du) simp_all
    have os: "os_files s' = os_files s1" by (simp add: s' record_directory_sync_def Let_def)
    have "dir_files s' p = dir_files s1 p" for p
      using m [of p] by (auto simp: s' record_directory_sync_def dir_files_def is_tracked_def sb idem Let_def)
    then have df: "dir_files s' = dir_files s" using dir_files_observe [OF o [unfolded r1]] by auto
    have "crash_files s' (d @ [n]) = dir_files s1 (d @ [n])" for n
      using m [of "d @ [n]"]
      by (auto simp: s' record_directory_sync_def dir_files_def crash_simps path_parent_def sb)
    moreover have "crash_files s' q = crash_files s1 q" if "\<forall>n. q \<noteq> d @ [n]" for q
    proof -
      have "path_parent q \<noteq> Some d"
        using that [rule_format, of "last q"] append_butlast_last_id [of q] by (auto simp: path_parent_def)
      then show ?thesis by (simp add: s' record_directory_sync_def crash_simps)
    qed
    ultimately show ?thesis
      using df os oo dir_files_observe [OF o [unfolded r1]] crash_files_observe [OF o] by simp
  qed
qed

lemma remove_path:
  assumes "fs_remove_file p s = (r, s')" "fs_mirror s" "os_files s p \<noteq> None"
  shows "fs_mirror s'" and "crash_files s' = crash_files s"
    and "r = Inr u \<Longrightarrow> os_files s' = (os_files s)(p := None) \<and> (\<forall>q. q \<noteq> p \<longrightarrow> dir_files s' q = dir_files s q)"
    and "fs_fail_at s' = fs_fail_at s" and "fs_fail_at s = None \<Longrightarrow> r = Inr ()"
proof -
  let ?s0 = "snd (seed_existing_file p s)"
  obtain r1 s1 where o: "observe Remove p ?s0 = (r1, s1)" by force
  show "fs_mirror s'" using assms fs_mirror_remove by blast
  have t: "is_tracked s1 p" using observe_tracked [OF o, of p] seed_existing_tracked [of p s] assms(3) by (simp add: is_tracked_def)
  have d: "r1 = Inr () \<Longrightarrow> os_files s1 = os_files s \<and> dir_files s1 = dir_files s"
    using observe_Inr [of Remove p ?s0 "()" s1] o dir_files_observe [of Remove p ?s0 "()" s1] dir_files_seed [OF assms(2), of p]
    by auto
  have run: "r = r1" "s' = (case r1 of Inl _ \<Rightarrow> s1 | Inr _ \<Rightarrow> record_remove p (s1\<lparr>os_files := (os_files s1)(p := None)\<rparr>))"
    using assms(1,3) o d by (auto simp: fs_remove_file_def case_prod_beta split: sum.splits if_splits)
  have "crash_files s' = crash_files s1"
    using run t by (auto simp: record_remove_def crash_simps fun_eq_iff split: sum.splits)
  then show "crash_files s' = crash_files s"
    using crash_files_observe [OF o] crash_files_seed [OF assms(2), of p] by simp
  show "fs_fail_at s' = fs_fail_at s"
    using run observe_fail_at [OF o] by (auto simp: record_remove_def Let_def split: sum.splits)
  show "fs_fail_at s = None \<Longrightarrow> r = Inr ()" using run observe_settled [of ?s0 Remove p] o by auto
  show "r = Inr u \<Longrightarrow> os_files s' = (os_files s)(p := None) \<and> (\<forall>q. q \<noteq> p \<longrightarrow> dir_files s' q = dir_files s q)"
  proof -
    assume "r = Inr u"
    then have r1: "r1 = Inr ()" and s': "s' = record_remove p (s1\<lparr>os_files := (os_files s1)(p := None)\<rparr>)" using run by auto
    have "dir_files s' q = dir_files s1 q" if "q \<noteq> p" for q
      using that by (auto simp: s' record_remove_def dir_files_def is_tracked_def Let_def)
    with d [OF r1] s' show ?thesis by (simp add: record_remove_def Let_def)
  qed
qed

section \<open>Writing a file under a temporary name and installing it\<close>

definition temp_ready :: "path \<Rightarrow> bytes \<Rightarrow> fs \<Rightarrow> bool" where
  "temp_ready t c s \<longleftrightarrow> is_tracked s t \<and> os_files s t = Some c \<and> ci_synced (fs_image s) t = Some c"

lemma fbind_assoc: "fbind (fbind m f) g = fbind m (\<lambda>x. fbind (f x) g)"
  by (auto simp: fbind_def fun_eq_iff split: prod.splits sum.splits)

lemma fbind_flift_eq: "fbind (flift (Inr x)) f = f x"
  by (simp add: fun_eq_iff)

lemma remove_temporary:
  assumes "remove_temporary_if_present p s = (r, s')" "fs_mirror s"
  shows "fs_mirror s'" and "crash_files s' = crash_files s" and "fs_fail_at s' = fs_fail_at s"
    and "r = Inr u \<Longrightarrow> os_files s' = (os_files s)(p := None) \<and> (\<forall>q. q \<noteq> p \<longrightarrow> dir_files s' q = dir_files s q)"
    and "fs_fail_at s = None \<Longrightarrow> r = Inr ()"
proof -
  have *: "fs_mirror s' \<and> crash_files s' = crash_files s \<and> fs_fail_at s' = fs_fail_at s \<and>
    (r = Inr u \<longrightarrow> os_files s' = (os_files s)(p := None) \<and> (\<forall>q. q \<noteq> p \<longrightarrow> dir_files s' q = dir_files s q)) \<and>
    (fs_fail_at s = None \<longrightarrow> r = Inr ())" for u
  proof (cases "os_files s p = None")
    case True
    then have "r = Inr ()" "s' = s" using assms(1) by (auto simp: remove_temporary_if_present_def fs_entry_exists_def)
    with True assms(2) show ?thesis by (auto simp: fun_upd_idem)
  next
    case False
    then obtain r1 where rm: "fs_remove_file p s = (r1, s')"
      and r: "r = (case r1 of Inl k \<Rightarrow> Inl (Io ''remove temporary metadata file'' p k) | Inr x \<Rightarrow> Inr x)"
      using assms(1) by (auto simp: remove_temporary_if_present_def fs_entry_exists_def io_err_def split: prod.splits sum.splits)
    note p = remove_path [OF rm assms(2) False]
    from p(1,2,4) p(3) p(5) r show ?thesis by (auto split: sum.splits)
  qed
  from * show "fs_mirror s'" "crash_files s' = crash_files s" "fs_fail_at s' = fs_fail_at s"
    "r = Inr u \<Longrightarrow> os_files s' = (os_files s)(p := None) \<and> (\<forall>q. q \<noteq> p \<longrightarrow> dir_files s' q = dir_files s q)"
    "fs_fail_at s = None \<Longrightarrow> r = Inr ()" by blast+
qed

text \<open>
  What a step that leaves a finished temporary file achieves.  Nothing but the temporary file can
  differ after a crash, whether the step succeeds or not.
\<close>

definition writes_temp :: "path \<Rightarrow> bytes \<Rightarrow> 'a fs_m \<Rightarrow> bool" where
  "writes_temp t c m \<longleftrightarrow> (\<forall>s r s'. fs_mirror s \<longrightarrow> m s = (r, s') \<longrightarrow>
    fs_mirror s' \<and> fs_fail_at s' = fs_fail_at s \<and> (\<forall>q. q \<noteq> t \<longrightarrow> crash_files s' q = crash_files s q) \<and>
    (\<forall>x. r = Inr x \<longrightarrow> temp_ready t c s' \<and> os_files s' = (os_files s)(t \<mapsto> c) \<and>
      (\<forall>q. q \<noteq> t \<longrightarrow> dir_files s' q = dir_files s q)) \<and>
    (fs_fail_at s = None \<longrightarrow> os_files s t = None \<longrightarrow> (\<exists>x. r = Inr x)))"

text \<open>Synchronizing an open new file.\<close>

lemma sync_temp:
  assumes "io_err w (fs_sync_all t) s = (r, s')" "fs_mirror s" "is_tracked s t" "os_files s t = Some c"
  shows "fs_mirror s' \<and> fs_fail_at s' = fs_fail_at s \<and> (\<forall>q. q \<noteq> t \<longrightarrow> crash_files s' q = crash_files s q) \<and>
    (\<forall>x. r = Inr x \<longrightarrow> temp_ready t c s' \<and> os_files s' = os_files s \<and>
      (\<forall>q. q \<noteq> t \<longrightarrow> dir_files s' q = dir_files s q)) \<and> (fs_fail_at s = None \<longrightarrow> r = Inr ())"
proof -
  obtain r1 where sy: "fs_sync_all t s = (r1, s')" and r: "r = (case r1 of Inl k \<Rightarrow> Inl (w k) | Inr x \<Rightarrow> Inr x)"
    using assms(1) by (auto simp: io_err_def split: prod.splits sum.splits)
  note p = sync_file_all [OF sy assms(2-4)]
  from p(1,4) p(2) p(3) p(5) r assms(4) show ?thesis by (auto simp: temp_ready_def split: sum.splits)
qed

lemma writes_temp_current:
  "writes_temp t c (fbind (io_err e1 (fs_create t)) (\<lambda>h. fbind (io_err e2 (fs_write_all h c)) (\<lambda>_. io_err e3 (fs_sync_all h))))"
  unfolding writes_temp_def
proof (intro allI impI)
  fix s r s'
  assume m: "fs_mirror s"
    and run: "fbind (io_err e1 (fs_create t)) (\<lambda>h. fbind (io_err e2 (fs_write_all h c)) (\<lambda>_. io_err e3 (fs_sync_all h))) s = (r, s')"
  let ?goal = "fs_mirror s' \<and> fs_fail_at s' = fs_fail_at s \<and> (\<forall>q. q \<noteq> t \<longrightarrow> crash_files s' q = crash_files s q) \<and>
    (\<forall>x. r = Inr x \<longrightarrow> temp_ready t c s' \<and> os_files s' = (os_files s)(t \<mapsto> c) \<and>
      (\<forall>q. q \<noteq> t \<longrightarrow> dir_files s' q = dir_files s q)) \<and>
    (fs_fail_at s = None \<longrightarrow> os_files s t = None \<longrightarrow> (\<exists>x. r = Inr x))"
  from run show ?goal
  proof (cases rule: fbind_cases)
    case (fail e)
    then obtain k where "fs_create t s = (Inl k, s')" by (auto simp: io_err_Err_iff)
    from create_file [OF this m] fail(2) show ?thesis by auto
  next
    case (run h s1)
    then have c1: "fs_create t s = (Inr h, s1)" by (simp add: io_err_Ok_iff)
    note p1 = create_file [OF c1 m]
    have h: "h = t" "os_files s1 = (os_files s)(t \<mapsto> [])" "is_tracked s1 t" "\<forall>q. q \<noteq> t \<longrightarrow> dir_files s1 q = dir_files s q"
      using p1(3) by auto
    have os1: "os_files s1 t = Some []" using h(2) by simp
    from run(2) show ?thesis
    proof (cases rule: fbind_cases)
      case (fail e)
      then obtain k where "fs_write_all t c s1 = (Inl k, s')" using h(1) by (auto simp: io_err_Err_iff)
      from write_file [OF this p1(1) h(3) os1] p1 fail(2) show ?thesis by auto
    next
      case (run u s2)
      then have w: "fs_write_all t c s1 = (Inr u, s2)" using h(1) by (simp add: io_err_Ok_iff)
      note p2 = write_file [OF w p1(1) h(3) os1]
      have os2: "os_files s2 t = Some c" using p2(4) by simp
      from sync_temp [OF run(2) [unfolded h(1)] p2(1,3) os2] p2 p1(2,4) h(2,4) show ?thesis by auto
    qed
  qed
qed

lemma append_temp:
  assumes "mw_append lib (mw_new t 0) enc s = (r, w, s')" "fs_mirror s" "is_tracked s t" "os_files s t = Some []"
  shows "fs_mirror s' \<and> fs_fail_at s' = fs_fail_at s \<and> crash_files s' = crash_files s \<and>
    (\<forall>x. r = Inr x \<longrightarrow> is_tracked s' t \<and> dir_files s' = dir_files s \<and>
      os_files s' = (os_files s)(t \<mapsto> fst (frame_record lib 0 True enc))) \<and>
    (fs_fail_at s = None \<longrightarrow> r = Inr ())"
proof -
  let ?Q = "\<lambda>x. fs_mirror x \<and> fs_fail_at x = fs_fail_at s \<and> crash_files x = crash_files s"
  let ?P = "\<lambda>x. ?Q x \<and> is_tracked x t \<and> dir_files x = dir_files s \<and> (\<exists>c. os_files x = (os_files s)(t \<mapsto> c))"
  from assms(1) obtain off where loop: "write_record_loop lib (fs_write_all t) (Io ''pad manifest block'' t)
      (Io ''append manifest edit'' t) enc 0 True 0 s = (r, off, s')"
    by (auto simp: mw_append_def mw_new_def split: prod.splits)
  have step: "(\<forall>k. q = Inl k \<longrightarrow> ?Q y) \<and> (q = Inr () \<longrightarrow> ?P y \<and> fs_contents t y = fs_contents t x @ bs)"
    if px: "?P x" "fs_write_all t bs x = (q, y)" for bs x q y
  proof -
    from px(1) obtain c where c: "os_files x = (os_files s)(t \<mapsto> c)" by blast
    have "fs_mirror x" "is_tracked x t" "os_files x t = Some c" using px(1) c by auto
    note wf = write_file [OF px(2) this]
    from wf px(1) c show ?thesis by (auto simp: fs_contents_def)
  qed
  have "write_ends (fs_write_all t) ?P ?Q" unfolding write_ends_def using step by blast
  moreover have P: "?P s" using assms(2-4) by (auto intro!: exI [of _ "[]"] simp: fun_upd_idem)
  ultimately have ends: "case r of Inl _ \<Rightarrow> ?Q s' | Inr _ \<Rightarrow> ?P s'" using loop by (rule write_record_loop_ends)
  have app: "appends (fs_write_all t) (fs_contents t) ?P"
    unfolding appends_def
  proof (intro allI impI)
    fix bs x u y
    assume "?P x" "fs_write_all t bs x = (Inr u, y)"
    from step [OF this] show "fs_contents t y = fs_contents t x @ bs \<and> ?P y" by simp
  qed
  have contents_ok: "r = Inr u \<Longrightarrow> fs_contents t s' = fst (frame_record lib 0 True enc)" for u
    using write_record_loop_appends [where is_open = ?P, OF app P, of lib _ _ enc 0 True 0 u off s'] loop assms(4)
    by (simp add: fs_contents_def)
  have "fs_fail_at s = None \<Longrightarrow> r = Inr ()"
    using mw_append_progress [of s lib "mw_new t 0" enc] assms(1) by auto
  with ends contents_ok show ?thesis by (auto split: sum.splits simp: fs_contents_def)
qed

lemma writes_temp_manifest:
  "writes_temp t (fst (frame_record lib 0 True enc)) (write_initial_manifest lib t enc)"
  unfolding writes_temp_def
proof (intro allI impI)
  fix s r s'
  assume m: "fs_mirror s" and run: "write_initial_manifest lib t enc s = (r, s')"
  let ?c = "fst (frame_record lib 0 True enc)"
  let ?goal = "fs_mirror s' \<and> fs_fail_at s' = fs_fail_at s \<and> (\<forall>q. q \<noteq> t \<longrightarrow> crash_files s' q = crash_files s q) \<and>
    (\<forall>x. r = Inr x \<longrightarrow> temp_ready t ?c s' \<and> os_files s' = (os_files s)(t \<mapsto> ?c) \<and>
      (\<forall>q. q \<noteq> t \<longrightarrow> dir_files s' q = dir_files s q)) \<and>
    (fs_fail_at s = None \<longrightarrow> os_files s t = None \<longrightarrow> (\<exists>x. r = Inr x))"
  from run [unfolded write_initial_manifest_def] show ?goal
  proof (cases rule: fbind_cases)
    case (fail e)
    then obtain k where "fs_create t s = (Inl k, s')" by (auto simp: io_err_Err_iff)
    from create_file [OF this m] fail(2) show ?thesis by auto
  next
    case (run h s1)
    then have c1: "fs_create t s = (Inr h, s1)" by (simp add: io_err_Ok_iff)
    note p1 = create_file [OF c1 m]
    have h: "h = t" "os_files s1 = (os_files s)(t \<mapsto> [])" "is_tracked s1 t" "\<forall>q. q \<noteq> t \<longrightarrow> dir_files s1 q = dir_files s q"
      using p1(3) by auto
    have os1: "os_files s1 t = Some []" using h(2) by simp
    obtain r2 w s2 where ap: "mw_append lib (mw_new t 0) enc s1 = (r2, w, s2)" by (metis prod_cases3)
    note p2 = append_temp [OF ap p1(1) h(3) os1]
    from run(2) show ?thesis
    proof (cases rule: fbind_cases)
      case (fail e)
      then have "s' = s2" "r2 = Inl e" using ap h(1) by auto
      with p2 p1(2,4) fail(2) show ?thesis by auto
    next
      case (run u s3)
      then have s3: "s3 = s2" "r2 = Inr ()" using ap h(1) by auto
      have p2': "fs_mirror s2" "is_tracked s2 t" "os_files s2 t = Some ?c" using p2 s3 by auto
      have "io_err (Io ''sync new manifest'' t) (fs_sync_all t) s2 = (r, s')"
        using run(2) s3 h(1) by (simp add: mw_sync_def mw_new_def)
      from sync_temp [OF this p2'] p2 s3 p1(2,4) h(2,4) show ?thesis by auto
    qed
  qed
qed

text \<open>
  A file written under a temporary name \<open>nt\<close>, installed as \<open>nb\<close> and made stable by a
  synchronization of the directory.
\<close>

definition publishes :: "path \<Rightarrow> string \<Rightarrow> string \<Rightarrow> bytes \<Rightarrow> 'a fs_m \<Rightarrow> bool" where
  "publishes d nt nb c m \<longleftrightarrow> (\<forall>s r s'. fs_mirror s \<longrightarrow> m s = (r, s') \<longrightarrow>
    fs_mirror s' \<and> fs_fail_at s' = fs_fail_at s \<and>
    (\<forall>e. r = Inl e \<longrightarrow> (\<forall>q. q \<noteq> d @ [nt] \<longrightarrow> crash_files s' q = crash_files s q)) \<and>
    (\<forall>x. r = Inr x \<longrightarrow> os_files s' = (os_files s)(d @ [nt] := None, d @ [nb] \<mapsto> c) \<and> dir_files s' (d @ [nb]) = Some c \<and>
      (\<forall>q. q \<noteq> d @ [nt] \<longrightarrow> q \<noteq> d @ [nb] \<longrightarrow> dir_files s' q = dir_files s q) \<and>
      (\<forall>n. crash_files s' (d @ [n]) = dir_files s' (d @ [n])) \<and>
      (\<forall>q. (\<forall>n. q \<noteq> d @ [n]) \<longrightarrow> crash_files s' q = crash_files s q)) \<and>
    (fs_fail_at s = None \<longrightarrow> os_files s (d @ [nt]) = None \<longrightarrow> os_files s (d @ [nb]) = None \<longrightarrow> (\<exists>x. r = Inr x)))"

lemma publishes_temp:
  assumes w: "writes_temp (d @ [nt]) c m" and n: "nt \<noteq> nb"
  shows "publishes d nt nb c (fbind m (\<lambda>_. fbind (io_err e1 (fs_atomic_install (d @ [nt]) (d @ [nb])))
    (\<lambda>_. io_err e2 (fs_sync_directory d))))"
  unfolding publishes_def
proof (intro allI impI)
  fix s r s'
  let ?t = "d @ [nt]" and ?b = "d @ [nb]"
  assume m: "fs_mirror s" and run: "fbind m (\<lambda>_. fbind (io_err e1 (fs_atomic_install ?t ?b))
    (\<lambda>_. io_err e2 (fs_sync_directory d))) s = (r, s')"
  let ?goal = "fs_mirror s' \<and> fs_fail_at s' = fs_fail_at s \<and>
    (\<forall>e. r = Inl e \<longrightarrow> (\<forall>q. q \<noteq> ?t \<longrightarrow> crash_files s' q = crash_files s q)) \<and>
    (\<forall>x. r = Inr x \<longrightarrow> os_files s' = (os_files s)(?t := None, ?b \<mapsto> c) \<and> dir_files s' ?b = Some c \<and>
      (\<forall>q. q \<noteq> ?t \<longrightarrow> q \<noteq> ?b \<longrightarrow> dir_files s' q = dir_files s q) \<and>
      (\<forall>n. crash_files s' (d @ [n]) = dir_files s' (d @ [n])) \<and>
      (\<forall>q. (\<forall>n. q \<noteq> d @ [n]) \<longrightarrow> crash_files s' q = crash_files s q)) \<and>
    (fs_fail_at s = None \<longrightarrow> os_files s ?t = None \<longrightarrow> os_files s ?b = None \<longrightarrow> (\<exists>x. r = Inr x))"
  from run show ?goal
  proof (cases rule: fbind_cases)
    case (fail e)
    from w [unfolded writes_temp_def, rule_format, OF m fail(1)] fail(2) show ?thesis by auto
  next
    case (run x s1)
    note p1 = w [unfolded writes_temp_def, rule_format, OF m run(1)]
    have t: "is_tracked s1 ?t" "os_files s1 ?t = Some c" "ci_synced (fs_image s1) ?t = Some c" "fs_mirror s1"
      using p1 by (auto simp: temp_ready_def)
    have tb: "?t \<noteq> ?b" using n by simp
    from run(2) show ?thesis
    proof (cases rule: fbind_cases)
      case (fail e)
      then obtain k where "fs_atomic_install ?t ?b s1 = (Inl k, s')" by (auto simp: io_err_Err_iff)
      from install_file [OF this t(4,1,2,3) tb] p1 fail(2) n show ?thesis by auto
    next
      case (run u s2)
      then have i: "fs_atomic_install ?t ?b s1 = (Inr u, s2)" by (simp add: io_err_Ok_iff)
      note p2 = install_file [OF i t(4,1,2,3) tb]
      obtain r3 where sd: "fs_sync_directory d s2 = (r3, s')" and r: "r = (case r3 of Inl k \<Rightarrow> Inl (e2 k) | Inr x \<Rightarrow> Inr x)"
        using run(2) by (auto simp: io_err_def split: prod.splits sum.splits)
      note p3 = sync_dir [OF sd p2(1)]
      show ?thesis
      proof (cases r3)
        case (Inl k)
        with p3(1,2,4,5) p2(2,4) p1 r show ?thesis by auto
      next
        case (Inr v)
        have os2: "os_files s2 = (os_files s)(?t := None, ?b \<mapsto> c)" "dir_files s2 ?b = Some c"
          "\<forall>q. q \<noteq> ?t \<longrightarrow> q \<noteq> ?b \<longrightarrow> dir_files s2 q = dir_files s q"
          using p2(3) p1 by auto
        have "\<forall>q. (\<forall>n. q \<noteq> d @ [n]) \<longrightarrow> crash_files s2 q = crash_files s q" using p2(2) p1 by auto
        with os2 p3(1,4) p2(4) p1 r Inr show ?thesis using p3(3) [OF Inr] by simp
      qed
    qed
  qed
qed

lemma replace_current_publishes:
  "publishes d ''CURRENT.tmp'' ''CURRENT'' (as_bytes n @ [10]) (replace_current d n)"
  using publishes_temp [OF writes_temp_current, of "''CURRENT.tmp''" "''CURRENT''" d "as_bytes n @ [10]"]
  by (simp add: replace_current_def Let_def fbind_assoc)

section \<open>Creating a database\<close>

abbreviation current_path :: "path \<Rightarrow> path" where
  "current_path d \<equiv> d @ [''CURRENT'']"

definition initial_manifest :: "crc_lib \<Rightarrow> bytes" where
  "initial_manifest lib = fst (frame_record lib 0 True (edit_bytes initial_edit))"

lemma initial_framed:
  "frame_log lib 0 [edit_bytes initial_edit] = (initial_manifest lib, length (edit_bytes initial_edit) + HEADER_BYTES)"
proof -
  have "length (edit_bytes initial_edit) \<le> 100" "edit_bytes initial_edit \<noteq> []"
    by (simp_all add: initial_edit_def edit_setters edit_bytes_def files_bytes_def log_bytes_def)
  then show ?thesis
    by (simp add: initial_manifest_def frame_record_Cons [OF _ refl] pad_offset_def framing_consts split_beta)
qed

lemma temp_names: "manifest_name n @ ''.tmp'' \<noteq> manifest_name n" "manifest_name n @ ''.tmp'' \<noteq> ''CURRENT''"
  "manifest_name n \<noteq> ''CURRENT.tmp''" "manifest_name n @ ''.tmp'' \<noteq> ''CURRENT.tmp''"
  "''CURRENT.tmp'' \<noteq> manifest_name n" "''CURRENT.tmp'' \<noteq> manifest_name n @ ''.tmp''"
  "''CURRENT'' \<noteq> manifest_name n @ ''.tmp''"
  by (simp_all add: manifest_name_def)

lemma dir_files_None: "dir_files s p = None \<longleftrightarrow> os_files s p = None"
  by (simp add: dir_files_def)

text \<open>What a crash can leave of a creation: nothing, the manifest alone, or the whole database.\<close>

definition boot_stage :: "crc_lib \<Rightarrow> path \<Rightarrow> (path \<Rightarrow> bytes option) \<Rightarrow> bool" where
  "boot_stage lib d files \<longleftrightarrow>
    files (current_path d) = None \<and> files (manifest_path d 1) \<in> {None, Some (initial_manifest lib)} \<or>
    files (current_path d) = Some (current_bytes 1) \<and> files (manifest_path d 1) = Some (initial_manifest lib)"

lemma create_new_eq:
  "create_new lib d =
    fbind (remove_temporary_if_present (d @ [manifest_name 1 @ ''.tmp''])) (\<lambda>_.
    fbind (remove_temporary_if_present (d @ [''CURRENT.tmp''])) (\<lambda>_.
    fbind (fbind (write_initial_manifest lib (d @ [manifest_name 1 @ ''.tmp'']) (edit_bytes initial_edit)) (\<lambda>_.
      fbind (io_err (Io ''install manifest temporary file'' (manifest_path d 1))
        (fs_atomic_install (d @ [manifest_name 1 @ ''.tmp'']) (manifest_path d 1))) (\<lambda>_.
      io_err (Io ''sync manifest directory'' d) (fs_sync_directory d)))) (\<lambda>_.
    fbind (replace_current d (manifest_name 1)) (\<lambda>_.
    fbind (io_err (Io ''open manifest for append'' (manifest_path d 1)) (fs_append_existing (manifest_path d 1))) (\<lambda>handle.
    fret (vs_fresh d handle (length (edit_bytes initial_edit) + HEADER_BYTES)))))))"
  by (simp add: create_new_def Let_def fbind_assoc initial_edit_ok(2) fbind_flift_eq)

lemma install_manifest_publishes:
  "publishes d (manifest_name 1 @ ''.tmp'') (manifest_name 1) (initial_manifest lib)
    (fbind (write_initial_manifest lib (d @ [manifest_name 1 @ ''.tmp'']) (edit_bytes initial_edit)) (\<lambda>_.
      fbind (io_err e1 (fs_atomic_install (d @ [manifest_name 1 @ ''.tmp'']) (manifest_path d 1))) (\<lambda>_.
      io_err e2 (fs_sync_directory d))))"
  unfolding initial_manifest_def by (rule publishes_temp [OF writes_temp_manifest temp_names(1)])

lemma append_existing_views:
  assumes "fs_append_existing p s = (r, s')" "fs_mirror s"
  shows "fs_mirror s' \<and> crash_files s' = crash_files s \<and> fs_fail_at s' = fs_fail_at s \<and>
    os_files s' = os_files s \<and> (os_files s p \<noteq> None \<longrightarrow> r = Inr p \<and> is_tracked s' p)"
proof -
  have "s' = snd (seed_existing_file p s)" using assms(1) by (auto simp: fs_append_existing_def split: prod.splits if_splits)
  moreover have "os_files s p \<noteq> None \<longrightarrow> r = Inr p"
    using assms(1) by (auto simp: fs_append_existing_def seed_existing_file_def)
  ultimately show ?thesis
    using fs_mirror_seed [OF assms(2)] crash_files_seed [OF assms(2)] seed_existing_tracked [of p s]
    by (auto simp: is_tracked_def)
qed

lemma fresh_ok:
  assumes "fs_mirror s" "is_tracked s (manifest_path d 1)"
    and "os_files s (manifest_path d 1) = Some (initial_manifest lib)"
    and "crash_files s (manifest_path d 1) = Some (initial_manifest lib)"
    and "crash_files s (current_path d) = Some (current_bytes 1)"
  shows "vs_ok lib (vs_fresh d (manifest_path d 1) (length (edit_bytes initial_edit) + HEADER_BYTES)) s [initial_edit]"
proof -
  have st: "vs_state (vs_fresh d h off) = initial_state" for h off by (simp add: vs_state_def vs_fresh_def initial_state_def)
  have "live_numbers (rs_version initial_state) = {}" by (simp add: initial_state_def live_numbers_def version_empty_def)
  then have db: "db_files d 1 [initial_edit] initial_state (crash_files s)"
    using assms(5) by (simp add: db_files_def rebuild_initial)
  have "framed_bytes lib [edit_bytes initial_edit] (initial_manifest lib) (length (edit_bytes initial_edit) + HEADER_BYTES)"
    unfolding framed_bytes_def initial_framed by simp
  with assms(1-4) db initial_record show ?thesis
    by (auto simp: vs_ok_def st linked_iff fs_contents_def Let_def) (auto simp: vs_fresh_def mw_new_def)
qed

text \<open>The part of the creation that follows the temporary files of an earlier attempt.\<close>

definition create_tail :: "crc_lib \<Rightarrow> path \<Rightarrow> version_set fs_m" where
  "create_tail lib d =
    fbind (fbind (write_initial_manifest lib (d @ [manifest_name 1 @ ''.tmp'']) (edit_bytes initial_edit)) (\<lambda>_.
      fbind (io_err (Io ''install manifest temporary file'' (manifest_path d 1))
        (fs_atomic_install (d @ [manifest_name 1 @ ''.tmp'']) (manifest_path d 1))) (\<lambda>_.
      io_err (Io ''sync manifest directory'' d) (fs_sync_directory d)))) (\<lambda>_.
    fbind (replace_current d (manifest_name 1)) (\<lambda>_.
    fbind (io_err (Io ''open manifest for append'' (manifest_path d 1)) (fs_append_existing (manifest_path d 1))) (\<lambda>handle.
    fret (vs_fresh d handle (length (edit_bytes initial_edit) + HEADER_BYTES)))))"

lemma create_tail_stages:
  assumes "create_tail lib d s = (r, s')" "fs_mirror s"
    and "os_files s (current_path d) = None" "os_files s (manifest_path d 1) = None"
    and "crash_files s (current_path d) = None" "crash_files s (manifest_path d 1) = None"
  shows "boot_stage lib d (crash_files s')"
    and "r = Inr vs \<Longrightarrow> vs_ok lib vs s' [initial_edit]"
    and "fs_fail_at s = None \<Longrightarrow> os_files s (d @ [manifest_name 1 @ ''.tmp'']) = None \<Longrightarrow>
      os_files s (d @ [''CURRENT.tmp'']) = None \<Longrightarrow> \<exists>vs. r = Inr vs"
proof -
  let ?mt = "manifest_name 1 @ ''.tmp''" and ?M = "manifest_path d 1" and ?C = "current_path d"
  have all: "boot_stage lib d (crash_files s') \<and> (\<forall>vs. r = Inr vs \<longrightarrow> vs_ok lib vs s' [initial_edit]) \<and>
    (fs_fail_at s = None \<longrightarrow> os_files s (d @ [?mt]) = None \<longrightarrow> os_files s (d @ [''CURRENT.tmp'']) = None \<longrightarrow> (\<exists>vs. r = Inr vs))"
    using assms(1) unfolding create_tail_def
  proof (cases rule: fbind_cases)
    case (fail e)
    note p = install_manifest_publishes [unfolded publishes_def, rule_format, OF assms(2) fail(1)]
    have "crash_files s' ?C = None" "crash_files s' ?M = None" using p fail(2) assms(5,6) temp_names by auto
    with p fail(2) assms(4) show ?thesis by (auto simp: boot_stage_def)
  next
    case (run x s1)
    note p = install_manifest_publishes [unfolded publishes_def, rule_format, OF assms(2) run(1)]
    have os1: "os_files s1 ?M = Some (initial_manifest lib)" "os_files s1 ?C = None" "fs_mirror s1"
      using p assms(3) temp_names by auto
    have c1: "crash_files s1 ?M = Some (initial_manifest lib)" "crash_files s1 ?C = None"
      using p os1(2) dir_files_None [of s1 ?C] by auto
    from run(2) show ?thesis
    proof (cases rule: fbind_cases)
      case (fail e)
      note q = replace_current_publishes [unfolded publishes_def, rule_format, OF os1(3) fail(1)]
      have "boot_stage lib d (crash_files s')" using q fail(2) c1 temp_names by (simp add: boot_stage_def)
      moreover have "fs_fail_at s = None \<longrightarrow> os_files s (d @ [''CURRENT.tmp'']) = None \<longrightarrow> False"
        using q fail(2) p os1(2) temp_names by auto
      ultimately show ?thesis using fail(2) by auto
    next
      case (run y s2)
      note q = replace_current_publishes [unfolded publishes_def, rule_format, OF os1(3) run(1)]
      have os2: "os_files s2 ?M = Some (initial_manifest lib)" "fs_mirror s2" using q os1 temp_names by auto
      have c2: "crash_files s2 ?C = Some (current_bytes 1)" "crash_files s2 ?M = Some (initial_manifest lib)"
        using q p temp_names by (auto simp: current_bytes_def)
      obtain r3 s3 where ap: "fs_append_existing ?M s2 = (r3, s3)" by force
      note a = append_existing_views [OF ap os2(2)]
      have r: "r = Inr (vs_fresh d ?M (length (edit_bytes initial_edit) + HEADER_BYTES))" "s' = s3"
        using run(2) ap a os2(1) by (auto simp: fbind_def io_err_def fret_def)
      have "vs_ok lib (vs_fresh d ?M (length (edit_bytes initial_edit) + HEADER_BYTES)) s3 [initial_edit]"
        using a os2 c2 by (intro fresh_ok) auto
      with r a c2 show ?thesis by (auto simp: boot_stage_def)
    qed
  qed
  from all show "boot_stage lib d (crash_files s')" "r = Inr vs \<Longrightarrow> vs_ok lib vs s' [initial_edit]"
    "fs_fail_at s = None \<Longrightarrow> os_files s (d @ [?mt]) = None \<Longrightarrow> os_files s (d @ [''CURRENT.tmp'']) = None \<Longrightarrow> \<exists>vs. r = Inr vs"
    by blast+
qed

lemma create_new_stages:
  assumes "create_new lib d s = (r, s')" "fs_mirror s"
    and "os_files s (current_path d) = None" "os_files s (manifest_path d 1) = None"
    and "crash_files s (current_path d) = None" "crash_files s (manifest_path d 1) = None"
  shows "boot_stage lib d (crash_files s') \<and> (\<forall>vs. r = Inr vs \<longrightarrow> vs_ok lib vs s' [initial_edit]) \<and>
    (fs_fail_at s = None \<longrightarrow> (\<exists>vs. r = Inr vs))"
  using assms(1) unfolding create_new_eq create_tail_def [symmetric]
proof (cases rule: fbind_cases)
  case (fail e)
  from remove_temporary [OF fail(1) assms(2)] fail(2) assms(5,6) show ?thesis by (auto simp: boot_stage_def)
next
  case (run x s1)
  note p1 = remove_temporary [OF run(1) assms(2)]
  from run(2) show ?thesis
  proof (cases rule: fbind_cases)
    case (fail e)
    from remove_temporary [OF fail(1) p1(1)] p1 fail(2) assms(5,6) show ?thesis by (auto simp: boot_stage_def)
  next
    case (run y s2)
    note p2 = remove_temporary [OF run(1) p1(1)]
    have os2: "os_files s2 = ((os_files s)(d @ [manifest_name 1 @ ''.tmp''] := None))(d @ [''CURRENT.tmp''] := None)"
      using p1(4) p2(4) by auto
    have pre: "os_files s2 (current_path d) = None" "os_files s2 (manifest_path d 1) = None"
      "crash_files s2 (current_path d) = None" "crash_files s2 (manifest_path d 1) = None"
      using os2 p1(2) p2(2) assms(3-6) by auto
    from create_tail_stages [OF run(2) p2(1) pre] p1(3) p2(3) os2 show ?thesis by auto
  qed
qed

section \<open>Completing an interrupted creation\<close>

text \<open>A settled filesystem on which a directory synchronization would change nothing either.\<close>

definition calm :: "fs \<Rightarrow> bool" where
  "calm s \<longleftrightarrow> settled s \<and> dir_files s = os_files s"

lemma calm_restart: "calm (fs_restart s)"
  using settled_restart(1) [of s]
  by (auto simp: calm_def dir_files_def fun_eq_iff is_tracked_def fs_restart_def fs_recording_def)

lemma calm_open_read:
  assumes "calm s" "os_files s p = Some c"
  shows "\<exists>s'. fs_open_read p s = (Inr c, s') \<and> calm s' \<and> os_files s' = os_files s"
  using assms settled_seed [of s p] dir_files_seed [of s p]
  by (auto simp: fs_open_read_def case_prod_beta calm_def settled_def)

lemma replay_manifest_fs: "snd (replay_manifest lib p s) = snd (fs_open_read p s)"
  by (auto simp: replay_manifest_def replay_manifest_stream_def fbind_def io_err_def flift_def fret_def
      split: prod.splits sum.splits)

lemma initial_torn: "torn_bytes lib [edit_bytes initial_edit] (initial_manifest lib)"
  by (rule framed_bytes_torn [of _ _ _ "length (edit_bytes initial_edit) + HEADER_BYTES"])
    (simp only: framed_bytes_def initial_framed prod.case Let_def simp_thms)

lemma initial_live: "live_numbers (rs_version initial_state) = {}" "v_levels (rs_version initial_state) = replicate NUM_LEVELS []"
  by (simp_all add: initial_state_def live_numbers_def version_empty_def)

lemma initial_db:
  "files (current_path d) = Some (current_bytes 1) \<Longrightarrow> db_files d 1 [initial_edit] initial_state files"
  by (simp add: db_files_def rebuild_initial initial_live)

lemma calm_replay_initial:
  assumes "calm s" "os_files s p = Some (initial_manifest lib)"
  shows "\<exists>s'. replay_manifest lib p s = (Inr \<lparr>mr_edits = [initial_edit], mr_valid_bytes = length (initial_manifest lib),
    mr_file_length = length (initial_manifest lib)\<rparr>, s') \<and> calm s' \<and> os_files s' = os_files s"
proof -
  let ?b = "initial_manifest lib"
  have st: "settled s" using assms(1) by (simp add: calm_def)
  from replay_manifest_torn [OF initial_record initial_torn st assms(2)] obtain n s' where
    r: "replay_manifest lib p s = (Inr \<lparr>mr_edits = [initial_edit], mr_valid_bytes = n, mr_file_length = length ?b\<rparr>, s')"
    and n: "n \<le> length ?b" "framed_bytes lib [edit_bytes initial_edit] (take n ?b) (n mod BLOCK_BYTES)" by blast
  from n(2) have "length ?b \<le> length (take n ?b)"
    unfolding framed_bytes_def initial_framed by (auto dest: arg_cong [of _ _ length])
  with n(1) have "n = length ?b" by simp
  moreover from calm_open_read [OF assms] r replay_manifest_fs [of lib p s] have "calm s' \<and> os_files s' = os_files s" by auto
  ultimately show ?thesis using r by auto
qed

lemma validate_no_files:
  assumes "\<forall>l \<in> set ls. v_files v l = []"
  shows "validate_levels d v ls s = (Inr (), s)"
  using assms by (induction ls) simp_all

lemma initial_referenced: "validate_referenced_files d (rs_version initial_state) s = (Inr (), s)"
  by (simp add: validate_referenced_files_def validate_no_files v_files_def initial_live)

lemma calm_replace_current:
  assumes "fs_mirror s" "fs_fail_at s = None"
    and "\<forall>q. q \<noteq> d @ [''CURRENT.tmp''] \<longrightarrow> crash_files s q = os_files s q \<and> dir_files s q = os_files s q"
    and "os_files s (d @ [''CURRENT.tmp'']) = None" "os_files s (current_path d) = None"
  shows "\<exists>s'. replace_current d (manifest_name 1) s = (Inr (), s') \<and> settled s' \<and>
    os_files s' = (os_files s)(current_path d \<mapsto> current_bytes 1)"
proof -
  obtain r s' where run: "replace_current d (manifest_name 1) s = (r, s')" by force
  note p = replace_current_publishes [unfolded publishes_def, rule_format, OF assms(1) run]
  have r: "r = Inr ()" using p assms(2,4,5) by auto
  have os: "os_files s' = (os_files s)(current_path d \<mapsto> current_bytes 1)"
    using p r assms(4) by (auto simp: current_bytes_def fun_upd_idem)
  have "crash_files s' q = os_files s' q" for q
  proof (cases "\<exists>n. q = d @ [n]")
    case True
    then obtain n where q: "q = d @ [n]" by blast
    consider "n = ''CURRENT''" | "n = ''CURRENT.tmp''" | "n \<noteq> ''CURRENT''" "n \<noteq> ''CURRENT.tmp''" by blast
    then show ?thesis
    proof cases
      case 1
      then show ?thesis using p r os q by (simp add: current_bytes_def)
    next
      case 2
      then have "os_files s' q = None" using os q assms(4) by simp
      with p r q dir_files_None [of s' q] show ?thesis by simp
    next
      case 3
      then have "dir_files s' q = dir_files s q" using p r q by simp
      with p r os q assms(3) 3 show ?thesis by simp
    qed
  next
    case False
    with p r os assms(3) show ?thesis by auto
  qed
  then have "crash_files s' = os_files s'" by blast
  with p assms(2) have "settled s'" by (simp add: settled_def)
  with run r os show ?thesis by blast
qed

lemma calm_remove:
  assumes "calm s"
  shows "\<exists>s'. remove_temporary_if_present p s = (Inr (), s') \<and> fs_mirror s' \<and> fs_fail_at s' = None \<and>
    os_files s' = (os_files s)(p := None) \<and> (\<forall>q. q \<noteq> p \<longrightarrow> dir_files s' q = os_files s' q) \<and> crash_files s' = os_files s"
proof -
  obtain r s' where run: "remove_temporary_if_present p s = (r, s')" by force
  have m: "fs_mirror s" "fs_fail_at s = None" "crash_files s = os_files s" "dir_files s = os_files s"
    using assms by (auto simp: calm_def settled_def)
  note p = remove_temporary [OF run m(1)]
  have "r = Inr ()" using p(5) m(2) by simp
  with run p m show ?thesis by auto
qed

lemma resume_ok:
  assumes "calm s" "os_files s (current_path d) = None" "os_files s (manifest_path d 1) = Some (initial_manifest lib)"
  shows "\<exists>vs s'. resume_bootstrap lib (Ok ()) d s = (Ok vs, s') \<and> vs_ok lib vs s' [initial_edit]"
proof -
  let ?M = "manifest_path d 1" and ?C = "current_path d" and ?T = "d @ [''CURRENT.tmp'']"
  from calm_open_read [OF assms(1,3)] obtain s1 where
    v: "fs_validate_file ?M s = (Inr (), s1)" and s1: "calm s1" "os_files s1 = os_files s"
    by (auto simp: fs_validate_file_def)
  from calm_replay_initial [OF s1(1), of ?M lib] assms(3) s1(2) obtain s2 where
    rp: "replay_manifest lib ?M s1 = (Inr \<lparr>mr_edits = [initial_edit], mr_valid_bytes = length (initial_manifest lib),
      mr_file_length = length (initial_manifest lib)\<rparr>, s2)" and s2: "calm s2" "os_files s2 = os_files s" by auto
  have vi: "validate_interrupted_bootstrap lib d 1 ?M s1 = (Inr (), s2)"
    by (simp add: validate_interrupted_bootstrap_def fbind_run [of "replay_manifest lib ?M", OF rp]
        rebuild_initial initial_referenced)
  from calm_remove [OF s2(1), of ?T] obtain s3 where
    rm: "remove_temporary_if_present ?T s2 = (Inr (), s3)" and s3: "fs_mirror s3" "fs_fail_at s3 = None"
    "os_files s3 = (os_files s2)(?T := None)" "\<forall>q. q \<noteq> ?T \<longrightarrow> dir_files s3 q = os_files s3 q"
    "crash_files s3 = os_files s2" by blast
  have "\<forall>q. q \<noteq> ?T \<longrightarrow> crash_files s3 q = os_files s3 q \<and> dir_files s3 q = os_files s3 q"
    "os_files s3 ?T = None" "os_files s3 ?C = None"
    using s3 s2 assms(2) by auto
  from calm_replace_current [OF s3(1,2) this] obtain s4 where
    rc: "replace_current d (manifest_name 1) s3 = (Inr (), s4)" and s4: "settled s4"
      "os_files s4 = (os_files s3)(?C \<mapsto> current_bytes 1)" by blast
  have M: "os_files s4 ?M = Some (initial_manifest lib)" using s4(2) s3(3) s2(2) assms(3) temp_names by simp
  have "db_files d 1 [initial_edit] initial_state (os_files s4)" by (rule initial_db) (simp add: s4(2))
  from vs_recover_ok [OF s4(1) this initial_record initial_torn M] obtain vs s5 where
    rec: "vs_recover lib (Ok ()) d s4 = (Ok vs, s5)" "vs_ok lib vs s5 [initial_edit]" by blast
  have "resume_bootstrap lib (Ok ()) d s = (Ok vs, s5)"
    using rec(1) by (simp add: resume_bootstrap_def Let_def fbind_io [of "fs_validate_file ?M", OF v]
        fbind_run [of "validate_interrupted_bootstrap lib d 1 ?M", OF vi]
        fbind_run [of "remove_temporary_if_present ?T", OF rm] fbind_run [of "replace_current d (manifest_name 1)", OF rc])
  with rec(2) show ?thesis by blast
qed

text \<open>How the engine opens its version set.\<close>

definition open_versions :: "crc_lib \<Rightarrow> unit result \<Rightarrow> unit result \<Rightarrow> path \<Rightarrow> version_set fs_m" where
  "open_versions lib lock relock directory fs =
    (if fs_entry_exists (directory @ [''CURRENT'']) fs then vs_recover lib lock directory fs
     else vs_create lib lock relock directory fs)"

lemma open_boot_stage:
  assumes "boot_stage lib d (os_files s)" "calm s"
  shows "\<exists>vs s'. open_versions lib (Ok ()) (Ok ()) d s = (Ok vs, s') \<and> vs_ok lib vs s' [initial_edit]"
proof -
  let ?M = "manifest_path d 1" and ?C = "current_path d"
  have st: "settled s" "fs_mirror s" "fs_fail_at s = None" "crash_files s = os_files s"
    using assms(2) by (auto simp: calm_def settled_def)
  consider (none) "os_files s ?C = None" "os_files s ?M = None"
    | (half) "os_files s ?C = None" "os_files s ?M = Some (initial_manifest lib)"
    | (full) "os_files s ?C = Some (current_bytes 1)" "os_files s ?M = Some (initial_manifest lib)"
    using assms(1) by (auto simp: boot_stage_def)
  then show ?thesis
  proof cases
    case none
    obtain r s' where run: "create_new lib d s = (r, s')" by force
    from create_new_stages [OF run st(2) none] none st(3,4) run show ?thesis
      by (auto simp: open_versions_def vs_create_def fs_entry_exists_def)
  next
    case half
    from resume_ok [OF assms(2) half] half show ?thesis
      by (auto simp: open_versions_def vs_create_def fs_entry_exists_def)
  next
    case full
    have "db_files d 1 [initial_edit] initial_state (os_files s)" using initial_db full(1) by blast
    from vs_recover_ok [OF st(1) this initial_record initial_torn full(2)] full(1) show ?thesis
      by (auto simp: open_versions_def fs_entry_exists_def)
  qed
qed

section \<open>Properties\<close>

text \<open>
  C99. Opening a directory without a database, whichever filesystem operation fails, leaves a
  directory in which the next open succeeds and gives the empty database; when no operation fails
  the first open already does.
\<close>

theorem bootstrap_completes:
  assumes "fs = fs_failing_at files n \<or> fs = fs_recording files"
    and "files (current_path d) = None" "files (manifest_path d 1) = None"
    and "open_versions lib (Ok ()) (Ok ()) d fs = (r, fs1)"
  shows "(\<forall>vs. r = Ok vs \<longrightarrow> vs_ok lib vs fs1 [initial_edit]) \<and>
    (fs = fs_recording files \<longrightarrow> (\<exists>vs. r = Ok vs)) \<and>
    (\<exists>vs fs2. open_versions lib (Ok ()) (Ok ()) d (fs_restart fs1) = (Ok vs, fs2) \<and> vs_ok lib vs fs2 [initial_edit])"
proof -
  have fs: "fs_mirror fs" "os_files fs = files" "crash_files fs = files"
    using assms(1) fs_mirror_init [of files] by (auto simp: fs_recording_def fs_failing_at_def crash_simps fun_eq_iff)
  have run: "create_new lib d fs = (r, fs1)"
    using assms(2-4) fs(2) by (simp add: open_versions_def vs_create_def fs_entry_exists_def)
  have "os_files fs (current_path d) = None" "os_files fs (manifest_path d 1) = None"
    "crash_files fs (current_path d) = None" "crash_files fs (manifest_path d 1) = None"
    using assms(2,3) fs by simp_all
  note c = create_new_stages [OF run fs(1) this]
  have "boot_stage lib d (os_files (fs_restart fs1))" using c settled_restart(2) [of fs1] by simp
  from open_boot_stage [OF this calm_restart] c show ?thesis
    by (auto simp: fs_recording_def)
qed

theorem bootstrap_completes_witness:
  "\<exists>vs fs2. open_versions sample_crc (Ok ()) (Ok ()) [''db'']
      (fs_restart (snd (open_versions sample_crc (Ok ()) (Ok ()) [''db''] (fs_failing_at Map.empty 4)))) = (Ok vs, fs2) \<and>
    vs_ok sample_crc vs fs2 [initial_edit]"
  using bootstrap_completes [of "fs_failing_at Map.empty 4" Map.empty 4 "[''db'']" sample_crc
      "fst (open_versions sample_crc (Ok ()) (Ok ()) [''db''] (fs_failing_at Map.empty 4))"
      "snd (open_versions sample_crc (Ok ()) (Ok ()) [''db''] (fs_failing_at Map.empty 4))"]
  by simp

end
