(* ===== verification/Spec2Isabelle.thy ===== *)
theory Spec2Isabelle
  imports Configuration Snapshot_Registry Wal Mem_Table Bloom_Filter Sst_Inspect Merge_Iter Bootstrap
begin

text \<open>
  MeteorDB verification library.
\<close>

end
